(* ===== verification/Prelude.thy ===== *)
theory Prelude
  imports Complex_Main "HOL-Library.Word"
begin

unbundle bit_operations_syntax

text \<open>
  Shared vocabulary of the development: the C integer types at their width, the outcome of a
  C function that may return, fail an assertion or not return, and the sequencing of such
  functions.

  An \<open>out\<close> value is what running a C function gives:
  \<^item> \<open>Ret v s\<close>: it returned \<open>v\<close> and left the state \<open>s\<close>;
  \<^item> \<open>Abort\<close>: an \<open>assert\<close> failed, \<open>abort()\<close> was called, or a pointer that leads to no
    object was followed;
  \<^item> \<open>Stuck\<close>: it did not return: an endless loop, or a loop that did not leave within the
    number of rounds (the fuel) it was given.
\<close>

section \<open>C integers\<close>

type_synonym i32 = "32 word"
type_synonym u32 = "32 word"
type_synonym i16 = "16 word"
type_synonym u64 = "64 word"
type_synonym i64 = "64 word"

section \<open>Outcomes\<close>

datatype ('v, 's) out = Ret 'v 's | Abort | Stuck

definition bnd :: "('v, 's) out \<Rightarrow> ('v \<Rightarrow> 's \<Rightarrow> ('w, 't) out) \<Rightarrow> ('w, 't) out" where
  "bnd x f = (case x of Ret v s \<Rightarrow> f v s | Abort \<Rightarrow> Abort | Stuck \<Rightarrow> Stuck)"

definition assrt :: "bool \<Rightarrow> ('v, 's) out \<Rightarrow> ('v, 's) out" where
  "assrt b k = (if b then k else Abort)"

lemma bnd_simps [simp]:
  "bnd (Ret v s) f = f v s"
  "bnd Abort f = Abort"
  "bnd Stuck f = Stuck"
  by (simp_all add: bnd_def)

lemma bnd_eq_Ret: "bnd x f = Ret v s \<longleftrightarrow> (\<exists>u t. x = Ret u t \<and> f u t = Ret v s)"
  by (cases x) simp_all

lemma bnd_assoc: "bnd (bnd x f) g = bnd x (\<lambda>v s. bnd (f v s) g)"
  by (cases x) simp_all

lemma assrt_True [simp]: "assrt True k = k"
  by (simp add: assrt_def)

lemma assrt_False [simp]: "assrt False k = Abort"
  by (simp add: assrt_def)

lemma assrt_eq_Ret: "assrt b k = Ret v s \<longleftrightarrow> b \<and> k = Ret v s"
  by (simp add: assrt_def)

lemma assrt_neq_Stuck: "k \<noteq> Stuck \<Longrightarrow> assrt b k \<noteq> Stuck"
  by (simp add: assrt_def)

named_theorems out_ret \<open>inversion of a returning outcome\<close>

declare bnd_eq_Ret [out_ret] assrt_eq_Ret [out_ret]

section \<open>C truth values\<close>

definition c_bool :: "bool \<Rightarrow> i32" where
  "c_bool b = (if b then 1 else 0)"

lemma c_bool_simps [simp]: "c_bool True = 1" "c_bool False = 0"
  by (simp_all add: c_bool_def)

lemma c_bool_eq_0 [simp]: "c_bool b = 0 \<longleftrightarrow> \<not> b"
  by (simp add: c_bool_def)

end
