(* ===== verification/LowLevelLock.thy ===== *)
theory LowLevelLock
  imports Prelude
begin

unbundle bit_operations_syntax

text \<open>
  The low-level lock of \<open>source/lowlevellock.h\<close> with the slow paths of
  \<open>source/lowlevellock.S\<close>, and the futex operation codes of
  \<open>source/lowlevellock-futex.h\<close>.

  The macros of the header work on any 32-bit word (the lock of a mutex, of a condition
  variable, of a thread descriptor), so each operation here takes a \<open>cell\<close>: how to read and
  write that word in the state, what the other threads do to the state before the next
  access of the word (\<open>c_tick\<close>), and where the futex system calls are recorded. One locked
  instruction of the assembler is one tick followed by one atomic update. A thread that
  sleeps in \<open>FUTEX_WAIT\<close> may be woken, refused by the kernel or interrupted; in each case it
  goes on at the next instruction after the others have moved, which is the tick of that
  instruction.

  The laws of a cell are the locale \<open>futex_cell\<close>; \<open>quiet_cell\<close> adds that nobody else touches
  the word.
\<close>

section \<open>Futex operation codes (lowlevellock-futex.h)\<close>

definition FUTEX_WAIT :: i32 where "FUTEX_WAIT = 0"
definition FUTEX_WAKE :: i32 where "FUTEX_WAKE = 1"
definition FUTEX_REQUEUE :: i32 where "FUTEX_REQUEUE = 3"
definition FUTEX_CMP_REQUEUE :: i32 where "FUTEX_CMP_REQUEUE = 4"
definition FUTEX_WAKE_OP :: i32 where "FUTEX_WAKE_OP = 5"
definition FUTEX_LOCK_PI :: i32 where "FUTEX_LOCK_PI = 6"
definition FUTEX_UNLOCK_PI :: i32 where "FUTEX_UNLOCK_PI = 7"
definition FUTEX_TRYLOCK_PI :: i32 where "FUTEX_TRYLOCK_PI = 8"
definition FUTEX_WAIT_BITSET :: i32 where "FUTEX_WAIT_BITSET = 9"
definition FUTEX_WAIT_REQUEUE_PI :: i32 where "FUTEX_WAIT_REQUEUE_PI = 11"
definition FUTEX_CMP_REQUEUE_PI :: i32 where "FUTEX_CMP_REQUEUE_PI = 12"
definition FUTEX_PRIVATE_FLAG :: i32 where "FUTEX_PRIVATE_FLAG = 128"
definition FUTEX_CLOCK_REALTIME :: i32 where "FUTEX_CLOCK_REALTIME = 256"

definition LLL_PRIVATE :: i32 where "LLL_PRIVATE = 0"
definition LLL_SHARED :: i32 where "LLL_SHARED = FUTEX_PRIVATE_FLAG"

lemmas futex_codes = FUTEX_WAIT_def FUTEX_WAKE_def FUTEX_REQUEUE_def FUTEX_CMP_REQUEUE_def
  FUTEX_WAKE_OP_def FUTEX_LOCK_PI_def FUTEX_UNLOCK_PI_def FUTEX_TRYLOCK_PI_def
  FUTEX_WAIT_BITSET_def FUTEX_WAIT_REQUEUE_PI_def FUTEX_CMP_REQUEUE_PI_def
  FUTEX_PRIVATE_FLAG_def FUTEX_CLOCK_REALTIME_def LLL_PRIVATE_def LLL_SHARED_def

text \<open>\<open>__ASSUME_PRIVATE_FUTEX\<close> is defined (lowlevellock.h:23), so this is the macro in use.\<close>

definition lll_private_flag :: "i32 \<Rightarrow> i32 \<Rightarrow> i32" where
  "lll_private_flag fl private = (fl OR FUTEX_PRIVATE_FLAG) XOR private"

text \<open>The flags as the assembler builds them: \<open>LOAD_PRIVATE_FUTEX_WAIT\<close>, \<open>LOAD_FUTEX_WAIT\<close> and
  their \<open>WAKE\<close> versions.\<close>

definition LOAD_PRIVATE_FUTEX_WAIT :: i32 where
  "LOAD_PRIVATE_FUTEX_WAIT = FUTEX_WAIT OR FUTEX_PRIVATE_FLAG"

definition LOAD_PRIVATE_FUTEX_WAKE :: i32 where
  "LOAD_PRIVATE_FUTEX_WAKE = FUTEX_WAKE OR FUTEX_PRIVATE_FLAG"

definition LOAD_FUTEX_WAIT :: "i32 \<Rightarrow> i32" where
  "LOAD_FUTEX_WAIT private = private XOR (FUTEX_WAIT OR FUTEX_PRIVATE_FLAG)"

definition LOAD_FUTEX_WAKE :: "i32 \<Rightarrow> i32" where
  "LOAD_FUTEX_WAKE private = private XOR (FUTEX_WAKE OR FUTEX_PRIVATE_FLAG)"

text \<open>System call results (sysdep.h): the values -4095 to -1 are errors.\<close>

definition internal_syscall_error_p :: "i64 \<Rightarrow> bool" where
  "internal_syscall_error_p val = (val \<ge> - 4095)"

definition internal_syscall_errno :: "i64 \<Rightarrow> i64" where
  "internal_syscall_errno val = - val"

text \<open>The value of \<open>lll_futex_syscall\<close>: minus the error number, or 0.\<close>

definition lll_futex_syscall_value :: "i64 \<Rightarrow> i64" where
  "lll_futex_syscall_value ret =
     (if internal_syscall_error_p ret then - internal_syscall_errno ret else 0)"

section \<open>Cells\<close>

datatype fcall = FCall (fc_op: i32) (fc_val: i32)

record 's cell =
  c_rd :: "'s \<Rightarrow> i32"
  c_wr :: "i32 \<Rightarrow> 's \<Rightarrow> 's"
  c_tick :: "'s \<Rightarrow> 's"
  c_sys :: "fcall \<Rightarrow> 's \<Rightarrow> 's"

subsection \<open>Single instructions\<close>

text \<open>\<open>lock cmpxchgl new, word\<close> with the expected value in \<open>%eax\<close>: the value found is left in
  \<open>%eax\<close>; the word is written when it was the expected one.\<close>

definition cmpxchg :: "'s cell \<Rightarrow> i32 \<Rightarrow> i32 \<Rightarrow> 's \<Rightarrow> i32 \<times> 's" where
  "cmpxchg C new old s =
     (let s = c_tick C s; v = c_rd C s in (v, if v = old then c_wr C new s else s))"

definition xchgl :: "'s cell \<Rightarrow> i32 \<Rightarrow> 's \<Rightarrow> i32 \<times> 's" where
  "xchgl C new s = (let s = c_tick C s in (c_rd C s, c_wr C new s))"

definition decl :: "'s cell \<Rightarrow> 's \<Rightarrow> i32 \<times> 's" where
  "decl C s = (let s = c_tick C s; v = c_rd C s - 1 in (v, c_wr C v s))"

definition andl :: "'s cell \<Rightarrow> i32 \<Rightarrow> 's \<Rightarrow> i32 \<times> 's" where
  "andl C m s = (let s = c_tick C s; v = c_rd C s AND m in (v, c_wr C v s))"

text \<open>A plain load and a plain store of the word.\<close>

definition loadl :: "'s cell \<Rightarrow> 's \<Rightarrow> i32 \<times> 's" where
  "loadl C s = (let s = c_tick C s in (c_rd C s, s))"

definition storel :: "'s cell \<Rightarrow> i32 \<Rightarrow> 's \<Rightarrow> 's" where
  "storel C v s = c_wr C v (c_tick C s)"

section \<open>The lock (lowlevellock.h, lowlevellock.S)\<close>

definition LLL_LOCK_INITIALIZER :: i32 where "LLL_LOCK_INITIALIZER = 0"
definition LLL_LOCK_INITIALIZER_LOCKED :: i32 where "LLL_LOCK_INITIALIZER_LOCKED = 1"
definition LLL_LOCK_INITIALIZER_WAITERS :: i32 where "LLL_LOCK_INITIALIZER_WAITERS = 2"

lemmas lll_init = LLL_LOCK_INITIALIZER_def LLL_LOCK_INITIALIZER_LOCKED_def
  LLL_LOCK_INITIALIZER_WAITERS_def

definition lll_trylock :: "'s cell \<Rightarrow> 's \<Rightarrow> i32 \<times> 's" where
  "lll_trylock C s = cmpxchg C LLL_LOCK_INITIALIZER_LOCKED LLL_LOCK_INITIALIZER s"

definition lll_cond_trylock :: "'s cell \<Rightarrow> 's \<Rightarrow> i32 \<times> 's" where
  "lll_cond_trylock C s = cmpxchg C LLL_LOCK_INITIALIZER_WAITERS LLL_LOCK_INITIALIZER s"

text \<open>
  The loop of \<open>__lll_lock_wait\<close> from its label 2: exchange 2 into the word, leave when the
  word was 0, sleep and go round again otherwise. The first argument bounds the rounds.
\<close>

fun lll_wait_xchg :: "nat \<Rightarrow> 's cell \<Rightarrow> i32 \<Rightarrow> 's \<Rightarrow> (unit, 's) out" where
  "lll_wait_xchg 0 C op s = Stuck"
| "lll_wait_xchg (Suc n) C op s =
     (case xchgl C 2 s of (eax, s) \<Rightarrow>
        if eax = 0 then Ret () s else lll_wait_xchg n C op (c_sys C (FCall op 2) s))"

definition lll_lock_wait :: "nat \<Rightarrow> 's cell \<Rightarrow> i32 \<Rightarrow> i32 \<Rightarrow> 's \<Rightarrow> (unit, 's) out" where
  "lll_lock_wait n C op eax s =
     (if eax = 2 then lll_wait_xchg n C op (c_sys C (FCall op 2) s) else lll_wait_xchg n C op s)"

text \<open>The first argument of \<open>lll_lock\<close> says whether the caller passes the constant
  \<open>LLL_PRIVATE\<close>, which the macro tests with \<open>__builtin_constant_p\<close>.\<close>

definition lll_lock :: "nat \<Rightarrow> 's cell \<Rightarrow> bool \<Rightarrow> i32 \<Rightarrow> 's \<Rightarrow> (unit, 's) out" where
  "lll_lock n C const private s =
     (case cmpxchg C 1 0 s of (eax, s) \<Rightarrow>
        if eax = 0 then Ret () s
        else if const \<and> private = LLL_PRIVATE
        then lll_lock_wait n C LOAD_PRIVATE_FUTEX_WAIT eax s
        else lll_lock_wait n C (LOAD_FUTEX_WAIT private) eax s)"

definition lll_cond_lock :: "nat \<Rightarrow> 's cell \<Rightarrow> i32 \<Rightarrow> 's \<Rightarrow> (unit, 's) out" where
  "lll_cond_lock n C private s =
     (case cmpxchg C 2 0 s of (eax, s) \<Rightarrow>
        if eax = 0 then Ret () s else lll_lock_wait n C (LOAD_FUTEX_WAIT private) eax s)"

definition lll_unlock_wake :: "'s cell \<Rightarrow> i32 \<Rightarrow> 's \<Rightarrow> 's" where
  "lll_unlock_wake C op s = c_sys C (FCall op 1) (storel C 0 s)"

definition lll_unlock :: "'s cell \<Rightarrow> bool \<Rightarrow> i32 \<Rightarrow> 's \<Rightarrow> 's" where
  "lll_unlock C const private s =
     (case decl C s of (v, s) \<Rightarrow>
        if v = 0 then s
        else if const \<and> private = LLL_PRIVATE
        then lll_unlock_wake C LOAD_PRIVATE_FUTEX_WAKE s
        else lll_unlock_wake C (LOAD_FUTEX_WAKE private) s)"

definition FUTEX_WAITERS :: i32 where "FUTEX_WAITERS = 0x80000000"
definition FUTEX_OWNER_DIED :: i32 where "FUTEX_OWNER_DIED = 0x40000000"
definition FUTEX_TID_MASK :: i32 where "FUTEX_TID_MASK = 0x3fffffff"

lemmas futex_masks = FUTEX_WAITERS_def FUTEX_OWNER_DIED_def FUTEX_TID_MASK_def

definition lll_robust_unlock :: "'s cell \<Rightarrow> i32 \<Rightarrow> 's \<Rightarrow> 's" where
  "lll_robust_unlock C private s =
     (case andl C FUTEX_WAITERS s of (v, s) \<Rightarrow>
        if v = 0 then s else lll_unlock_wake C (LOAD_FUTEX_WAKE private) s)"

definition lll_islocked :: "'s cell \<Rightarrow> 's \<Rightarrow> bool \<times> 's" where
  "lll_islocked C s = (case loadl C s of (v, s) \<Rightarrow> (v \<noteq> LLL_LOCK_INITIALIZER, s))"

definition lll_futex_wait :: "'s cell \<Rightarrow> i32 \<Rightarrow> i32 \<Rightarrow> 's \<Rightarrow> 's" where
  "lll_futex_wait C val private s = c_sys C (FCall (lll_private_flag FUTEX_WAIT private) val) s"

definition lll_futex_wake :: "'s cell \<Rightarrow> i32 \<Rightarrow> i32 \<Rightarrow> 's \<Rightarrow> 's" where
  "lll_futex_wake C nr private s = c_sys C (FCall (lll_private_flag FUTEX_WAKE private) nr) s"

section \<open>The contract of a cell\<close>

text \<open>
  What every word the lock is used on gives its client: a read after a write sees the
  written value, and recording a system call does not change the word. The lemmas about the
  lock are proved once, here, and used for each word through its interpretation.
\<close>

text \<open>How the state moves while one thread works on the word to acquire it: it writes no 0.\<close>

inductive moved :: "'s cell \<Rightarrow> 's \<Rightarrow> 's \<Rightarrow> bool" for C where
  stay: "moved C s s"
| tick: "moved C (c_tick C s) t \<Longrightarrow> moved C s t"
| wr: "v \<noteq> 0 \<Longrightarrow> moved C (c_wr C v s) t \<Longrightarrow> moved C s t"
| sys: "moved C (c_sys C f s) t \<Longrightarrow> moved C s t"

lemma moved_keeps:
  assumes "moved C s t" and "P s"
    and "\<And>s. P s \<Longrightarrow> P (c_tick C s)" and "\<And>v s. v \<noteq> 0 \<Longrightarrow> P s \<Longrightarrow> P (c_wr C v s)"
    and "\<And>f s. P s \<Longrightarrow> P (c_sys C f s)"
  shows "P t"
  using assms by (induction rule: moved.induct) blast+

lemma moved_same:
  assumes "moved C s t"
    and "\<And>s. f (c_tick C s) = f s" and "\<And>v s. f (c_wr C v s) = f s"
    and "\<And>g s. f (c_sys C g s) = f s"
  shows "f t = f s"
  using assms(1) by (induction rule: moved.induct) (simp_all add: assms(2-4))

text \<open>One round of the slow path that does not get the lock, and finding the word free after \<open>k\<close> of
  them.\<close>

definition wait_round :: "'s cell \<Rightarrow> i32 \<Rightarrow> 's \<Rightarrow> 's" where
  "wait_round C op s = c_sys C (FCall op 2) (c_wr C 2 (c_tick C s))"

definition free_at :: "'s cell \<Rightarrow> i32 \<Rightarrow> nat \<Rightarrow> 's \<Rightarrow> bool" where
  "free_at C op k s \<longleftrightarrow> c_rd C (c_tick C ((wait_round C op ^^ k) s)) = 0"

locale futex_cell =
  fixes C :: "'s cell"
  assumes rd_wr [simp]: "c_rd C (c_wr C v s) = v"
    and wr_wr [simp]: "c_wr C u (c_wr C v s) = c_wr C u s"
    and rd_sys [simp]: "c_rd C (c_sys C f s) = c_rd C s"
begin

lemma cmpxchg_cases:
  "cmpxchg C new old s =
     (if c_rd C (c_tick C s) = old then (old, c_wr C new (c_tick C s))
      else (c_rd C (c_tick C s), c_tick C s))"
  by (simp add: cmpxchg_def Let_def)

lemma xchgl_eq: "xchgl C v s = (c_rd C (c_tick C s), c_wr C v (c_tick C s))"
  by (simp add: xchgl_def Let_def)

text \<open>\<open>lll_trylock\<close> gives 0 exactly when it has taken the lock (the comment at
  lowlevellock.h:63).\<close>

lemma trylock_zero_iff: "fst (lll_trylock C s) = 0 \<longleftrightarrow> c_rd C (c_tick C s) = 0"
  by (simp add: lll_trylock_def cmpxchg_cases lll_init)

lemma trylock_state:
  "snd (lll_trylock C s) =
     (if c_rd C (c_tick C s) = 0 then c_wr C 1 (c_tick C s) else c_tick C s)"
  by (simp add: lll_trylock_def cmpxchg_cases lll_init)

lemma cond_trylock_state:
  "snd (lll_cond_trylock C s) =
     (if c_rd C (c_tick C s) = 0 then c_wr C 2 (c_tick C s) else c_tick C s)"
  by (simp add: lll_cond_trylock_def cmpxchg_cases lll_init)

lemma wait_xchg_Suc:
  "lll_wait_xchg (Suc n) C op s =
     (if c_rd C (c_tick C s) = 0 then Ret () (c_wr C 2 (c_tick C s))
      else lll_wait_xchg n C op (wait_round C op s))"
  by (simp add: xchgl_eq wait_round_def)

lemma wait_xchg_Ret:
  assumes "free_at C op k s" and "\<forall>j<k. \<not> free_at C op j s" and "k < n"
  shows "lll_wait_xchg n C op s = Ret () (c_wr C 2 (c_tick C ((wait_round C op ^^ k) s)))"
  using assms
proof (induction k arbitrary: n s)
  case 0
  then obtain m where "n = Suc m" by (cases n) auto
  with 0 show ?case by (simp add: wait_xchg_Suc free_at_def del: lll_wait_xchg.simps)
next
  case (Suc k)
  from Suc.prems obtain m where m: "n = Suc m" "k < m" by (cases n) auto
  have busy: "c_rd C (c_tick C s) \<noteq> 0"
    using Suc.prems(2)[rule_format, of 0] by (simp add: free_at_def)
  have "lll_wait_xchg m C op (wait_round C op s) =
      Ret () (c_wr C 2 (c_tick C ((wait_round C op ^^ k) (wait_round C op s))))"
  proof (rule Suc.IH)
    show "free_at C op k (wait_round C op s)"
      using Suc.prems(1) by (simp add: free_at_def funpow_swap1)
    show "\<forall>j<k. \<not> free_at C op j (wait_round C op s)"
    proof (intro allI impI)
      fix j assume "j < k"
      then show "\<not> free_at C op j (wait_round C op s)"
        using Suc.prems(2)[rule_format, of "Suc j"] by (simp add: free_at_def funpow_swap1)
    qed
  qed (rule m(2))
  with busy m show ?case
    by (simp add: wait_xchg_Suc funpow_swap1 del: lll_wait_xchg.simps)
qed

lemma wait_xchg_Stuck:
  "\<forall>k<n. \<not> free_at C op k s \<Longrightarrow> lll_wait_xchg n C op s = Stuck"
proof (induction n arbitrary: s)
  case 0
  show ?case by simp
next
  case (Suc n)
  have "c_rd C (c_tick C s) \<noteq> 0" using Suc.prems[rule_format, of 0] by (simp add: free_at_def)
  moreover have "\<forall>k<n. \<not> free_at C op k (wait_round C op s)"
    using Suc.prems by (auto simp: free_at_def funpow_swap1 dest: spec [of _ "Suc _"])
  ultimately show ?case
    using Suc.IH by (simp add: wait_xchg_Suc del: lll_wait_xchg.simps)
qed

text \<open>The slow path returns exactly when the lock is found free within the rounds allowed;
  it then holds the lock with the value 2.\<close>

lemma wait_xchg_returns_iff:
  "(\<exists>t. lll_wait_xchg n C op s = Ret () t) \<longleftrightarrow> (\<exists>k<n. free_at C op k s)"
proof
  assume "\<exists>t. lll_wait_xchg n C op s = Ret () t"
  then show "\<exists>k<n. free_at C op k s" using wait_xchg_Stuck [of n op s] by fastforce
next
  assume "\<exists>k<n. free_at C op k s"
  then have k: "free_at C op (LEAST k. free_at C op k s) s" "(LEAST k. free_at C op k s) < n"
    by (auto intro: LeastI dest: Least_le [of "\<lambda>k. free_at C op k s"] order_le_less_trans)
  moreover have "\<forall>j<(LEAST k. free_at C op k s). \<not> free_at C op j s"
    by (blast dest: not_less_Least)
  ultimately show "\<exists>t. lll_wait_xchg n C op s = Ret () t"
    by (blast dest: wait_xchg_Ret)
qed

lemma wait_xchg_no_Abort: "lll_wait_xchg n C op s \<noteq> Abort"
  by (induction n arbitrary: s) (simp_all add: xchgl_eq)

text \<open>
  The frame rule of the lock: between two points of an operation on the word the state moves
  only by what the others do, by writes of the word and by recorded system calls. A property
  that all three keep is kept by the whole operation (\<open>moved_keeps\<close>).
\<close>

lemma wait_xchg_post:
  "lll_wait_xchg n C op s = Ret u t \<Longrightarrow>
     \<exists>s'. c_rd C (c_tick C s') = 0 \<and> t = c_wr C 2 (c_tick C s') \<and> moved C s s'"
proof (induction n arbitrary: s)
  case 0
  then show ?case by simp
next
  case (Suc n)
  show ?case
  proof (cases "c_rd C (c_tick C s) = 0")
    case True
    with Suc.prems have "t = c_wr C 2 (c_tick C s)"
      by (simp add: wait_xchg_Suc del: lll_wait_xchg.simps)
    with True show ?thesis by (blast intro: moved.stay)
  next
    case False
    with Suc.prems have "lll_wait_xchg n C op (wait_round C op s) = Ret u t"
      by (simp add: wait_xchg_Suc del: lll_wait_xchg.simps)
    then obtain s' where s': "c_rd C (c_tick C s') = 0" "t = c_wr C 2 (c_tick C s')"
      and m: "moved C (wait_round C op s) s'" using Suc.IH by blast
    have "moved C s s'"
      by (rule moved.tick, rule moved.wr [of 2], simp, rule moved.sys)
        (use m in \<open>simp add: wait_round_def\<close>)
    with s' show ?thesis by blast
  qed
qed

lemma lock_wait_post:
  assumes "lll_lock_wait n C op e s = Ret u t"
  shows "\<exists>s'. c_rd C (c_tick C s') = 0 \<and> t = c_wr C 2 (c_tick C s') \<and> moved C s s'"
proof (cases "e = 2")
  case True
  with assms have "lll_wait_xchg n C op (c_sys C (FCall op 2) s) = Ret u t"
    by (simp add: lll_lock_wait_def)
  from wait_xchg_post [OF this] show ?thesis by (blast intro: moved.sys)
next
  case False
  with assms have "lll_wait_xchg n C op s = Ret u t" by (simp add: lll_lock_wait_def)
  from wait_xchg_post [OF this] show ?thesis .
qed

text \<open>A lock operation that returns has found the word free and holds it: with the value 1
  on the fast path, 2 on the slow path.\<close>

lemma lock_post:
  assumes "lll_lock n C const p s = Ret u t"
  shows "\<exists>s' v. c_rd C (c_tick C s') = 0 \<and> t = c_wr C v (c_tick C s') \<and> (v = 1 \<or> v = 2)
     \<and> moved C s s'"
proof (cases "c_rd C (c_tick C s) = 0")
  case True
  with assms have "t = c_wr C 1 (c_tick C s)" by (simp add: lll_lock_def cmpxchg_cases)
  with True show ?thesis by (blast intro: moved.stay)
next
  case False
  with assms obtain op e where "lll_lock_wait n C op e (c_tick C s) = Ret u t"
    by (simp add: lll_lock_def cmpxchg_cases split: if_splits)
  from lock_wait_post [OF this] show ?thesis by (blast intro: moved.tick)
qed

lemma cond_lock_post:
  assumes "lll_cond_lock n C p s = Ret u t"
  shows "\<exists>s'. c_rd C (c_tick C s') = 0 \<and> t = c_wr C 2 (c_tick C s') \<and> moved C s s'"
proof (cases "c_rd C (c_tick C s) = 0")
  case True
  with assms have "t = c_wr C 2 (c_tick C s)" by (simp add: lll_cond_lock_def cmpxchg_cases)
  with True show ?thesis by (blast intro: moved.stay)
next
  case False
  with assms have "lll_lock_wait n C (LOAD_FUTEX_WAIT p) (c_rd C (c_tick C s)) (c_tick C s) = Ret u t"
    by (simp add: lll_cond_lock_def cmpxchg_cases)
  from lock_wait_post [OF this] show ?thesis by (blast intro: moved.tick)
qed

lemma lock_no_Abort: "lll_lock n C const p s \<noteq> Abort"
  by (auto simp: lll_lock_def cmpxchg_cases lll_lock_wait_def wait_xchg_no_Abort)

lemma cond_lock_no_Abort: "lll_cond_lock n C p s \<noteq> Abort"
  by (auto simp: lll_cond_lock_def cmpxchg_cases lll_lock_wait_def wait_xchg_no_Abort)

text \<open>The uncontended paths: no system call is made.\<close>

lemma lock_free:
  "c_rd C (c_tick C s) = 0 \<Longrightarrow> lll_lock n C const p s = Ret () (c_wr C 1 (c_tick C s))"
  by (simp add: lll_lock_def cmpxchg_cases)

lemma cond_lock_free:
  "c_rd C (c_tick C s) = 0 \<Longrightarrow> lll_cond_lock n C p s = Ret () (c_wr C 2 (c_tick C s))"
  by (simp add: lll_cond_lock_def cmpxchg_cases)

lemma unlock_uncontended:
  "c_rd C (c_tick C s) = 1 \<Longrightarrow> lll_unlock C const p s = c_wr C 0 (c_tick C s)"
  by (simp add: lll_unlock_def decl_def Let_def)

lemma unlock_frees: "c_rd C (lll_unlock C const p s) = 0"
  by (auto simp: lll_unlock_def decl_def Let_def lll_unlock_wake_def storel_def split: prod.splits)

lemma robust_unlock_frees: "c_rd C (lll_robust_unlock C p s) = 0"
  by (auto simp: lll_robust_unlock_def andl_def Let_def lll_unlock_wake_def storel_def)

end

text \<open>A word that nobody else touches.\<close>

locale quiet_cell = futex_cell +
  assumes rd_tick [simp]: "c_rd C (c_tick C s) = c_rd C s"
    and tick_wr: "c_tick C (c_wr C v s) = c_wr C v (c_tick C s)"
begin

text \<open>Locking a word that is held, with nobody to release it, does not return: a thread that
  locks twice blocks itself.\<close>

lemma quiet_wait_stuck: "c_rd C s \<noteq> 0 \<Longrightarrow> lll_wait_xchg n C op s = Stuck"
  by (induction n arbitrary: s) (simp_all add: xchgl_eq)

lemma quiet_lock_stuck: "c_rd C s \<noteq> 0 \<Longrightarrow> lll_lock n C const p s = Stuck"
  by (simp add: lll_lock_def cmpxchg_cases lll_lock_wait_def quiet_wait_stuck)

lemma quiet_cond_lock_stuck: "c_rd C s \<noteq> 0 \<Longrightarrow> lll_cond_lock n C p s = Stuck"
  by (simp add: lll_cond_lock_def cmpxchg_cases lll_lock_wait_def quiet_wait_stuck)

lemma quiet_lock_unlock:
  assumes "c_rd C s = 0"
  shows "\<exists>t. lll_lock n C const p s = Ret () t \<and> c_rd C t = 1
     \<and> lll_unlock C const' p' t = c_wr C 0 (c_tick C (c_tick C s))"
  using assms by (simp add: lock_free unlock_uncontended tick_wr)

end

end
