(* ===== verification/LockProtocol.thy ===== *)
theory LockProtocol
  imports LowLevelLock
begin

text \<open>
  The low-level lock as a protocol between any number of threads. Each thread is at one of the
  instructions of \<open>lll_lock\<close>, \<open>lll_cond_lock\<close>, \<open>lll_trylock\<close> and \<open>lll_unlock\<close>
  (source/lowlevellock.h) and of their slow paths (source/lowlevellock.S) that touch the word
  or enter the kernel; a step is one such instruction of one thread. The kernel lets a thread
  sleep in \<open>FUTEX_WAIT\<close> only while the word has the value it passed, may wake it for no reason,
  and \<open>FUTEX_WAKE\<close> wakes some sleeper if there is one.

  Shown: mutual exclusion, the values of the word, and that no wake-up is lost: whenever a
  thread sleeps, the word is 2 (so the release will enter the kernel) or some thread is
  already on its way to wake or to retake the lock.
\<close>

section \<open>States and steps\<close>

datatype lpc =
    Out        \<comment> \<open>outside the lock\<close>
  | WaitCall   \<comment> \<open>label 1 of \<open>__lll_lock_wait\<close>: about to call \<open>FUTEX_WAIT\<close> with the value 2\<close>
  | Asleep     \<comment> \<open>in the kernel's queue of the word\<close>
  | Xchg       \<comment> \<open>label 2 of \<open>__lll_lock_wait\<close>: about to exchange 2 into the word\<close>
  | Crit       \<comment> \<open>has the lock\<close>
  | Store0     \<comment> \<open>\<open>__lll_unlock_wake\<close>: about to store 0\<close>
  | WakeCall   \<comment> \<open>about to call \<open>FUTEX_WAKE\<close> for one thread\<close>

record lsys =
  word_at :: i32
  pc_of :: "nat \<Rightarrow> lpc"

definition word_cell :: "lsys cell" where
  "word_cell = \<lparr>c_rd = word_at, c_wr = (\<lambda>v s. s\<lparr>word_at := v\<rparr>), c_tick = (\<lambda>s. s),
     c_sys = (\<lambda>f s. s)\<rparr>"

interpretation wc: quiet_cell word_cell
  by unfold_locales (simp_all add: word_cell_def)

abbreviation goto :: "nat \<Rightarrow> lpc \<Rightarrow> lsys \<Rightarrow> lsys" where
  "goto i p s \<equiv> s\<lparr>pc_of := (pc_of s)(i := p)\<rparr>"

definition lsys_init :: lsys where
  "lsys_init = \<lparr>word_at = LLL_LOCK_INITIALIZER, pc_of = (\<lambda>_. Out)\<rparr>"

text \<open>Where \<open>__lll_lock_wait\<close> starts with the value left in \<open>%eax\<close> by a failed exchange.\<close>

definition wait_entry :: "i32 \<Rightarrow> lpc" where
  "wait_entry eax = (if eax = 2 then WaitCall else Xchg)"

text \<open>A thread enters with the value it puts into a free word: 1 for \<open>lll_lock\<close>, 2 for
  \<open>lll_cond_lock\<close>.\<close>

inductive lstep :: "lsys \<Rightarrow> lsys \<Rightarrow> bool" where
  lock_enter: "pc_of s i = Out \<Longrightarrow> new \<in> {1, 2} \<Longrightarrow> cmpxchg word_cell new 0 s = (eax, t) \<Longrightarrow>
     lstep s (goto i (if eax = 0 then Crit else wait_entry eax) t)"
| try_enter: "pc_of s i = Out \<Longrightarrow> lll_trylock word_cell s = (eax, t) \<Longrightarrow>
     lstep s (goto i (if eax = 0 then Crit else Out) t)"
| wait_sleep: "pc_of s i = WaitCall \<Longrightarrow> word_at s = 2 \<Longrightarrow> lstep s (goto i Asleep s)"
| wait_again: "pc_of s i = WaitCall \<Longrightarrow> word_at s \<noteq> 2 \<Longrightarrow> lstep s (goto i Xchg s)"
| wait_spurious: "pc_of s i = Asleep \<Longrightarrow> lstep s (goto i Xchg s)"
| wait_xchg: "pc_of s i = Xchg \<Longrightarrow> xchgl word_cell 2 s = (eax, t) \<Longrightarrow>
     lstep s (goto i (if eax = 0 then Crit else WaitCall) t)"
| unlock_dec: "pc_of s i = Crit \<Longrightarrow> decl word_cell s = (v, t) \<Longrightarrow>
     lstep s (goto i (if v = 0 then Out else Store0) t)"
| unlock_store: "pc_of s i = Store0 \<Longrightarrow> lstep s (goto i WakeCall (storel word_cell 0 s))"
| wake_one: "pc_of s i = WakeCall \<Longrightarrow> pc_of s j = Asleep \<Longrightarrow>
     lstep s (goto j Xchg (goto i Out s))"
| wake_none: "pc_of s i = WakeCall \<Longrightarrow> \<forall>j. pc_of s j \<noteq> Asleep \<Longrightarrow> lstep s (goto i Out s)"

inductive lreach :: "lsys \<Rightarrow> bool" where
  start: "lreach lsys_init"
| step: "lreach s \<Longrightarrow> lstep s t \<Longrightarrow> lreach t"

inductive_cases lstepE: "lstep s t"

section \<open>Invariants\<close>

definition holding :: "lpc \<Rightarrow> bool" where
  "holding p \<longleftrightarrow> p = Crit \<or> p = Store0"

lemma holding_simps [simp]:
  "holding Crit" "holding Store0" "\<not> holding Out" "\<not> holding WaitCall" "\<not> holding Asleep"
  "\<not> holding Xchg" "\<not> holding WakeCall"
  by (simp_all add: holding_def)

lemma wait_entry_not_holding [simp]: "\<not> holding (wait_entry e)"
  by (simp add: wait_entry_def)

definition excl_inv :: "lsys \<Rightarrow> bool" where
  "excl_inv s \<longleftrightarrow> word_at s \<in> {0, 1, 2} \<and>
     (\<forall>i. holding (pc_of s i) \<longrightarrow> word_at s \<noteq> 0 \<and> (\<forall>j. holding (pc_of s j) \<longrightarrow> j = i)) \<and>
     (word_at s \<noteq> 0 \<longrightarrow> (\<exists>i. holding (pc_of s i)))"

definition wake_inv :: "lsys \<Rightarrow> bool" where
  "wake_inv s \<longleftrightarrow> (\<exists>i. pc_of s i = Asleep) \<longrightarrow>
     word_at s = 2 \<or> (\<exists>i. pc_of s i \<in> {Store0, WakeCall, Xchg})"

lemmas lstep_defs = cmpxchg_def lll_trylock_def xchgl_def decl_def storel_def word_cell_def
  Let_def lll_init

lemma excl_inv_init: "excl_inv lsys_init"
  by (simp add: excl_inv_def lsys_init_def lll_init)

lemma wake_inv_init: "wake_inv lsys_init"
  by (simp add: wake_inv_def lsys_init_def)

text \<open>
  The four ways a step can touch word and holders: a thread that does not hold the lock moves
  on without getting it; it gets the free lock; the holder stays holder; the holder leaves.
\<close>

lemma excl_move:
  "excl_inv s \<Longrightarrow> \<not> holding (pc_of s i) \<Longrightarrow> \<not> holding p \<Longrightarrow> w \<in> {0, 1, 2} \<Longrightarrow>
   w = 0 \<longleftrightarrow> word_at s = 0 \<Longrightarrow> excl_inv (s\<lparr>word_at := w, pc_of := (pc_of s)(i := p)\<rparr>)"
  by (simp add: excl_inv_def) metis

lemma excl_get:
  "excl_inv s \<Longrightarrow> word_at s = 0 \<Longrightarrow> w = 1 \<or> w = 2 \<Longrightarrow>
   excl_inv (s\<lparr>word_at := w, pc_of := (pc_of s)(i := Crit)\<rparr>)"
  by (auto simp: excl_inv_def)

lemma excl_hold:
  "excl_inv s \<Longrightarrow> holding (pc_of s i) \<Longrightarrow> holding p \<Longrightarrow> w = 1 \<or> w = 2 \<Longrightarrow>
   excl_inv (s\<lparr>word_at := w, pc_of := (pc_of s)(i := p)\<rparr>)"
  by (auto simp: excl_inv_def)

lemma excl_leave:
  "excl_inv s \<Longrightarrow> holding (pc_of s i) \<Longrightarrow> \<not> holding p \<Longrightarrow>
   excl_inv (s\<lparr>word_at := 0, pc_of := (pc_of s)(i := p)\<rparr>)"
  by (simp add: excl_inv_def) metis

lemma excl_wake:
  "excl_inv s \<Longrightarrow> \<not> holding (pc_of s i) \<Longrightarrow> \<not> holding p \<Longrightarrow> excl_inv (goto i p s)"
  using excl_move [of s i p "word_at s"] by (simp add: excl_inv_def)

lemma word_cases: "excl_inv s \<Longrightarrow> word_at s = 0 \<or> word_at s = 1 \<or> word_at s = 2"
  by (simp add: excl_inv_def)

lemma excl_inv_step:
  assumes "lstep s t" and inv: "excl_inv s"
  shows "excl_inv t"
  using assms(1)
proof (cases rule: lstep.cases)
  case (lock_enter i new eax t')
  show ?thesis
  proof (cases "word_at s = 0")
    case True
    with lock_enter inv show ?thesis by (auto simp: lstep_defs excl_get)
  next
    case False
    with lock_enter inv show ?thesis
      by (auto simp: lstep_defs intro: excl_wake split: prod.splits)
  qed
next
  case (try_enter i eax t')
  show ?thesis
  proof (cases "word_at s = 0")
    case True
    with try_enter inv show ?thesis by (auto simp: lstep_defs excl_get)
  next
    case False
    with try_enter inv show ?thesis by (auto simp: lstep_defs intro: excl_wake)
  qed
next
  case (wait_xchg i eax t')
  show ?thesis
  proof (cases "word_at s = 0")
    case True
    with wait_xchg inv show ?thesis by (auto simp: lstep_defs excl_get)
  next
    case False
    with wait_xchg inv show ?thesis by (auto simp: lstep_defs excl_move)
  qed
next
  case (unlock_dec i v t')
  have "holding (pc_of s i)" using unlock_dec by simp
  then have "word_at s = 1 \<or> word_at s = 2"
    using inv word_cases [OF inv] unfolding excl_inv_def by blast
  with unlock_dec inv show ?thesis
    by (auto simp: lstep_defs excl_leave excl_hold)
next
  case (unlock_store i)
  with inv show ?thesis by (auto simp: lstep_defs excl_leave)
next
  case (wake_one i j)
  from wake_one inv have "excl_inv (goto i Out s)" by (simp add: excl_wake)
  moreover from wake_one have "j \<noteq> i" by auto
  ultimately show ?thesis using wake_one excl_wake [of "goto i Out s" j Xchg] by simp
qed (use inv in \<open>auto intro: excl_wake\<close>)

text \<open>
  For the sleepers: what a step must not do is take away the last reason for a wake-up to be
  still under way.
\<close>

lemma wake_two: "wake_inv (s\<lparr>word_at := 2\<rparr>)"
  by (simp add: wake_inv_def)

lemma wake_coming: "p \<in> {Store0, WakeCall, Xchg} \<Longrightarrow> wake_inv (goto i p s)"
  unfolding wake_inv_def by auto

lemma wake_keep:
  "wake_inv s \<Longrightarrow> pc_of s i \<notin> {Store0, WakeCall, Xchg} \<Longrightarrow> p \<noteq> Asleep \<Longrightarrow>
   w = word_at s \<or> word_at s \<noteq> 2 \<or> w = 2 \<Longrightarrow> wake_inv (s\<lparr>word_at := w, pc_of := (pc_of s)(i := p)\<rparr>)"
  unfolding wake_inv_def by (simp, metis)

lemma wake_keep_pc:
  "wake_inv s \<Longrightarrow> pc_of s i \<notin> {Store0, WakeCall, Xchg} \<Longrightarrow> p \<noteq> Asleep \<Longrightarrow> wake_inv (goto i p s)"
  using wake_keep [of s i p "word_at s"] by (simp add: wake_inv_def)

lemma wake_inv_step:
  assumes "lstep s t" and ex: "excl_inv s" and inv: "wake_inv s"
  shows "wake_inv t"
  using assms(1)
proof (cases rule: lstep.cases)
  case (lock_enter i new eax t')
  show ?thesis
  proof (cases "word_at s = 0")
    case True
    with lock_enter inv show ?thesis by (auto simp: lstep_defs wake_keep)
  next
    case False
    with lock_enter inv show ?thesis
      by (auto simp: lstep_defs wait_entry_def wake_keep_pc wake_coming)
  qed
next
  case (try_enter i eax t')
  show ?thesis
  proof (cases "word_at s = 0")
    case True
    with try_enter inv show ?thesis by (auto simp: lstep_defs wake_keep)
  next
    case False
    with try_enter inv show ?thesis by (auto simp: lstep_defs wake_keep_pc)
  qed
next
  case (wait_sleep i)
  then show ?thesis by (simp add: wake_inv_def)
next
  case (wait_xchg i eax t')
  then have "word_at t = 2" by (auto simp: lstep_defs)
  then show ?thesis by (simp add: wake_inv_def)
next
  case (unlock_dec i v t')
  show ?thesis
  proof (cases "v = 0")
    case True
    with unlock_dec have "word_at s = 1" by (simp add: lstep_defs)
    with True unlock_dec inv show ?thesis
      using wake_keep [of s i Out 0] by (auto simp: lstep_defs)
  next
    case False
    with unlock_dec show ?thesis by (simp add: wake_coming)
  qed
next
  case (wake_none i)
  then show ?thesis by (simp add: wake_inv_def)
next
  case (wait_again i)
  then show ?thesis by (simp add: wake_coming)
next
  case (wait_spurious i)
  then show ?thesis by (simp add: wake_coming)
next
  case (unlock_store i)
  then show ?thesis by (simp add: wake_coming)
next
  case (wake_one i j)
  then show ?thesis using wake_coming [of Xchg "goto i Out s" j] by simp
qed

lemma lreach_inv: "lreach s \<Longrightarrow> excl_inv s \<and> wake_inv s"
proof (induction rule: lreach.induct)
  case start
  show ?case by (simp add: excl_inv_init wake_inv_init)
next
  case (step s t)
  then show ?case by (blast intro: excl_inv_step wake_inv_step)
qed

section \<open>Properties\<close>

text \<open>
  C3 (mutual exclusion). In every reachable state of the lock protocol at most one thread is
  between acquiring the word (\<open>lll_lock\<close>, \<open>lll_cond_lock\<close> or \<open>lll_trylock\<close>) and the store
  that frees it, and while there is one the word is 1 or 2, so every attempt of another thread
  to take it fails.
\<close>

theorem lll_mutual_exclusion:
  assumes "lreach s" and "holding (pc_of s i)" and "holding (pc_of s j)"
  shows "i = j \<and> word_at s \<in> {1, 2} \<and> fst (lll_trylock word_cell s) \<noteq> 0"
proof -
  have inv: "excl_inv s" using lreach_inv [OF assms(1)] by simp
  with assms(2) have "word_at s \<noteq> 0" unfolding excl_inv_def by blast
  moreover have "i = j" using inv assms(2,3) unfolding excl_inv_def by blast
  ultimately show ?thesis
    using word_cases [OF inv] by (simp add: wc.trylock_zero_iff) (simp add: word_cell_def)
qed

text \<open>A run in which thread 1 sleeps while thread 0 holds the lock.\<close>

definition demo_sleep :: lsys where
  "demo_sleep = \<lparr>word_at = 2, pc_of = (\<lambda>_. Out)(0 := Crit, 1 := Asleep)\<rparr>"

lemma lreach_demo_sleep: "lreach demo_sleep"
proof -
  let ?s1 = "\<lparr>word_at = 1, pc_of = (\<lambda>_. Out)(0 := Crit)\<rparr>"
  let ?s2 = "\<lparr>word_at = 1, pc_of = (\<lambda>_. Out)(0 := Crit, 1 := Xchg)\<rparr>"
  let ?s3 = "\<lparr>word_at = 2, pc_of = (\<lambda>_. Out)(0 := Crit, 1 := WaitCall)\<rparr>"
  have 1: "lstep lsys_init ?s1"
    using lock_enter [of lsys_init 0 1 0 "lsys_init\<lparr>word_at := 1\<rparr>"]
    by (simp add: lsys_init_def lstep_defs)
  have 2: "lstep ?s1 ?s2"
    using lock_enter [of ?s1 1 1 1 ?s1] by (simp add: lstep_defs wait_entry_def)
  have 3: "lstep ?s2 ?s3"
    using wait_xchg [of ?s2 1 1 "?s2\<lparr>word_at := 2\<rparr>"] by (simp add: lstep_defs)
  have 4: "lstep ?s3 demo_sleep"
    using wait_sleep [of ?s3 1] by (simp add: demo_sleep_def)
  show ?thesis using lreach.start 1 2 3 4 by (blast intro: lreach.step)
qed

theorem lll_mutual_exclusion_witness:
  "holding (pc_of demo_sleep 0) \<and> word_at demo_sleep \<in> {1, 2}
     \<and> fst (lll_trylock word_cell demo_sleep) \<noteq> 0"
proof -
  have h: "holding (pc_of demo_sleep 0)" by (simp add: demo_sleep_def)
  show ?thesis using lll_mutual_exclusion [OF lreach_demo_sleep h h] h by blast
qed

text \<open>
  C4 (no lost wake-up). In every reachable state of the lock protocol, if a thread sleeps in
  \<open>FUTEX_WAIT\<close>, then either the word is 2 and some thread holds the lock, whose release will
  therefore enter the kernel to wake a sleeper, or some thread is already storing 0, calling
  \<open>FUTEX_WAKE\<close>, or about to retake the lock with the value 2. So the sleepers are never left
  without an awake thread that will wake them.
\<close>

theorem lll_no_lost_wakeup:
  assumes "lreach s" and "pc_of s i = Asleep"
  shows "(word_at s = 2 \<and> (\<exists>j. holding (pc_of s j))) \<or> (\<exists>j. pc_of s j \<in> {Store0, WakeCall, Xchg})"
proof -
  have ex: "excl_inv s" and wk: "wake_inv s" using lreach_inv [OF assms(1)] by simp_all
  from wk assms(2) have "word_at s = 2 \<or> (\<exists>j. pc_of s j \<in> {Store0, WakeCall, Xchg})"
    unfolding wake_inv_def by blast
  moreover have "word_at s = 2 \<Longrightarrow> \<exists>j. holding (pc_of s j)"
    using ex by (simp add: excl_inv_def)
  ultimately show ?thesis by blast
qed

theorem lll_no_lost_wakeup_witness:
  "pc_of demo_sleep 1 = Asleep \<and>
   ((word_at demo_sleep = 2 \<and> (\<exists>j. holding (pc_of demo_sleep j)))
     \<or> (\<exists>j. pc_of demo_sleep j \<in> {Store0, WakeCall, Xchg}))"
proof -
  have h: "pc_of demo_sleep 1 = Asleep" by (simp add: demo_sleep_def)
  show ?thesis using lll_no_lost_wakeup [OF lreach_demo_sleep h] h by blast
qed

end
