(* ===== verification/DList.thy ===== *)
theory DList
  imports Prelude
begin

text \<open>
  Doubly linked rings over a successor and a predecessor function, shared by the kernel-style
  lists of \<open>source/list.h\<close> and the robust mutex lists of \<open>source/descr.h\<close>: a path from one
  node to another, a ring through a head, and what changing single links does to them.
\<close>

primrec dpath :: "('a \<Rightarrow> 'a) \<Rightarrow> ('a \<Rightarrow> 'a) \<Rightarrow> 'a \<Rightarrow> 'a list \<Rightarrow> 'a \<Rightarrow> bool" where
  "dpath n p a [] b \<longleftrightarrow> n a = b \<and> p b = a"
| "dpath n p a (x # xs) b \<longleftrightarrow> n a = x \<and> p x = a \<and> dpath n p x xs b"

definition ring :: "('a \<Rightarrow> 'a) \<Rightarrow> ('a \<Rightarrow> 'a) \<Rightarrow> 'a \<Rightarrow> 'a list \<Rightarrow> bool" where
  "ring n p h xs \<longleftrightarrow> distinct (h # xs) \<and> dpath n p h xs h"

lemma dpath_append:
  "dpath n p a (xs @ m # ys) b \<longleftrightarrow> dpath n p a xs m \<and> dpath n p m ys b"
  by (induction xs arbitrary: a) auto

lemma dpath_cong:
  assumes "dpath n p a xs b"
    and "\<And>x. x \<in> insert a (set xs) \<Longrightarrow> n' x = n x"
    and "\<And>x. x \<in> insert b (set xs) \<Longrightarrow> p' x = p x"
  shows "dpath n' p' a xs b"
  using assms by (induction xs arbitrary: a) auto

lemma dpath_last: "dpath n p a xs b \<Longrightarrow> n (last (a # xs)) = b \<and> p b = last (a # xs)"
  by (induction xs arbitrary: a) auto

lemma dpath_first: "dpath n p a xs b \<Longrightarrow> n a = hd (xs @ [b]) \<and> p (hd (xs @ [b])) = a"
  by (cases xs) auto

text \<open>Redirecting the last link of a path.\<close>

lemma dpath_redirect:
  assumes "dpath n p a xs b" and "distinct (a # xs)" and "c \<notin> set xs"
  shows "dpath (n(last (a # xs) := c)) (p(c := last (a # xs))) a xs c"
  using assms
proof (induction xs arbitrary: a)
  case Nil
  then show ?case by simp
next
  case (Cons x xs)
  then have "last (x # xs) \<noteq> a" by (metis distinct.simps(2) last_in_set list.distinct(1))
  with Cons show ?case by auto
qed

lemma dpath_remove:
  assumes "dpath n p a (xs @ m # ys) b" and "distinct (a # xs @ m # ys)"
    and "b \<notin> set (xs @ m # ys)"
  shows "dpath (n(p m := n m)) (p(n m := p m)) a (xs @ ys) b"
proof -
  from assms(1) have left: "dpath n p a xs m" and right: "dpath n p m ys b"
    by (simp_all add: dpath_append)
  let ?l = "last (a # xs)" and ?f = "hd (ys @ [b])"
  have l: "p m = ?l" using dpath_last [OF left] by simp
  have f: "n m = ?f" using dpath_first [OF right] by simp
  have l_in: "?l \<in> insert a (set xs)" using last_in_set [of "a # xs"] by simp
  have "?f \<notin> set xs" using assms(2,3) by (cases ys) auto
  with left assms(2) have new: "dpath (n(?l := ?f)) (p(?f := ?l)) a xs ?f"
    by (intro dpath_redirect) auto
  show ?thesis
  proof (cases ys)
    case Nil
    with new l f show ?thesis by simp
  next
    case (Cons y zs)
    have "dpath (n(?l := ?f)) (p(?f := ?l)) y zs b"
    proof (rule dpath_cong)
      show "dpath n p y zs b" using right Cons by simp
      fix x
      show "x \<in> insert y (set zs) \<Longrightarrow> (n(?l := ?f)) x = n x"
        using l_in assms(2) Cons by auto
      show "x \<in> insert b (set zs) \<Longrightarrow> (p(?f := ?l)) x = p x"
        using assms(2,3) Cons by auto
    qed
    with new l f Cons show ?thesis by (simp add: dpath_append)
  qed
qed

lemma dpath_insert:
  assumes "dpath n p a xs b" and "m \<notin> set (a # b # xs)" and "distinct (a # xs)" and "b \<notin> set xs"
  shows "dpath (n(m := n a, a := m)) (p(m := a, n a := m)) a (m # xs) b"
proof -
  have f: "n a = hd (xs @ [b])" using dpath_first [OF assms(1)] by simp
  show ?thesis
  proof (cases xs)
    case Nil
    with assms show ?thesis by auto
  next
    case (Cons y zs)
    have "dpath (n(m := n a, a := m)) (p(m := a, n a := m)) y zs b"
    proof (rule dpath_cong)
      show "dpath n p y zs b" using assms(1) Cons by simp
      fix x
      show "x \<in> insert y (set zs) \<Longrightarrow> (n(m := n a, a := m)) x = n x"
        using assms Cons by auto
      show "x \<in> insert b (set zs) \<Longrightarrow> (p(m := a, n a := m)) x = p x"
        using assms Cons f by auto
    qed
    with assms Cons f show ?thesis by auto
  qed
qed

section \<open>Rings\<close>

lemma ring_empty: "n h = h \<Longrightarrow> p h = h \<Longrightarrow> ring n p h []"
  by (simp add: ring_def)

lemma ring_insert:
  assumes "ring n p h xs" and "m \<notin> set (h # xs)"
  shows "ring (n(m := n h, h := m)) (p(m := h, n h := m)) h (m # xs)"
  using assms dpath_insert [of n p h xs h m] by (auto simp: ring_def)

lemma ring_remove:
  assumes "ring n p h (xs @ m # ys)"
  shows "ring (n(p m := n m)) (p(n m := p m)) h (xs @ ys)"
  using assms dpath_remove [of n p h xs m ys h] by (auto simp: ring_def)

lemma ring_cong:
  assumes "ring n p h xs" and "\<And>x. x \<in> set (h # xs) \<Longrightarrow> n' x = n x \<and> p' x = p x"
  shows "ring n' p' h xs"
  using assms dpath_cong [of n p h xs h n' p'] by (auto simp: ring_def)

lemma ring_splice:
  assumes "ring n p h xs" and "ring n p a ys" and "ys \<noteq> []"
    and "set (h # xs) \<inter> set (a # ys) = {}"
  shows "ring (n(p a := n h, h := n a)) (p(n a := h, n h := p a)) h (ys @ xs)"
proof -
  let ?n = "n(p a := n h, h := n a)" and ?p = "p(n a := h, n h := p a)"
  obtain y zs where ys: "ys = y # zs" using assms(3) by (cases ys) auto
  have pxs: "dpath n p h xs h" and pys: "dpath n p a ys a"
    using assms(1,2) by (simp_all add: ring_def)
  have f: "n h = hd (xs @ [h])" using dpath_first [OF pxs] by simp
  have pa: "p a = last ys" using dpath_last [OF pys] ys by simp
  have na: "n a = y" and pzs: "dpath n p y zs a" using pys ys by simp_all
  have dis: "distinct (h # xs)" "distinct (a # ys)" using assms(1,2) by (simp_all add: ring_def)
  have fset: "hd (xs @ [h]) \<in> set (h # xs)" by (cases xs) auto
  have lset: "last ys \<in> set ys" using assms(3) by simp
  have "dpath (n(last (y # zs) := n h)) (p(n h := last (y # zs))) y zs (n h)"
    using pzs dis ys assms(4) f fset by (intro dpath_redirect) auto
  then have left: "dpath ?n ?p y zs (n h)"
    by (rule dpath_cong) (use pa ys na f fset lset dis assms(4) in auto)
  show ?thesis
  proof (cases xs)
    case Nil
    with left ys na f dis assms(4) show ?thesis by (auto simp: ring_def)
  next
    case (Cons x ws)
    have "dpath n p x ws h" using pxs Cons by simp
    then have "dpath ?n ?p x ws h"
      by (rule dpath_cong) (use pa ys na f fset lset dis assms(4) Cons in auto)
    with left ys na f dis assms(4) Cons show ?thesis
      by (auto simp: ring_def dpath_append)
  qed
qed

section \<open>The contract of a linked ring\<close>

text \<open>
  What a linked list on the heap promises to the code that keeps things on it: the heap
  represents a list of distinct nodes; inserting puts a node at the front, removing takes it
  out and leaves the others in order. \<open>fit\<close> are the addresses the operations are made for.
\<close>

locale linked_ring =
  fixes rep :: "'h \<Rightarrow> 'a \<Rightarrow> 'a list \<Rightarrow> bool"
    and ins :: "'a \<Rightarrow> 'a \<Rightarrow> 'h \<Rightarrow> 'h"
    and rmv :: "'a \<Rightarrow> 'h \<Rightarrow> 'h"
    and fit :: "'a \<Rightarrow> bool"
  assumes rep_distinct: "rep h l xs \<Longrightarrow> distinct (l # xs)"
    and rep_ins: "rep h l xs \<Longrightarrow> m \<notin> set (l # xs) \<Longrightarrow> fit m \<Longrightarrow> rep (ins m l h) l (m # xs)"
    and rep_rmv: "rep h l (xs @ m # ys) \<Longrightarrow> rep (rmv m h) l (xs @ ys)"
begin

lemma ins_rmv: "rep h l xs \<Longrightarrow> m \<notin> set (l # xs) \<Longrightarrow> fit m \<Longrightarrow> rep (rmv m (ins m l h)) l xs"
  using rep_ins [of h l xs m] rep_rmv [of "ins m l h" l "[]" m xs] by simp

lemma rmv_remove1:
  assumes "rep h l xs" and "m \<in> set xs"
  shows "rep (rmv m h) l (remove1 m xs)"
proof -
  obtain ys zs where xs: "xs = ys @ m # zs" using assms(2) by (meson split_list)
  then have "m \<notin> set ys" using rep_distinct [OF assms(1)] by simp
  then show ?thesis using rep_rmv [of h l ys m zs] assms(1) xs by (simp add: remove1_append)
qed

lemma fold_ins:
  "rep h l xs \<Longrightarrow> distinct ms \<Longrightarrow> set ms \<inter> set (l # xs) = {} \<Longrightarrow> \<forall>m\<in>set ms. fit m \<Longrightarrow>
   rep (fold (\<lambda>m. ins m l) ms h) l (rev ms @ xs)"
proof (induction ms arbitrary: h xs)
  case Nil
  then show ?case by simp
next
  case (Cons m ms)
  then have "rep (ins m l h) l (m # xs)" by (intro rep_ins) auto
  with Cons.prems show ?case using Cons.IH [of "ins m l h" "m # xs"] by auto
qed

lemma fold_rmv:
  "rep h l (ms @ xs) \<Longrightarrow> rep (fold rmv ms h) l xs"
proof (induction ms arbitrary: h)
  case Nil
  then show ?case by simp
next
  case (Cons m ms)
  then have "rep (rmv m h) l (ms @ xs)" using rep_rmv [of h l "[]" m "ms @ xs"] by simp
  then show ?case using Cons.IH by simp
qed

end

end
