(* ===== verification/KList.thy ===== *)
theory KList
  imports DList
begin

text \<open>
  The kernel-style circular lists of \<open>source/list.h\<close>. A \<open>list_t\<close> is an address; the heap
  gives each address its two links. Every operation is translated store by store, in the order
  of the source. Shown: the heap represents a list of distinct nodes (\<open>klist\<close>), and adding,
  deleting, splicing and the iteration macros do to that list what their comments say.
\<close>

record 'a list_heap =
  next_of :: "'a \<Rightarrow> 'a"
  prev_of :: "'a \<Rightarrow> 'a"

definition set_next :: "'a \<Rightarrow> 'a \<Rightarrow> 'a list_heap \<Rightarrow> 'a list_heap" where
  "set_next x v h = h\<lparr>next_of := (next_of h)(x := v)\<rparr>"

definition set_prev :: "'a \<Rightarrow> 'a \<Rightarrow> 'a list_heap \<Rightarrow> 'a list_heap" where
  "set_prev x v h = h\<lparr>prev_of := (prev_of h)(x := v)\<rparr>"

lemmas link_defs = set_next_def set_prev_def

section \<open>Operations\<close>

definition INIT_LIST_HEAD :: "'a \<Rightarrow> 'a list_heap \<Rightarrow> 'a list_heap" where
  "INIT_LIST_HEAD ptr h = set_next ptr ptr (set_prev ptr ptr h)"

definition list_add :: "'a \<Rightarrow> 'a \<Rightarrow> 'a list_heap \<Rightarrow> 'a list_heap" where
  "list_add newp head h =
     (let h = set_next newp (next_of h head) h;
          h = set_prev newp head h;
          h = set_prev (next_of h head) newp h
      in set_next head newp h)"

definition list_del :: "'a \<Rightarrow> 'a list_heap \<Rightarrow> 'a list_heap" where
  "list_del elem h =
     (let h = set_prev (next_of h elem) (prev_of h elem) h
      in set_next (prev_of h elem) (next_of h elem) h)"

definition list_splice :: "'a \<Rightarrow> 'a \<Rightarrow> 'a list_heap \<Rightarrow> 'a list_heap" where
  "list_splice add head h =
     (if add \<noteq> next_of h add then
        let h = set_prev (next_of h add) head h;
            h = set_next (prev_of h add) (next_of h head) h;
            h = set_prev (next_of h head) (prev_of h add) h
        in set_next head (next_of h add) h
      else h)"

text \<open>
  The iteration macros, as the list of the positions they visit; the first argument bounds
  the number of rounds, and \<open>None\<close> is a walk that did not come back to the head.
\<close>

fun for_each_from :: "nat \<Rightarrow> ('a \<Rightarrow> 'a) \<Rightarrow> 'a \<Rightarrow> 'a \<Rightarrow> 'a list option" where
  "for_each_from 0 step pos head = None"
| "for_each_from (Suc n) step pos head =
     (if pos = head then Some []
      else map_option ((#) pos) (for_each_from n step (step pos) head))"

definition list_for_each :: "nat \<Rightarrow> 'a \<Rightarrow> 'a list_heap \<Rightarrow> 'a list option" where
  "list_for_each n head h = for_each_from n (next_of h) (next_of h head) head"

definition list_for_each_prev :: "nat \<Rightarrow> 'a \<Rightarrow> 'a list_heap \<Rightarrow> 'a list option" where
  "list_for_each_prev n head h = for_each_from n (prev_of h) (prev_of h head) head"

text \<open>The safe variant reads the link of the next position before the body runs on this one;
  \<open>body\<close> is what the loop does to the heap at each position.\<close>

fun for_each_prev_safe_from ::
  "nat \<Rightarrow> ('a \<Rightarrow> 'a list_heap \<Rightarrow> 'a list_heap) \<Rightarrow> 'a \<Rightarrow> 'a \<Rightarrow> 'a \<Rightarrow> 'a list_heap \<Rightarrow> 'a list_heap option" where
  "for_each_prev_safe_from 0 body pos p head h = None"
| "for_each_prev_safe_from (Suc n) body pos p head h =
     (if pos = head then Some h
      else let h = body pos h in for_each_prev_safe_from n body p (prev_of h p) head h)"

definition list_for_each_prev_safe ::
  "nat \<Rightarrow> ('a \<Rightarrow> 'a list_heap \<Rightarrow> 'a list_heap) \<Rightarrow> 'a \<Rightarrow> 'a list_heap \<Rightarrow> 'a list_heap option" where
  "list_for_each_prev_safe n body head h =
     for_each_prev_safe_from n body (prev_of h head) (prev_of h (prev_of h head)) head h"

section \<open>The heap represents a list\<close>

definition klist :: "'a list_heap \<Rightarrow> 'a \<Rightarrow> 'a list \<Rightarrow> bool" where
  "klist h head xs \<longleftrightarrow> ring (next_of h) (prev_of h) head xs"

lemma klist_init: "klist (INIT_LIST_HEAD ptr h) ptr []"
  by (simp add: klist_def INIT_LIST_HEAD_def link_defs ring_empty)

lemma klist_add:
  "klist h head xs \<Longrightarrow> newp \<notin> set (head # xs) \<Longrightarrow> klist (list_add newp head h) head (newp # xs)"
  using ring_insert [of "next_of h" "prev_of h" head xs newp]
  by (auto simp: klist_def list_add_def link_defs Let_def)

lemma klist_del:
  assumes "klist h head (xs @ elem # ys)"
  shows "klist (list_del elem h) head (xs @ ys)"
proof -
  have d: "dpath (next_of h) (prev_of h) head (xs @ elem # ys) head"
    and dis: "distinct (head # xs @ elem # ys)" using assms by (simp_all add: klist_def ring_def)
  have "next_of h elem \<noteq> elem"
    using dpath_first [of "next_of h" "prev_of h" elem ys head] d dis
    by (cases ys) (auto simp: dpath_append)
  then show ?thesis
    using ring_remove [of "next_of h" "prev_of h" head xs elem ys] assms
    by (simp add: klist_def list_del_def link_defs Let_def)
qed

interpretation kl: linked_ring klist list_add list_del "\<lambda>_. True"
  by unfold_locales (simp_all add: klist_add klist_del, simp_all add: klist_def ring_def)


lemma klist_splice:
  assumes "klist h head xs" and "klist h add ys" and "set (head # xs) \<inter> set (add # ys) = {}"
  shows "klist (list_splice add head h) head (ys @ xs)"
proof (cases ys)
  case Nil
  then show ?thesis using assms by (simp add: klist_def ring_def list_splice_def)
next
  case (Cons y zs)
  have pys: "dpath (next_of h) (prev_of h) add ys add" using assms(2) by (simp add: klist_def ring_def)
  have dis: "add \<notin> set ys" using assms(2) by (simp add: klist_def ring_def)
  have na: "next_of h add = y" using pys Cons by simp
  have "prev_of h add = last ys" using dpath_last [OF pys] Cons by simp
  then have pa: "prev_of h add \<in> set ys" using Cons by simp
  have "dpath (next_of h) (prev_of h) head xs head" using assms(1) by (simp add: klist_def ring_def)
  then have nh: "next_of h head = hd (xs @ [head])" using dpath_first by metis
  then have nh_in: "next_of h head \<in> set (head # xs)" by (cases xs) auto
  have ne: "y \<noteq> add" "next_of h head \<noteq> y" "prev_of h add \<noteq> head" "prev_of h add \<noteq> add"
    "next_of h head \<noteq> add" "head \<noteq> add"
    using dis Cons pa nh_in assms(3) by auto
  then show ?thesis
    using ring_splice [of "next_of h" "prev_of h" head xs add ys] assms Cons na
    by (simp add: klist_def list_splice_def link_defs Let_def)
qed

section \<open>Iteration\<close>

lemma for_each_from_dpath:
  assumes "dpath n p a xs b" and "b \<notin> set xs" and "length xs < k"
  shows "for_each_from k n (n a) b = Some xs"
  using assms
proof (induction xs arbitrary: a k)
  case Nil
  then show ?case by (cases k) auto
next
  case (Cons x xs)
  then obtain k' where "k = Suc k'" by (cases k) auto
  with Cons show ?case by auto
qed

lemma dpath_swap: "dpath n p a xs b \<longleftrightarrow> dpath p n b (rev xs) a"
  by (induction xs arbitrary: a) (auto simp: dpath_append)

lemma klist_for_each:
  "klist h head xs \<Longrightarrow> length xs < k \<Longrightarrow> list_for_each k head h = Some xs"
  using for_each_from_dpath [of "next_of h" "prev_of h" head xs head k]
  by (simp add: klist_def ring_def list_for_each_def)

lemma klist_for_each_prev:
  assumes "klist h head xs" and "length xs < k"
  shows "list_for_each_prev k head h = Some (rev xs)"
proof -
  have "dpath (prev_of h) (next_of h) head (rev xs) head"
    using assms(1) dpath_swap by (metis klist_def ring_def)
  then show ?thesis
    using for_each_from_dpath [of "prev_of h" "next_of h" head "rev xs" head k] assms
    by (simp add: klist_def ring_def list_for_each_prev_def)
qed

text \<open>The safe walk survives the deletion of the entry it stands on: unlinking every entry
  from the back leaves the empty list.\<close>

lemma prev_safe_deletes:
  assumes "klist h head xs" and "length xs < k"
  shows "\<exists>h'. for_each_prev_safe_from k list_del (prev_of h head) (prev_of h (prev_of h head)) head h
           = Some h' \<and> klist h' head []"
  using assms
proof (induction xs arbitrary: h k rule: rev_induct)
  case Nil
  then show ?case by (cases k) (auto simp: klist_def ring_def)
next
  case (snoc x xs)
  obtain k' where k: "k = Suc k'" using snoc.prems(2) by (cases k) auto
  have d: "dpath (next_of h) (prev_of h) head (xs @ [x]) head" and dis: "distinct (head # xs @ [x])"
    using snoc.prems(1) by (simp_all add: klist_def ring_def)
  have px: "prev_of h head = x" and nx: "next_of h x = head" using d by (simp_all add: dpath_append)
  have pp: "prev_of h x = last (head # xs)" using d dpath_last by (fastforce simp: dpath_append)
  have kl: "klist (list_del x h) head xs" using klist_del [of h head xs x "[]"] snoc.prems(1) by simp
  have head: "prev_of (list_del x h) head = prev_of h x"
    using nx by (simp add: list_del_def link_defs Let_def)
  have "head \<noteq> x" using dis by auto
  have "\<exists>h'. for_each_prev_safe_from k' list_del (prev_of (list_del x h) head)
           (prev_of (list_del x h) (prev_of (list_del x h) head)) head (list_del x h) = Some h' \<and> klist h' head []"
    using snoc.IH [OF kl, of k'] snoc.prems(2) k by simp
  with k px head \<open>head \<noteq> x\<close> show ?case by (simp add: Let_def)
qed

end
