(* ===== verification/FineTime.thy ===== *)
theory FineTime
  imports Prelude
begin

unbundle bit_operations_syntax

text \<open>
  The fine timer of \<open>source/finetime.c\<close> and \<open>source/finetime.h\<close>: time stamps read with
  \<open>rdtsc\<close> and the time between two of them. The counter itself is an argument: the value the
  instruction gives at that moment. \<open>double\<close> is modelled by the real numbers.
  Shown: the halves of a stamp give back the counter; for a counter that has not gone back the
  elapsed cycles are the exact difference; for one whose high half has wrapped they are not.
\<close>

record timeinfo =
  low :: u64
  high :: u64

definition TSC_MAX :: u64 where "TSC_MAX = 0xFFFFFFFF"

definition cpu_freq :: real where "cpu_freq = 2000000"

definition get_tsc :: "u64 \<Rightarrow> timeinfo" where
  "get_tsc tsc = \<lparr>low = ucast (ucast tsc :: u32), high = ucast (ucast (drop_bit 32 tsc) :: u32)\<rparr>"

definition start :: "u64 \<Rightarrow> timeinfo" where
  "start tsc = get_tsc tsc"

definition stamp :: "timeinfo \<Rightarrow> u64" where
  "stamp ti = low ti OR push_bit 32 (high ti)"

definition get_elapsed_cycle :: "timeinfo \<Rightarrow> timeinfo \<Rightarrow> u64" where
  "get_elapsed_cycle st sp =
     (let begin_c = stamp st; end_c = stamp sp
      in if high sp < high st then (TSC_MAX - begin_c) + end_c else end_c - begin_c)"

text \<open>With a null \<open>stop\<close>, as every caller has it: the stop time is read now.\<close>

definition get_elapsed2ms :: "timeinfo \<Rightarrow> u64 \<Rightarrow> real" where
  "get_elapsed2ms st tsc = real (unat (get_elapsed_cycle st (get_tsc tsc))) / cpu_freq"

section \<open>Lemmas\<close>

lemma stamp_get_tsc [simp]: "stamp (get_tsc v) = v"
  by (rule bit_word_eqI) (auto simp: stamp_def get_tsc_def bit_simps)

lemma unat_high: "unat (high (get_tsc v)) = unat v div 2 ^ 32"
proof -
  have "unat v < 2 ^ 64" using unsigned_less [of v, where ?'a = nat] by simp
  then have "unat v div 2 ^ 32 < 2 ^ 32" by (simp add: less_mult_imp_div_less)
  then show ?thesis
    by (simp add: get_tsc_def unsigned_ucast_eq unat_drop_bit_eq drop_bit_eq_div take_bit_eq_mod unat_mod unat_div)
qed

lemma high_mono: "a \<le> b \<Longrightarrow> high (get_tsc a) \<le> high (get_tsc b)"
  unfolding word_le_nat_alt unat_high by (rule div_le_mono)

lemma elapsed_no_wrap:
  assumes "a \<le> b"
  shows "get_elapsed_cycle (get_tsc a) (get_tsc b) = b - a"
  using high_mono [OF assms] by (auto simp: get_elapsed_cycle_def Let_def)

lemma elapsed_wrap:
  assumes "high (get_tsc b) < high (get_tsc a)"
  shows "get_elapsed_cycle (get_tsc a) (get_tsc b) = (b - a) + TSC_MAX"
  using assms by (simp add: get_elapsed_cycle_def Let_def)

lemma elapsed2ms_nonneg: "0 \<le> get_elapsed2ms st tsc"
  unfolding get_elapsed2ms_def cpu_freq_def by (rule divide_nonneg_nonneg) (rule of_nat_0_le_iff, simp)

text \<open>
  Elapsed time is exact. For a time stamp counter that has not gone back between the two
  readings, \<open>get_elapsed2ms\<close> is the exact number of cycles between them divided by the clock
  frequency; in particular it is 0 for no time and grows with the later reading.
\<close>

lemma elapsed2ms_exact:
  assumes "a \<le> b"
  shows "get_elapsed2ms (start a) b = (real (unat b) - real (unat a)) / cpu_freq"
proof -
  have "unat (b - a) = unat b - unat a" using assms by (simp add: unat_sub)
  with assms show ?thesis
    by (simp add: get_elapsed2ms_def start_def elapsed_no_wrap of_nat_diff word_le_nat_alt)
qed

lemma elapsed2ms_exact_witness:
  "get_elapsed2ms (start 0x0FFFFFFFF) 0x1003D08FF = 2"
  using elapsed2ms_exact [of "0x0FFFFFFFF" "0x1003D08FF"] by (simp add: cpu_freq_def)

text \<open>
  A wrapped counter is measured too long. When the high half of the counter is smaller at
  the second reading, \<open>get_elapsed_cycle\<close> gives the true difference modulo \<open>2 ^ 64\<close> plus
  \<open>2 ^ 32 - 1\<close>, because \<open>TSC_MAX\<close> is the largest 32-bit value although the stamps have 64 bits.
\<close>

lemma elapsed_cycle_wrap_error:
  assumes "high (get_tsc b) < high (get_tsc a)"
  shows "get_elapsed_cycle (start a) (get_tsc b) - (b - a) = 0xFFFFFFFF"
  using elapsed_wrap [OF assms] by (simp add: start_def TSC_MAX_def)

end
