(* ===== verification/Xdefines.thy ===== *)
theory Xdefines
  imports Prelude
begin

unbundle bit_operations_syntax

text \<open>
  The constants and address arithmetic of \<open>source/xdefines.h\<close> and \<open>source/mm.hh\<close>.
  Shown: for an alignment that is a power of two, \<open>alignup\<close> and \<open>aligndown\<close> give the nearest
  multiples above and below, as long as the sum does not wrap.
\<close>

definition CACHE_LINE_SIZE :: u64 where "CACHE_LINE_SIZE = 64"
definition PageSize :: u64 where "PageSize = 4096"
definition MAX_THREADS :: nat where "MAX_THREADS = 2048"
definition MAX_SYNC_ENTRIES :: nat where "MAX_SYNC_ENTRIES = 1000000"
definition NUM_HEAPS :: nat where "NUM_HEAPS = 128"
definition MAX_ALIVE_THREADS :: nat where "MAX_ALIVE_THREADS = NUM_HEAPS"
definition MAX_THREAD_LEVELS :: nat where "MAX_THREAD_LEVELS = 256"

definition alignup :: "u64 \<Rightarrow> u64 \<Rightarrow> u64" where
  "alignup sz alignto = (sz + (alignto - 1)) AND NOT (alignto - 1)"

definition aligndown :: "u64 \<Rightarrow> u64 \<Rightarrow> u64" where
  "aligndown addr alignto = addr AND NOT (alignto - 1)"

definition getCacheStart :: "u64 \<Rightarrow> u64" where
  "getCacheStart addr = aligndown addr CACHE_LINE_SIZE"

definition getMin :: "u64 \<Rightarrow> u64 \<Rightarrow> u64" where
  "getMin a b = (if a < b then a else b)"

definition getMax :: "u64 \<Rightarrow> u64 \<Rightarrow> u64" where
  "getMax a b = (if a > b then a else b)"

text \<open>\<open>ALIGN_TO_CACHELINE\<close> of \<open>mm.hh\<close>.\<close>

definition ALIGN_TO_CACHELINE :: "u64 \<Rightarrow> u64" where
  "ALIGN_TO_CACHELINE sz = (if sz mod 64 = 0 then sz else (sz + 64) div 64 * 64)"

section \<open>Lemmas\<close>

lemma and_not_mask_unat:
  fixes a :: u64
  assumes "k < 64"
  shows "unat (a AND NOT (2 ^ k - 1)) = 2 ^ k * (unat a div 2 ^ k)"
proof -
  have "a AND NOT (2 ^ k - 1) = push_bit k (drop_bit k a)"
    by (rule bit_word_eqI) (auto simp: bit_simps mask_eq_exp_minus_1 [symmetric])
  moreover have "unat (push_bit k (drop_bit k a)) = 2 ^ k * (unat a div 2 ^ k)"
  proof -
    have "2 ^ k * (unat a div 2 ^ k) \<le> unat a" by simp
    also have "unat a < 2 ^ 64" using unsigned_less [of a, where ?'a = nat] by simp
    finally show ?thesis
      unfolding unsigned_push_bit_eq unat_drop_bit_eq
      by (simp add: drop_bit_eq_div push_bit_eq_mult take_bit_eq_mod mult.commute)
  qed
  ultimately show ?thesis by simp
qed

lemma aligndown_pow2:
  "k < 64 \<Longrightarrow> unat (aligndown a (2 ^ k)) = 2 ^ k * (unat a div 2 ^ k)"
  unfolding aligndown_def by (rule and_not_mask_unat)

lemma aligndown_le: "k < 64 \<Longrightarrow> aligndown a (2 ^ k) \<le> a"
  by (simp add: word_le_nat_alt aligndown_pow2)

lemma unat_exp: "k < 64 \<Longrightarrow> unat ((2 :: u64) ^ k) = 2 ^ k"
proof -
  assume k: "k < 64"
  have "unat (push_bit k (1 :: u64)) = take_bit 64 (push_bit k (unat (1 :: u64)))"
    by (simp only: unsigned_push_bit_eq) simp
  moreover have "(2 :: nat) ^ k < 2 ^ 64" using k by (intro power_strict_increasing) simp_all
  ultimately show "unat ((2 :: u64) ^ k) = 2 ^ k"
    by (simp add: push_bit_eq_mult take_bit_eq_mod)
qed

lemma alignup_pow2:
  assumes "k < 64" and "unat a + (2 ^ k - 1) < 2 ^ 64"
  shows "unat (alignup a (2 ^ k)) = 2 ^ k * ((unat a + (2 ^ k - 1)) div 2 ^ k)"
proof -
  have "unat ((2 :: u64) ^ k) = 2 ^ k" using assms(1) by (simp add: unat_exp)
  then have "unat ((2 :: u64) ^ k - 1) = 2 ^ k - 1"
    using assms(1) by (subst unat_minus_one) simp_all
  then have "unat (a + (2 ^ k - 1)) = unat a + (2 ^ k - 1)"
    using assms(2) by (simp add: unat_plus_if')
  with and_not_mask_unat [OF assms(1), of "a + (2 ^ k - 1)"] show ?thesis
    by (simp add: alignup_def)
qed

end
