(* ===== verification/RecordEntries.thy ===== *)
theory RecordEntries
  imports Xdefines
begin

unbundle bit_operations_syntax

text \<open>
  The entry pools of \<open>source/recordentries.hh\<close>: a fixed array handed out one index after the
  other by an atomic increment. The element type is a parameter, as in the template; the fresh
  memory of \<open>mmap\<close> is zero, which is \<open>zero\<close> here.
  Shown: the indices handed out are the numbers from the start in order, each once, all inside
  the array, and the call that finds the pool empty aborts.
\<close>

record 'e record_entries =
  re_start :: "nat \<Rightarrow> 'e"
  re_total :: u64
  re_cur :: u64

text \<open>\<open>mmap_ok\<close> tells whether the kernel gave the memory (\<open>MM::allocate\<close> aborts otherwise); the
  size asked for is \<open>pool_bytes\<close>.\<close>

definition pool_bytes :: "i32 \<Rightarrow> u64 \<Rightarrow> u64" where
  "pool_bytes entries entry_size = alignup (scast entries * entry_size) PageSize"

definition initialize :: "bool \<Rightarrow> 'e \<Rightarrow> i32 \<Rightarrow> (unit, 'e record_entries) out" where
  "initialize mmap_ok zero entries =
     (if mmap_ok then Ret () \<lparr>re_start = (\<lambda>_. zero), re_total = scast entries, re_cur = 0\<rparr> else Abort)"

text \<open>The counter goes through an \<open>int\<close> and is compared as a \<open>size_t\<close> again.\<close>

definition get_next_index :: "'e record_entries \<Rightarrow> (u64, 'e record_entries) out" where
  "get_next_index r =
     (let v = (ucast (re_cur r) :: i32); r = r\<lparr>re_cur := re_cur r + 1\<rparr>
      in if scast v < re_total r then Ret (scast v) r else Abort)"

definition getEntry :: "u64 \<Rightarrow> nat" where
  "getEntry index = unat index"

definition getEntriesNumb :: "'e record_entries \<Rightarrow> u64" where
  "getEntriesNumb r = re_cur r"

definition cleanup :: "'e record_entries \<Rightarrow> 'e record_entries" where
  "cleanup r = r\<lparr>re_cur := 0\<rparr>"

text \<open>Several calls in a row, whichever threads make them: the increment is one atomic step.\<close>

fun take_indices :: "nat \<Rightarrow> 'e record_entries \<Rightarrow> (u64 list, 'e record_entries) out" where
  "take_indices 0 r = Ret [] r"
| "take_indices (Suc k) r =
     bnd (get_next_index r) (\<lambda>i r. bnd (take_indices k r) (\<lambda>is r. Ret (i # is) r))"

section \<open>Lemmas\<close>

lemma get_next_index_below:
  assumes "re_cur r < 2 ^ 31"
  shows "get_next_index r =
    (if re_cur r < re_total r then Ret (re_cur r) (r\<lparr>re_cur := re_cur r + 1\<rparr>) else Abort)"
proof -
  have lt: "uint (re_cur r) < 2 ^ 31" using assms by (simp add: word_less_alt)
  have "signed_take_bit 31 (uint (re_cur r)) = uint (re_cur r)"
    by (rule signed_take_bit_int_eq_self) (use lt in \<open>simp_all add: order_trans [OF _ unsigned_greater_eq]\<close>)
  then have "sint (ucast (re_cur r) :: i32) = uint (re_cur r)"
    using lt
    by (simp add: sint_uint unsigned_ucast_eq signed_take_bit_int_eq_self take_bit_int_eq_self)
  then have "scast (ucast (re_cur r) :: i32) = re_cur r"
    by (simp add: scast_eq)
  then show ?thesis by (simp add: get_next_index_def Let_def)
qed

lemma get_next_index_frame:
  "get_next_index r = Ret i r' \<Longrightarrow> re_total r' = re_total r \<and> re_start r' = re_start r"
  by (auto simp: get_next_index_def Let_def split: if_splits)

lemma take_indices_spec:
  assumes "unat (re_cur r) + k \<le> unat (re_total r)" and "re_total r < 2 ^ 31"
  shows "take_indices k r = Ret (map (\<lambda>j. re_cur r + word_of_nat j) [0..<k]) (r\<lparr>re_cur := re_cur r + word_of_nat k\<rparr>)"
  using assms
proof (induction k arbitrary: r)
  case 0
  then show ?case by simp
next
  case (Suc k)
  have lt: "re_cur r < re_total r" using Suc.prems(1) by (simp add: word_less_nat_alt)
  then have one: "get_next_index r = Ret (re_cur r) (r\<lparr>re_cur := re_cur r + 1\<rparr>)"
    using get_next_index_below [of r] Suc.prems(2) by (auto dest: order.strict_trans)
  have "unat (re_cur r + 1) = unat (re_cur r) + 1"
    using lt unat_plus_if' [of "re_cur r" 1] unsigned_less [of "re_total r", where ?'a = nat]
    by (simp add: word_less_nat_alt)
  then have "take_indices k (r\<lparr>re_cur := re_cur r + 1\<rparr>) =
      Ret (map (\<lambda>j. re_cur r + 1 + word_of_nat j) [0..<k]) (r\<lparr>re_cur := re_cur r + 1 + word_of_nat k\<rparr>)"
    using Suc.IH [of "r\<lparr>re_cur := re_cur r + 1\<rparr>"] Suc.prems by simp
  moreover have "map (\<lambda>j. re_cur r + word_of_nat j) [0..<Suc k] =
      re_cur r # map (\<lambda>j. re_cur r + 1 + word_of_nat j) [0..<k]"
    by (simp add: upt_conv_Cons map_Suc_upt [symmetric] ac_simps del: upt_Suc)
  ultimately show ?case using one by (simp add: ac_simps)
qed

lemma total_scast:
  assumes "0 \<le> sint (e :: i32)"
  shows "unat (scast e :: u64) = nat (sint e)" "(scast e :: u64) < 2 ^ 31"
proof -
  have b: "sint e < 2 ^ 31" using sint_lt [of e] by simp
  have "uint (scast e :: u64) = sint e"
    using assms b unfolding scast_eq uint_word_of_int_eq by (intro take_bit_int_eq_self) simp_all
  then show "unat (scast e :: u64) = nat (sint e)" by (simp flip: nat_uint_eq)
  with b assms show "(scast e :: u64) < 2 ^ 31" by (simp add: word_less_nat_alt)
qed

text \<open>
  Pool indices are unique and in bounds. From a fresh pool of \<open>n\<close> entries, any \<open>k \<le> n\<close> calls
  of \<open>get_next_index\<close>, in whatever order the threads make them, return \<open>0, 1, \<dots>, k - 1\<close>: no index
  twice and none outside the array; and the call after \<open>n\<close> of them aborts.
\<close>

lemma get_next_index_unique:
  assumes "initialize True z entries = Ret () r" and "0 \<le> sint entries" and "k \<le> nat (sint entries)"
  shows "\<exists>r'. take_indices k r = Ret (map word_of_nat [0..<k]) r' \<and>
    (k = nat (sint entries) \<longrightarrow> get_next_index r' = Abort)"
proof -
  have r: "r = \<lparr>re_start = (\<lambda>_. z), re_total = scast entries, re_cur = 0\<rparr>"
    using assms(1) by (simp add: initialize_def)
  have "sint entries < 2 ^ 31" using sint_lt [of entries] by simp
  then have tot: "unat (re_total r) = nat (sint entries)" "re_total r < 2 ^ 31"
    using total_scast [OF assms(2)] r by simp_all
  then have k: "take_indices k r = Ret (map word_of_nat [0..<k]) (r\<lparr>re_cur := word_of_nat k\<rparr>)"
    using take_indices_spec [of r k] assms(3) r by simp
  moreover have "get_next_index (r\<lparr>re_cur := word_of_nat k\<rparr>) = Abort" if "k = nat (sint entries)"
  proof -
    have "word_of_nat k = re_total r" using that tot(1) by (metis of_nat_unat ucast_id)
    then show ?thesis using get_next_index_below [of "r\<lparr>re_cur := word_of_nat k\<rparr>"] tot(2) by simp
  qed
  ultimately show ?thesis by auto
qed

end
