(* ===== verification/NptlState.thy ===== *)
theory NptlState
  imports LowLevelLock FineTime RecordEntries
begin

unbundle bit_operations_syntax

text \<open>
  The state the mutex and condition variable code works on, and what is outside of it.

  \<open>nptl\<close> holds what the calling thread can reach: the pool of mutexes with their meta data
  (\<open>mutex_t\<close> of \<open>source/mutex_manager.h\<close>), the first word of the program's own mutexes, the
  counters per thread and mutex, the condition variable at hand, the descriptor of the thread
  (\<open>struct pthread\<close> of \<open>source/descr.h\<close>), the links of the robust lists and the globals.
  \<open>envr\<close> is what is not under \<open>src/\<close>: the other threads, the kernel, libc and the time stamp
  counter, as functions of a step count \<open>clk\<close>; every property holds for each of them or names
  what it needs. The other threads act (\<open>ticks\<close>) before each access of a lock word; they can change
  the real mutexes, the condition variable and the descriptor of this thread.
\<close>

section \<open>Error numbers\<close>

definition EPERM :: i32 where "EPERM = 1"
definition ESRCH :: i32 where "ESRCH = 3"
definition EINTR :: i32 where "EINTR = 4"
definition EAGAIN :: i32 where "EAGAIN = 11"
definition EWOULDBLOCK :: i32 where "EWOULDBLOCK = EAGAIN"
definition ENOMEM :: i32 where "ENOMEM = 12"
definition EBUSY :: i32 where "EBUSY = 16"
definition EINVAL :: i32 where "EINVAL = 22"
definition EDEADLK :: i32 where "EDEADLK = 35"
definition ENOTSUP :: i32 where "ENOTSUP = 95"
definition EOWNERDEAD :: i32 where "EOWNERDEAD = 130"
definition ENOTRECOVERABLE :: i32 where "ENOTRECOVERABLE = 131"

lemmas errnos = EPERM_def ESRCH_def EINTR_def EAGAIN_def EWOULDBLOCK_def ENOMEM_def EBUSY_def
  EINVAL_def EDEADLK_def ENOTSUP_def EOWNERDEAD_def ENOTRECOVERABLE_def

section \<open>Mutex kinds (pthreadP.h)\<close>

definition PTHREAD_MUTEX_TIMED_NP :: i32 where "PTHREAD_MUTEX_TIMED_NP = 0"
definition PTHREAD_MUTEX_RECURSIVE_NP :: i32 where "PTHREAD_MUTEX_RECURSIVE_NP = 1"
definition PTHREAD_MUTEX_ERRORCHECK_NP :: i32 where "PTHREAD_MUTEX_ERRORCHECK_NP = 2"
definition PTHREAD_MUTEX_ADAPTIVE_NP :: i32 where "PTHREAD_MUTEX_ADAPTIVE_NP = 3"

definition PTHREAD_MUTEX_KIND_MASK_NP :: i32 where "PTHREAD_MUTEX_KIND_MASK_NP = 3"
definition PTHREAD_MUTEX_ELISION_NP :: i32 where "PTHREAD_MUTEX_ELISION_NP = 256"
definition PTHREAD_MUTEX_NO_ELISION_NP :: i32 where "PTHREAD_MUTEX_NO_ELISION_NP = 512"
definition PTHREAD_MUTEX_ROBUST_NORMAL_NP :: i32 where "PTHREAD_MUTEX_ROBUST_NORMAL_NP = 16"
definition PTHREAD_MUTEX_ROBUST_RECURSIVE_NP :: i32 where
  "PTHREAD_MUTEX_ROBUST_RECURSIVE_NP = PTHREAD_MUTEX_ROBUST_NORMAL_NP OR PTHREAD_MUTEX_RECURSIVE_NP"
definition PTHREAD_MUTEX_ROBUST_ERRORCHECK_NP :: i32 where
  "PTHREAD_MUTEX_ROBUST_ERRORCHECK_NP = PTHREAD_MUTEX_ROBUST_NORMAL_NP OR PTHREAD_MUTEX_ERRORCHECK_NP"
definition PTHREAD_MUTEX_ROBUST_ADAPTIVE_NP :: i32 where
  "PTHREAD_MUTEX_ROBUST_ADAPTIVE_NP = PTHREAD_MUTEX_ROBUST_NORMAL_NP OR PTHREAD_MUTEX_ADAPTIVE_NP"
definition PTHREAD_MUTEX_PRIO_INHERIT_NP :: i32 where "PTHREAD_MUTEX_PRIO_INHERIT_NP = 32"
definition PTHREAD_MUTEX_PI_RECURSIVE_NP :: i32 where
  "PTHREAD_MUTEX_PI_RECURSIVE_NP = PTHREAD_MUTEX_PRIO_INHERIT_NP OR PTHREAD_MUTEX_RECURSIVE_NP"
definition PTHREAD_MUTEX_PRIO_PROTECT_NP :: i32 where "PTHREAD_MUTEX_PRIO_PROTECT_NP = 64"
definition PTHREAD_MUTEX_PP_RECURSIVE_NP :: i32 where
  "PTHREAD_MUTEX_PP_RECURSIVE_NP = PTHREAD_MUTEX_PRIO_PROTECT_NP OR PTHREAD_MUTEX_RECURSIVE_NP"
definition PTHREAD_MUTEX_PP_ERRORCHECK_NP :: i32 where
  "PTHREAD_MUTEX_PP_ERRORCHECK_NP = PTHREAD_MUTEX_PRIO_PROTECT_NP OR PTHREAD_MUTEX_ERRORCHECK_NP"
definition PTHREAD_MUTEX_PP_ADAPTIVE_NP :: i32 where
  "PTHREAD_MUTEX_PP_ADAPTIVE_NP = PTHREAD_MUTEX_PRIO_PROTECT_NP OR PTHREAD_MUTEX_ADAPTIVE_NP"
definition PTHREAD_MUTEX_TIMED_ELISION_NP :: i32 where
  "PTHREAD_MUTEX_TIMED_ELISION_NP = PTHREAD_MUTEX_TIMED_NP OR PTHREAD_MUTEX_ELISION_NP"
definition PTHREAD_MUTEX_PSHARED_BIT :: i32 where "PTHREAD_MUTEX_PSHARED_BIT = 128"

text \<open>The case labels of the four families of kinds.\<close>

definition kinds_robust :: "i32 set" where
  "kinds_robust = (\<lambda>k. PTHREAD_MUTEX_ROBUST_NORMAL_NP OR k) ` {0, 1, 2, 3}"
definition kinds_pi :: "i32 set" where
  "kinds_pi = (\<lambda>k. PTHREAD_MUTEX_PRIO_INHERIT_NP OR k) ` {0, 1, 2, 3} \<union>
     (\<lambda>k. PTHREAD_MUTEX_PRIO_INHERIT_NP OR PTHREAD_MUTEX_ROBUST_NORMAL_NP OR k) ` {0, 1, 2, 3}"
definition kinds_pp :: "i32 set" where
  "kinds_pp = (\<lambda>k. PTHREAD_MUTEX_PRIO_PROTECT_NP OR k) ` {0, 1, 2, 3}"

lemmas mutex_kinds = PTHREAD_MUTEX_TIMED_NP_def PTHREAD_MUTEX_RECURSIVE_NP_def
  PTHREAD_MUTEX_ERRORCHECK_NP_def PTHREAD_MUTEX_ADAPTIVE_NP_def PTHREAD_MUTEX_KIND_MASK_NP_def
  PTHREAD_MUTEX_ELISION_NP_def PTHREAD_MUTEX_NO_ELISION_NP_def PTHREAD_MUTEX_ROBUST_NORMAL_NP_def
  PTHREAD_MUTEX_ROBUST_RECURSIVE_NP_def PTHREAD_MUTEX_ROBUST_ERRORCHECK_NP_def
  PTHREAD_MUTEX_ROBUST_ADAPTIVE_NP_def PTHREAD_MUTEX_PRIO_INHERIT_NP_def
  PTHREAD_MUTEX_PI_RECURSIVE_NP_def PTHREAD_MUTEX_PRIO_PROTECT_NP_def
  PTHREAD_MUTEX_PP_RECURSIVE_NP_def PTHREAD_MUTEX_PP_ERRORCHECK_NP_def
  PTHREAD_MUTEX_PP_ADAPTIVE_NP_def PTHREAD_MUTEX_TIMED_ELISION_NP_def PTHREAD_MUTEX_PSHARED_BIT_def
  kinds_robust_def kinds_pi_def kinds_pp_def

definition PTHREAD_MUTEX_INCONSISTENT :: i32 where "PTHREAD_MUTEX_INCONSISTENT = 0x7fffffff"
definition PTHREAD_MUTEX_NOTRECOVERABLE :: i32 where "PTHREAD_MUTEX_NOTRECOVERABLE = 0x7ffffffe"
definition PTHREAD_MUTEX_PRIO_CEILING_SHIFT :: nat where "PTHREAD_MUTEX_PRIO_CEILING_SHIFT = 19"
definition PTHREAD_MUTEX_PRIO_CEILING_MASK :: i32 where "PTHREAD_MUTEX_PRIO_CEILING_MASK = 0xfff80000"
definition MAX_ADAPTIVE_COUNT :: int where "MAX_ADAPTIVE_COUNT = 100"
definition ATTR_FLAG_SCHED_SET :: i32 where "ATTR_FLAG_SCHED_SET = 0x0020"
definition ATTR_FLAG_POLICY_SET :: i32 where "ATTR_FLAG_POLICY_SET = 0x0040"

section \<open>Data\<close>

record mutex =
  m_lock :: i32
  m_count :: u32
  m_owner :: i32
  m_nusers :: u32
  m_kind :: i32
  m_spins :: i16

text \<open>The macros on the kind of a mutex.\<close>

definition PTHREAD_MUTEX_PSHARED :: "mutex \<Rightarrow> i32" where
  "PTHREAD_MUTEX_PSHARED m = m_kind m AND 128"
definition PTHREAD_ROBUST_MUTEX_PSHARED :: "mutex \<Rightarrow> i32" where
  "PTHREAD_ROBUST_MUTEX_PSHARED m = LLL_SHARED"
definition PTHREAD_MUTEX_TYPE :: "mutex \<Rightarrow> i32" where
  "PTHREAD_MUTEX_TYPE m = m_kind m AND 127"
definition PTHREAD_MUTEX_TYPE_ELISION :: "mutex \<Rightarrow> i32" where
  "PTHREAD_MUTEX_TYPE_ELISION m = m_kind m AND (127 OR PTHREAD_MUTEX_ELISION_NP)"

lemmas mutex_macros = PTHREAD_MUTEX_PSHARED_def PTHREAD_ROBUST_MUTEX_PSHARED_def
  PTHREAD_MUTEX_TYPE_def PTHREAD_MUTEX_TYPE_ELISION_def

definition zero_mutex :: mutex where
  "zero_mutex = \<lparr>m_lock = 0, m_count = 0, m_owner = 0, m_nusers = 0, m_kind = 0, m_spins = 0\<rparr>"

record mutex_t =
  real_mutex :: mutex
  entry_index :: u64
  stack_count :: nat
  esp_offset :: "u64 list"
  eip :: "u64 list"
  stacks :: "u64 list list"

record thread_mutex_t =
  access_count :: u32
  fail_count :: u32
  cond_waits :: u32
  trylock_fail_count :: u32
  cond_futex_wait :: real
  futex_wait :: real

record condvar =
  c_lock :: i32
  c_futex :: u32
  c_total_seq :: u64
  c_wakeup_seq :: u64
  c_woken_seq :: u64
  c_mutex :: u64
  c_nwaiters :: u32
  c_broadcast_seq :: u32

record priority_protection_data =
  priomax :: int
  priomap :: "u32 list"

record pthread =
  p_tid :: i32
  p_robust_head :: u64        \<comment> \<open>the address of \<open>robust_head\<close>\<close>
  p_pending :: u64            \<comment> \<open>\<open>robust_head.list_op_pending\<close>\<close>
  p_cleanup :: u64
  p_cancelhandling :: i32
  p_flags :: i32
  p_lock :: i32
  p_prio :: int               \<comment> \<open>\<open>schedparam.sched_priority\<close>\<close>
  p_policy :: int
  p_tpp :: "priority_protection_data option"
  p_result :: u64

record cleanup_buffer =
  b_routine :: u64
  b_arg :: u64
  b_prev :: u64

record links =
  l_next :: "u64 \<Rightarrow> u64"
  l_prev :: "u64 \<Rightarrow> u64"

record nptl =
  sync_vars :: "mutex_t record_entries"
  nominal :: "u64 \<Rightarrow> nat option"   \<comment> \<open>the first word of the mutex at an address: NULL or an entry\<close>
  tsd :: "nat \<Rightarrow> thread_mutex_t"
  cnd :: condvar
  slf :: pthread
  rl :: links
  bufs :: "u64 \<Rightarrow> cleanup_buffer"
  fifo_min_prio :: int
  fifo_max_prio :: int
  totalLocks :: u64
  totalCondWaits :: u64
  totalConflicts :: u64
  calls :: "fcall list"            \<comment> \<open>futex system calls made, the latest first\<close>
  sched_calls :: "int list"        \<comment> \<open>priorities set by \<open>__sched_setscheduler\<close>, the latest first\<close>
  clk :: nat

text \<open>The call stack as the frame pointers chain it: the frame of \<open>do_backtrace\<close>, the address of its
  local variable, the end of the stack, and the two words of the frame at an address.\<close>

record frames =
  f_frame :: u64
  f_top :: u64
  f_end :: u64
  f_prev :: "u64 \<Rightarrow> u64"
  f_caller :: "u64 \<Rightarrow> u64"

text \<open>\<open>e_futex_pi op c v\<close> is the kernel's answer to a \<open>futex\<close> call that works on the lock word itself:
  the new value of the word that was \<open>v\<close>, and the result of the call.\<close>

record envr =
  e_nominal :: "nat \<Rightarrow> u64 \<Rightarrow> nat option \<Rightarrow> nat option"
  e_mutex :: "nat \<Rightarrow> nat \<Rightarrow> mutex \<Rightarrow> mutex"
  e_cond :: "nat \<Rightarrow> condvar \<Rightarrow> condvar"
  e_self :: "nat \<Rightarrow> pthread \<Rightarrow> pthread"
  e_futex_pi :: "i32 \<Rightarrow> nat \<Rightarrow> i32 \<Rightarrow> i32 \<times> i64"
  e_tsc :: "nat \<Rightarrow> u64"
  e_calloc :: "nat \<Rightarrow> bool"
  e_prio_max :: int
  e_prio_min :: int
  e_getparam :: "nat \<Rightarrow> i32 + int"
  e_getscheduler :: "nat \<Rightarrow> i32 + int"
  e_setscheduler :: "nat \<Rightarrow> int \<Rightarrow> i32 option"
  e_list_at :: "nat \<Rightarrow> u64"      \<comment> \<open>where the \<open>__list.__next\<close> of an entry's mutex is\<close>
  e_frames :: "nat \<Rightarrow> frames"
  e_wait :: "nat \<Rightarrow> i64"          \<comment> \<open>what the kernel answers to a futex wait\<close>
  e_unspec :: "nat \<Rightarrow> i32"        \<comment> \<open>what is in the result register when a function ends without \<open>return\<close>\<close>

section \<open>Access\<close>

abbreviation pool :: "nptl \<Rightarrow> nat \<Rightarrow> mutex_t" where
  "pool s \<equiv> re_start (sync_vars s)"

abbreviation mtx :: "nptl \<Rightarrow> nat \<Rightarrow> mutex" where
  "mtx s i \<equiv> real_mutex (pool s i)"

definition upd_entry :: "nat \<Rightarrow> (mutex_t \<Rightarrow> mutex_t) \<Rightarrow> nptl \<Rightarrow> nptl" where
  "upd_entry i f s = s\<lparr>sync_vars := (sync_vars s)\<lparr>re_start := (pool s)(i := f (pool s i))\<rparr>\<rparr>"

definition upd_mtx :: "nat \<Rightarrow> (mutex \<Rightarrow> mutex) \<Rightarrow> nptl \<Rightarrow> nptl" where
  "upd_mtx i f s = upd_entry i (\<lambda>e. e\<lparr>real_mutex := f (real_mutex e)\<rparr>) s"

abbreviation set_lock :: "nat \<Rightarrow> i32 \<Rightarrow> nptl \<Rightarrow> nptl" where
  "set_lock i v \<equiv> upd_mtx i (\<lambda>m. m\<lparr>m_lock := v\<rparr>)"
abbreviation set_count :: "nat \<Rightarrow> u32 \<Rightarrow> nptl \<Rightarrow> nptl" where
  "set_count i v \<equiv> upd_mtx i (\<lambda>m. m\<lparr>m_count := v\<rparr>)"
abbreviation add_count :: "nat \<Rightarrow> u32 \<Rightarrow> nptl \<Rightarrow> nptl" where
  "add_count i v \<equiv> upd_mtx i (\<lambda>m. m\<lparr>m_count := m_count m + v\<rparr>)"
abbreviation set_owner :: "nat \<Rightarrow> i32 \<Rightarrow> nptl \<Rightarrow> nptl" where
  "set_owner i v \<equiv> upd_mtx i (\<lambda>m. m\<lparr>m_owner := v\<rparr>)"
abbreviation add_nusers :: "nat \<Rightarrow> u32 \<Rightarrow> nptl \<Rightarrow> nptl" where
  "add_nusers i v \<equiv> upd_mtx i (\<lambda>m. m\<lparr>m_nusers := m_nusers m + v\<rparr>)"
abbreviation set_kind :: "nat \<Rightarrow> i32 \<Rightarrow> nptl \<Rightarrow> nptl" where
  "set_kind i v \<equiv> upd_mtx i (\<lambda>m. m\<lparr>m_kind := v\<rparr>)"
abbreviation set_spins :: "nat \<Rightarrow> i16 \<Rightarrow> nptl \<Rightarrow> nptl" where
  "set_spins i v \<equiv> upd_mtx i (\<lambda>m. m\<lparr>m_spins := v\<rparr>)"
abbreviation set_pending :: "u64 \<Rightarrow> nptl \<Rightarrow> nptl" where
  "set_pending v s \<equiv> s\<lparr>slf := (slf s)\<lparr>p_pending := v\<rparr>\<rparr>"

definition ticks :: "envr \<Rightarrow> nptl \<Rightarrow> nptl" where
  "ticks E s = s\<lparr>
     sync_vars := (sync_vars s)\<lparr>re_start := (\<lambda>i. (pool s i)\<lparr>real_mutex := e_mutex E (clk s) i (mtx s i)\<rparr>)\<rparr>,
     nominal := (\<lambda>p. e_nominal E (clk s) p (nominal s p)),
     cnd := e_cond E (clk s) (cnd s), slf := e_self E (clk s) (slf s), clk := Suc (clk s)\<rparr>"

definition mutex_cell :: "envr \<Rightarrow> nat \<Rightarrow> nptl cell" where
  "mutex_cell E i = \<lparr>c_rd = (\<lambda>s. m_lock (mtx s i)), c_wr = set_lock i, c_tick = ticks E,
     c_sys = (\<lambda>f s. s\<lparr>calls := f # calls s\<rparr>)\<rparr>"

definition cond_cell :: "envr \<Rightarrow> nptl cell" where
  "cond_cell E = \<lparr>c_rd = (\<lambda>s. c_lock (cnd s)), c_wr = (\<lambda>v s. s\<lparr>cnd := (cnd s)\<lparr>c_lock := v\<rparr>\<rparr>),
     c_tick = ticks E, c_sys = (\<lambda>f s. s\<lparr>calls := f # calls s\<rparr>)\<rparr>"

definition self_cell :: "envr \<Rightarrow> nptl cell" where
  "self_cell E = \<lparr>c_rd = (\<lambda>s. p_lock (slf s)), c_wr = (\<lambda>v s. s\<lparr>slf := (slf s)\<lparr>p_lock := v\<rparr>\<rparr>),
     c_tick = ticks E, c_sys = (\<lambda>f s. s\<lparr>calls := f # calls s\<rparr>)\<rparr>"

section \<open>Laws\<close>

lemma pool_upd_entry [simp]: "pool (upd_entry i f s) j = (if j = i then f (pool s i) else pool s j)"
  by (simp add: upd_entry_def)

lemma upd_entry_frame [simp]:
  "re_cur (sync_vars (upd_entry i f s)) = re_cur (sync_vars s)"
  "re_total (sync_vars (upd_entry i f s)) = re_total (sync_vars s)"
  "nominal (upd_entry i f s) = nominal s"
  "tsd (upd_entry i f s) = tsd s" "cnd (upd_entry i f s) = cnd s" "slf (upd_entry i f s) = slf s"
  "rl (upd_entry i f s) = rl s" "bufs (upd_entry i f s) = bufs s"
  "fifo_min_prio (upd_entry i f s) = fifo_min_prio s" "fifo_max_prio (upd_entry i f s) = fifo_max_prio s"
  "totalLocks (upd_entry i f s) = totalLocks s" "totalCondWaits (upd_entry i f s) = totalCondWaits s"
  "totalConflicts (upd_entry i f s) = totalConflicts s" "calls (upd_entry i f s) = calls s"
  "sched_calls (upd_entry i f s) = sched_calls s" "clk (upd_entry i f s) = clk s"
  by (simp_all add: upd_entry_def)

lemma upd_entry_twice [simp]: "upd_entry i f (upd_entry i g s) = upd_entry i (\<lambda>m. f (g m)) s"
  by (simp add: upd_entry_def)

lemma mtx_upd [simp]: "mtx (upd_mtx i f s) j = (if j = i then f (mtx s i) else mtx s j)"
  by (simp add: upd_mtx_def)

lemma upd_mtx_frame [simp]:
  "re_cur (sync_vars (upd_mtx i f s)) = re_cur (sync_vars s)"
  "re_total (sync_vars (upd_mtx i f s)) = re_total (sync_vars s)"
  "nominal (upd_mtx i f s) = nominal s"
  "tsd (upd_mtx i f s) = tsd s" "cnd (upd_mtx i f s) = cnd s" "slf (upd_mtx i f s) = slf s"
  "rl (upd_mtx i f s) = rl s" "bufs (upd_mtx i f s) = bufs s"
  "fifo_min_prio (upd_mtx i f s) = fifo_min_prio s" "fifo_max_prio (upd_mtx i f s) = fifo_max_prio s"
  "totalLocks (upd_mtx i f s) = totalLocks s" "totalCondWaits (upd_mtx i f s) = totalCondWaits s"
  "totalConflicts (upd_mtx i f s) = totalConflicts s" "calls (upd_mtx i f s) = calls s"
  "sched_calls (upd_mtx i f s) = sched_calls s" "clk (upd_mtx i f s) = clk s"
  "entry_index (pool (upd_mtx i f s) j) = entry_index (pool s j)"
  by (simp_all add: upd_mtx_def)

lemma upd_mtx_upd_mtx [simp]: "upd_mtx i f (upd_mtx i g s) = upd_mtx i (\<lambda>m. f (g m)) s"
  by (simp add: upd_mtx_def)

lemma ticks_frame [simp]:
  "re_cur (sync_vars (ticks E s)) = re_cur (sync_vars s)"
  "re_total (sync_vars (ticks E s)) = re_total (sync_vars s)"
  "nominal (ticks E s) p = e_nominal E (clk s) p (nominal s p)" "tsd (ticks E s) = tsd s"
  "rl (ticks E s) = rl s" "bufs (ticks E s) = bufs s" "fifo_min_prio (ticks E s) = fifo_min_prio s"
  "fifo_max_prio (ticks E s) = fifo_max_prio s" "totalLocks (ticks E s) = totalLocks s"
  "totalCondWaits (ticks E s) = totalCondWaits s" "totalConflicts (ticks E s) = totalConflicts s"
  "calls (ticks E s) = calls s" "sched_calls (ticks E s) = sched_calls s"
  "clk (ticks E s) = Suc (clk s)"
  "mtx (ticks E s) i = e_mutex E (clk s) i (mtx s i)" "cnd (ticks E s) = e_cond E (clk s) (cnd s)"
  "slf (ticks E s) = e_self E (clk s) (slf s)"
  "entry_index (pool (ticks E s) i) = entry_index (pool s i)"
  by (simp_all add: ticks_def)

interpretation mc: futex_cell "mutex_cell E i" for E i
  by unfold_locales (simp_all add: mutex_cell_def)

interpretation cc: futex_cell "cond_cell E" for E
  by unfold_locales (simp_all add: cond_cell_def)

interpretation sc: futex_cell "self_cell E" for E
  by unfold_locales (simp_all add: self_cell_def)

lemma cell_sels [simp]:
  "c_rd (mutex_cell E i) s = m_lock (mtx s i)" "c_wr (mutex_cell E i) v s = set_lock i v s"
  "c_tick (mutex_cell E i) s = ticks E s" "c_sys (mutex_cell E i) f s = s\<lparr>calls := f # calls s\<rparr>"
  "c_rd (cond_cell E) s = c_lock (cnd s)" "c_wr (cond_cell E) v s = s\<lparr>cnd := (cnd s)\<lparr>c_lock := v\<rparr>\<rparr>"
  "c_tick (cond_cell E) s = ticks E s" "c_sys (cond_cell E) f s = s\<lparr>calls := f # calls s\<rparr>"
  "c_rd (self_cell E) s = p_lock (slf s)" "c_wr (self_cell E) v s = s\<lparr>slf := (slf s)\<lparr>p_lock := v\<rparr>\<rparr>"
  "c_tick (self_cell E) s = ticks E s" "c_sys (self_cell E) f s = s\<lparr>calls := f # calls s\<rparr>"
  by (simp_all add: mutex_cell_def cond_cell_def self_cell_def)

section \<open>Surroundings\<close>

text \<open>Nobody else acts.\<close>

definition quiet :: "envr \<Rightarrow> bool" where
  "quiet E \<longleftrightarrow> (\<forall>c i m. e_mutex E c i m = m) \<and> (\<forall>c v. e_cond E c v = v) \<and> (\<forall>c p. e_self E c p = p) \<and>
     (\<forall>c a v. e_nominal E c a v = v)"

lemma quiet_simps [simp]:
  "quiet E \<Longrightarrow> e_mutex E c i m = m" "quiet E \<Longrightarrow> e_cond E c v = v" "quiet E \<Longrightarrow> e_self E c p = p"
  "quiet E \<Longrightarrow> e_nominal E c a w = w"
  by (simp_all add: quiet_def)

lemma quiet_ticks: "quiet E \<Longrightarrow> ticks E s = s\<lparr>clk := Suc (clk s)\<rparr>"
  by (simp add: ticks_def)

lemma quiet_cells:
  assumes "quiet E"
  shows "quiet_cell (mutex_cell E i)" "quiet_cell (cond_cell E)" "quiet_cell (self_cell E)"
  by (unfold_locales, simp_all add: assms quiet_ticks upd_mtx_def upd_entry_def)+

text \<open>
  What the other threads leave alone: the kind of a live mutex, who this thread is, and that a
  free mutex has no owner, and that a published entry stays published. \<open>m_lock = 0\<close> is a mutex that nobody holds; every release resets the
  owner before it frees the lock word.
\<close>

definition free_unowned :: "mutex \<Rightarrow> bool" where
  "free_unowned m \<longleftrightarrow> (m_lock m = 0 \<longrightarrow> m_owner m = 0)"

definition fair_others :: "envr \<Rightarrow> bool" where
  "fair_others E \<longleftrightarrow>
     (\<forall>c i m. m_kind (e_mutex E c i m) = m_kind m) \<and>
     (\<forall>c i m. free_unowned m \<longrightarrow> free_unowned (e_mutex E c i m)) \<and>
     (\<forall>c p. p_tid (e_self E c p) = p_tid p \<and> p_tpp (e_self E c p) = p_tpp p) \<and>
     (\<forall>c a i. e_nominal E c a (Some i) = Some i)"

lemma quiet_fair: "quiet E \<Longrightarrow> fair_others E"
  by (simp add: fair_others_def)

lemma fair_ticks:
  assumes "fair_others E"
  shows "m_kind (mtx (ticks E s) i) = m_kind (mtx s i)" "p_tid (slf (ticks E s)) = p_tid (slf s)"
    "p_tpp (slf (ticks E s)) = p_tpp (slf s)"
    "free_unowned (mtx s i) \<Longrightarrow> free_unowned (mtx (ticks E s) i)"
    "nominal s a = Some j \<Longrightarrow> nominal (ticks E s) a = Some j"
  using assms by (simp_all add: fair_others_def)


text \<open>A quiet surrounding and a fresh process, for concrete runs.\<close>

definition calm :: envr where
  "calm = \<lparr>e_nominal = (\<lambda>_ _ v. v), e_mutex = (\<lambda>_ _ m. m), e_cond = (\<lambda>_ v. v), e_self = (\<lambda>_ p. p), e_futex_pi = (\<lambda>_ _ v. (v, 0)),
     e_tsc = (\<lambda>c. word_of_nat c), e_calloc = (\<lambda>_. True), e_prio_max = 99, e_prio_min = 1,
     e_getparam = (\<lambda>_. Inr 0), e_getscheduler = (\<lambda>_. Inr 0), e_setscheduler = (\<lambda>_ _. None),
     e_list_at = (\<lambda>i. 4096 + 64 * word_of_nat i), 
     e_frames = (\<lambda>_. \<lparr>f_frame = 0, f_top = 1, f_end = 0, f_prev = (\<lambda>a. a), f_caller = (\<lambda>_. 0)\<rparr>), e_wait = (\<lambda>_. 0), e_unspec = (\<lambda>_. 0)\<rparr>"

definition fresh_thread :: pthread where
  "fresh_thread = \<lparr>p_tid = 7, p_robust_head = 64, p_pending = 0, p_cleanup = 0, p_cancelhandling = 0,
     p_flags = 0, p_lock = 0, p_prio = 0, p_policy = 0, p_tpp = None, p_result = 0\<rparr>"

definition fresh :: nptl where
  "fresh = \<lparr>sync_vars = \<lparr>re_start = (\<lambda>_. \<lparr>real_mutex = zero_mutex, entry_index = 0, stack_count = 0,
         esp_offset = replicate 100 0, eip = replicate 100 0, stacks = replicate 100 (replicate 7 0)\<rparr>),
         re_total = 1000000, re_cur = 0\<rparr>,
     nominal = (\<lambda>_. None),
     tsd = (\<lambda>_. \<lparr>access_count = 0, fail_count = 0, cond_waits = 0, trylock_fail_count = 0,
         cond_futex_wait = 0, futex_wait = 0\<rparr>),
     cnd = \<lparr>c_lock = 0, c_futex = 0, c_total_seq = 0, c_wakeup_seq = 0, c_woken_seq = 0, c_mutex = 0,
         c_nwaiters = 0, c_broadcast_seq = 0\<rparr>,
     slf = fresh_thread, rl = \<lparr>l_next = (\<lambda>a. a), l_prev = (\<lambda>a. a)\<rparr>,
     bufs = (\<lambda>_. \<lparr>b_routine = 0, b_arg = 0, b_prev = 0\<rparr>), fifo_min_prio = -1, fifo_max_prio = -1,
     totalLocks = 0, totalCondWaits = 0, totalConflicts = 0, calls = [], sched_calls = [], clk = 0\<rparr>"

lemma calm_quiet [simp]: "quiet calm"
  by (simp add: quiet_def calm_def)

lemma calm_fair [simp]: "fair_others calm"
  by (rule quiet_fair) simp

lemma fresh_sels [simp]:
  "real_mutex (pool fresh i) = zero_mutex" "slf fresh = fresh_thread" "clk fresh = 0" "calls fresh = []"
  "nominal fresh a = None" "re_cur (sync_vars fresh) = 0" "re_total (sync_vars fresh) = 1000000" "sched_calls fresh = []" "totalLocks fresh = 0"
  by (simp_all add: fresh_def)

lemma zero_mutex_sels [simp]:
  "m_lock zero_mutex = 0" "m_count zero_mutex = 0" "m_owner zero_mutex = 0" "m_nusers zero_mutex = 0"
  "m_kind zero_mutex = 0" "m_spins zero_mutex = 0"
  by (simp_all add: zero_mutex_def)

end
