(* ===== verification/MutexManager.thy ===== *)
theory MutexManager
  imports NptlState
begin

unbundle bit_operations_syntax

text \<open>
  SyncPerf's own data about mutexes: \<open>source/mutex_manager.h\<close> and \<open>source/mutex_manager.cpp\<close>. A
  mutex of the program (the nominal mutex) holds in its first word the address of its entry of
  the pool, whose first member is the real mutex; each entry records the contexts the mutex was
  locked from; the counters are an array with one record per thread and entry.
  Shown: the addressing of the counters is injective and in bounds; a context is recorded at
  most once, with a terminated call stack; an entry that was published stays.
\<close>

section \<open>Entries\<close>

definition create_mutex :: "nptl \<Rightarrow> (nat, nptl) out" where
  "create_mutex s =
     (case get_next_index (sync_vars s) of
        Ret idx r \<Rightarrow>
          let s = s\<lparr>sync_vars := r\<rparr>; e = getEntry idx;
              s = upd_entry e (\<lambda>m. m\<lparr>stack_count := 0\<rparr>) s
          in Ret e (upd_entry e (\<lambda>m. m\<lparr>entry_index := idx\<rparr>) s)
      | Abort \<Rightarrow> Abort
      | Stuck \<Rightarrow> Stuck)"

definition is_my_mutex :: "u64 \<Rightarrow> nptl \<Rightarrow> bool" where
  "is_my_mutex p s \<longleftrightarrow> nominal s p \<noteq> None"

definition get_mutex :: "u64 \<Rightarrow> nptl \<Rightarrow> (nat, nptl) out" where
  "get_mutex p s = (case nominal s p of None \<Rightarrow> Abort | Some e \<Rightarrow> Ret e s)"

text \<open>The other threads may publish an entry just before the compare-and-swap.\<close>

definition setSyncEntry :: "envr \<Rightarrow> u64 \<Rightarrow> nat \<Rightarrow> nptl \<Rightarrow> bool \<times> nptl" where
  "setSyncEntry E p e s =
     (let expected = nominal s p
      in if \<not> is_my_mutex p s then
           let s = ticks E s
           in if nominal s p = expected then (True, s\<lparr>nominal := (nominal s)(p \<mapsto> e)\<rparr>) else (False, s)
         else (False, s))"

section \<open>Call stacks\<close>

fun bt_skip :: "nat \<Rightarrow> frames \<Rightarrow> u64 \<Rightarrow> u64" where
  "bt_skip 0 F cur = cur"
| "bt_skip (Suc n) F cur = (if cur < f_top F \<or> cur > f_end F then cur else bt_skip n F (f_prev F cur))"

fun bt_collect :: "nat \<Rightarrow> frames \<Rightarrow> u64 \<Rightarrow> u64 list" where
  "bt_collect 0 F cur = []"
| "bt_collect (Suc n) F cur =
     (if cur < f_top F \<or> cur > f_end F then []
      else if f_caller F cur = 0 \<or> cur = f_prev F cur then []
      else if cur AND 1 \<noteq> 0 then []
      else f_caller F cur # bt_collect n F (f_prev F cur))"

text \<open>Both functions write the addresses found and a terminating 0 into \<open>arr\<close>.\<close>

definition backtrace_from :: "nat \<Rightarrow> frames \<Rightarrow> u64 list \<Rightarrow> nat \<Rightarrow> nat \<times> u64 list" where
  "backtrace_from skip F arr sz =
     (let got = bt_collect sz F (bt_skip skip F (f_frame F));
          arr = got @ drop (length got) arr;
          found = (if length got > 1 then length got - 1 else length got)
      in (found, arr[found := 0]))"

definition do_backtrace :: "frames \<Rightarrow> u64 list \<Rightarrow> nat \<Rightarrow> nat \<times> u64 list" where
  "do_backtrace = backtrace_from 2"

definition back_trace :: "frames \<Rightarrow> u64 list \<Rightarrow> nat \<Rightarrow> nat \<times> u64 list" where
  "back_trace = backtrace_from 1"

definition MAX_CALL_STACK_DEPTH :: nat where "MAX_CALL_STACK_DEPTH = 6"
definition MAX_NUM_STACKS :: nat where "MAX_NUM_STACKS = 100"

text \<open>The search of the known contexts, then the new one.\<close>

definition known_context :: "mutex_t \<Rightarrow> u64 \<Rightarrow> bool" where
  "known_context m ret \<longleftrightarrow> list_ex (\<lambda>i. eip m ! i = ret) [0..<stack_count m]"

definition put_context :: "frames \<Rightarrow> u64 \<Rightarrow> u32 \<Rightarrow> mutex_t \<Rightarrow> mutex_t" where
  "put_context F ret esp m =
     (let k = stack_count m;
          m = m\<lparr>stacks := (stacks m)[k := snd (do_backtrace F (stacks m ! k) MAX_CALL_STACK_DEPTH)]\<rparr>;
          m = m\<lparr>eip := (eip m)[k := ret]\<rparr>;
          m = m\<lparr>esp_offset := (esp_offset m)[k := ucast esp]\<rparr>
      in m\<lparr>stack_count := k + 1\<rparr>)"

definition add_new_context :: "envr \<Rightarrow> nat \<Rightarrow> u64 \<Rightarrow> u32 \<Rightarrow> nptl \<Rightarrow> (i32, nptl) out" where
  "add_new_context E e ret esp s =
     (if known_context (pool s e) ret then Ret 0 s
      else assrt (stack_count (pool s e) < MAX_NUM_STACKS)
             (Ret 0 (upd_entry e (put_context (e_frames E (clk s)) ret esp) s)))"

section \<open>Counters\<close>

definition get_thread_mutex_data :: "u64 \<Rightarrow> nat \<Rightarrow> nat" where
  "get_thread_mutex_data mut_index thd_index =
     (let index = word_of_nat (thd_index * MAX_SYNC_ENTRIES) + mut_index in unat (index :: u64))"

definition upd_tsd :: "u64 \<Rightarrow> nat \<Rightarrow> (thread_mutex_t \<Rightarrow> thread_mutex_t) \<Rightarrow> nptl \<Rightarrow> nptl" where
  "upd_tsd mut_index thd_idx f s =
     s\<lparr>tsd := (tsd s)(get_thread_mutex_data mut_index thd_idx := f (tsd s (get_thread_mutex_data mut_index thd_idx)))\<rparr>"

definition inc_access_count :: "u64 \<Rightarrow> nat \<Rightarrow> nptl \<Rightarrow> nptl" where
  "inc_access_count mi t = upd_tsd mi t (\<lambda>d. d\<lparr>access_count := access_count d + 1\<rparr>)"

definition inc_fail_count :: "u64 \<Rightarrow> nat \<Rightarrow> nptl \<Rightarrow> nptl" where
  "inc_fail_count mi t = upd_tsd mi t (\<lambda>d. d\<lparr>fail_count := fail_count d + 1\<rparr>)"

definition inc_cond_wait_count :: "u64 \<Rightarrow> nat \<Rightarrow> nptl \<Rightarrow> nptl" where
  "inc_cond_wait_count mi t = upd_tsd mi t (\<lambda>d. d\<lparr>cond_waits := cond_waits d + 1\<rparr>)"

definition inc_trylock_fail_count :: "u64 \<Rightarrow> nat \<Rightarrow> nptl \<Rightarrow> nptl" where
  "inc_trylock_fail_count mi t s =
     upd_tsd mi t (\<lambda>d. d\<lparr>trylock_fail_count := trylock_fail_count d + 1\<rparr>)
       (upd_tsd mi t (\<lambda>d. d\<lparr>fail_count := fail_count d + 1\<rparr>) s)"

definition start_timestamp :: "envr \<Rightarrow> nptl \<Rightarrow> timeinfo" where
  "start_timestamp E s = start (e_tsc E (clk s))"

definition add_cond_wait_time :: "envr \<Rightarrow> u64 \<Rightarrow> nat \<Rightarrow> timeinfo \<Rightarrow> nptl \<Rightarrow> nptl" where
  "add_cond_wait_time E mi t st s =
     (let waits = get_elapsed2ms st (e_tsc E (clk s))
      in upd_tsd mi t (\<lambda>d. d\<lparr>cond_futex_wait := cond_futex_wait d + waits\<rparr>) s)"

definition add_futex_wait :: "envr \<Rightarrow> u64 \<Rightarrow> nat \<Rightarrow> timeinfo \<Rightarrow> nptl \<Rightarrow> nptl" where
  "add_futex_wait E mi t st s =
     (let waits = get_elapsed2ms st (e_tsc E (clk s))
      in upd_tsd mi t (\<lambda>d. d\<lparr>futex_wait := futex_wait d + waits\<rparr>) s)"


section \<open>Frames\<close>

lemma upd_tsd_frame [simp]:
  "sync_vars (upd_tsd mi t f s) = sync_vars s" "nominal (upd_tsd mi t f s) = nominal s"
  "cnd (upd_tsd mi t f s) = cnd s" "slf (upd_tsd mi t f s) = slf s" "rl (upd_tsd mi t f s) = rl s"
  "bufs (upd_tsd mi t f s) = bufs s" "clk (upd_tsd mi t f s) = clk s" "calls (upd_tsd mi t f s) = calls s"
  "totalLocks (upd_tsd mi t f s) = totalLocks s"
  by (simp_all add: upd_tsd_def)

lemmas counter_defs = inc_access_count_def inc_fail_count_def inc_cond_wait_count_def
  inc_trylock_fail_count_def add_cond_wait_time_def add_futex_wait_def Let_def

lemma counter_frame [simp]:
  "sync_vars (inc_access_count mi t s) = sync_vars s" "nominal (inc_access_count mi t s) = nominal s"
  "slf (inc_access_count mi t s) = slf s" "clk (inc_access_count mi t s) = clk s"
  "sync_vars (inc_fail_count mi t s) = sync_vars s" "nominal (inc_fail_count mi t s) = nominal s"
  "slf (inc_fail_count mi t s) = slf s" "clk (inc_fail_count mi t s) = clk s"
  "calls (inc_fail_count mi t s) = calls s"
  "sync_vars (add_futex_wait E mi t st s) = sync_vars s" "nominal (add_futex_wait E mi t st s) = nominal s"
  "slf (add_futex_wait E mi t st s) = slf s" "clk (add_futex_wait E mi t st s) = clk s"
  "sync_vars (inc_trylock_fail_count mi t s) = sync_vars s" "slf (inc_trylock_fail_count mi t s) = slf s"
  "nominal (inc_trylock_fail_count mi t s) = nominal s"
  by (simp_all add: counter_defs)

section \<open>The address of a counter\<close>

lemma counter_at:
  assumes "mi < word_of_nat MAX_SYNC_ENTRIES" and "t < MAX_THREADS"
  shows "get_thread_mutex_data mi t = t * MAX_SYNC_ENTRIES + unat mi"
proof -
  have mi: "unat mi < 1000000" using assms(1) by (simp add: word_less_nat_alt MAX_SYNC_ENTRIES_def)
  have t: "t * 1000000 < 2 ^ 32" using assms(2) by (simp add: MAX_THREADS_def)
  have "unat (word_of_nat (t * 1000000) :: u64) = t * 1000000"
    using t by (simp add: unat_of_nat del: of_nat_mult)
  then show ?thesis
    using mi t by (simp add: get_thread_mutex_data_def Let_def MAX_SYNC_ENTRIES_def unat_plus_if' del: of_nat_mult)
qed

lemma counter_inj:
  assumes "a < n" and "a' < n" and "t * n + a = t' * n + (a' :: nat)"
  shows "t = t' \<and> a = a'"
proof -
  have "(t * n + a) div n = t" "(t' * n + a') div n = t'" using assms(1,2) by simp_all
  with assms(3) show ?thesis by (metis add_left_cancel)
qed

text \<open>
  Counters do not collide. For thread indices below \<open>MAX_THREADS\<close> and entry indices below
  \<open>MAX_SYNC_ENTRIES\<close>, the product in \<open>get_thread_mutex_data\<close> fits a C \<open>int\<close>, the record addressed
  lies inside the array allocated at start-up, and two different pairs of thread and entry have
  different records; so counting an access of one pair changes that pair's record only.
\<close>

lemma counters_separate:
  assumes "mi < word_of_nat MAX_SYNC_ENTRIES" and "t < MAX_THREADS"
    and "mi' < word_of_nat MAX_SYNC_ENTRIES" and "t' < MAX_THREADS"
  shows "t * MAX_SYNC_ENTRIES < 2 ^ 31 \<and> get_thread_mutex_data mi t < MAX_SYNC_ENTRIES * MAX_THREADS \<and>
    access_count (tsd (inc_access_count mi t s) (get_thread_mutex_data mi' t')) =
      access_count (tsd s (get_thread_mutex_data mi' t')) + (if (mi', t') = (mi, t) then 1 else 0)"
proof -
  have mi: "unat mi < MAX_SYNC_ENTRIES" "unat mi' < MAX_SYNC_ENTRIES"
    using assms(1,3) by (simp_all add: word_less_nat_alt MAX_SYNC_ENTRIES_def)
  have "t * MAX_SYNC_ENTRIES < 2 ^ 31" using assms(2) by (simp add: MAX_THREADS_def MAX_SYNC_ENTRIES_def)
  moreover have "get_thread_mutex_data mi t < MAX_SYNC_ENTRIES * MAX_THREADS"
    using mi(1) assms(2) by (simp add: counter_at [OF assms(1,2)] MAX_THREADS_def MAX_SYNC_ENTRIES_def)
  moreover have "get_thread_mutex_data mi t = get_thread_mutex_data mi' t' \<longleftrightarrow> (mi', t') = (mi, t)"
  proof
    assume "get_thread_mutex_data mi t = get_thread_mutex_data mi' t'"
    then have "t * MAX_SYNC_ENTRIES + unat mi = t' * MAX_SYNC_ENTRIES + unat mi'"
      by (simp only: counter_at [OF assms(1,2)] counter_at [OF assms(3,4)])
    from counter_inj [OF mi this] have "t = t'" "mi = mi'" by (simp_all only: word_unat_eq_iff)
    then show "(mi', t') = (mi, t)" by simp
  qed simp
  ultimately show ?thesis by (auto simp: counter_defs upd_tsd_def)
qed

section \<open>Call stacks and contexts\<close>

lemma bt_collect_length: "length (bt_collect n F cur) \<le> n"
  by (induction n F cur rule: bt_collect.induct) auto

lemma bt_collect_nonzero: "0 \<notin> set (bt_collect n F cur)"
  by (induction n F cur rule: bt_collect.induct) auto

text \<open>A stack as the report reads it: addresses up to the first 0.\<close>

definition terminated :: "u64 list \<Rightarrow> nat \<Rightarrow> bool" where
  "terminated arr k \<longleftrightarrow> k < length arr \<and> arr ! k = 0 \<and> (\<forall>j<k. arr ! j \<noteq> 0)"

lemma backtrace_terminated:
  assumes "sz < length arr" and "backtrace_from skip F arr sz = (k, arr')"
  shows "terminated arr' k \<and> k \<le> sz \<and> length arr' = length arr"
proof -
  define got where "got = bt_collect sz F (bt_skip skip F (f_frame F))"
  have len: "length got \<le> sz" by (simp add: got_def bt_collect_length)
  have nz: "got ! j \<noteq> 0" if "j < length got" for j
    using that bt_collect_nonzero [of sz F "bt_skip skip F (f_frame F)"] by (metis got_def nth_mem)
  have k: "k = (if length got > 1 then length got - 1 else length got)"
    and arr': "arr' = (got @ drop (length got) arr)[k := 0]"
    using assms(2) unfolding backtrace_from_def Let_def got_def [symmetric] by auto
  have "k \<le> length got" using k by simp
  moreover have "length arr' = length arr" using arr' len assms(1) by simp
  moreover have "arr' ! j \<noteq> 0" if "j < k" for j
    using that \<open>k \<le> length got\<close> nz [of j] arr' by (simp add: nth_append)
  moreover have "arr' ! k = 0" using arr' \<open>k \<le> length got\<close> len assms(1) by simp
  ultimately show ?thesis using len assms(1) by (simp add: terminated_def)
qed

definition ctx_inv :: "mutex_t \<Rightarrow> bool" where
  "ctx_inv m \<longleftrightarrow> stack_count m \<le> MAX_NUM_STACKS \<and> length (eip m) = MAX_NUM_STACKS \<and>
     length (esp_offset m) = MAX_NUM_STACKS \<and> length (stacks m) = MAX_NUM_STACKS \<and>
     (\<forall>k<MAX_NUM_STACKS. length (stacks m ! k) = MAX_CALL_STACK_DEPTH + 1) \<and>
     distinct (take (stack_count m) (eip m)) \<and>
     (\<forall>k < stack_count m. \<exists>d\<le>MAX_CALL_STACK_DEPTH. terminated (stacks m ! k) d)"

lemma known_context_iff:
  "ctx_inv m \<Longrightarrow> known_context m ret \<longleftrightarrow> ret \<in> set (take (stack_count m) (eip m))"
  by (auto simp: known_context_def list_ex_iff in_set_conv_nth ctx_inv_def)

lemma put_context_inv:
  assumes "ctx_inv m" and "\<not> known_context m ret" and "stack_count m < MAX_NUM_STACKS"
  shows "ctx_inv (put_context F ret esp m) \<and> known_context (put_context F ret esp m) ret"
proof -
  let ?k = "stack_count m" and ?m = "put_context F ret esp m"
  obtain d arr where b: "do_backtrace F (stacks m ! ?k) MAX_CALL_STACK_DEPTH = (d, arr)" by fastforce
  have "MAX_CALL_STACK_DEPTH < length (stacks m ! ?k)" using assms(1,3) by (simp add: ctx_inv_def)
  from backtrace_terminated [OF this, of 2 F d arr] b
  have t: "terminated arr d" "d \<le> MAX_CALL_STACK_DEPTH" "length arr = MAX_CALL_STACK_DEPTH + 1"
    using assms(1,3) by (simp_all add: do_backtrace_def ctx_inv_def)
  have m: "stack_count ?m = Suc ?k" "eip ?m = (eip m)[?k := ret]"
    "esp_offset ?m = (esp_offset m)[?k := ucast esp]" "stacks ?m = (stacks m)[?k := arr]"
    using b by (simp_all add: put_context_def Let_def)
  have take_eip: "take (Suc ?k) (eip ?m) = take ?k (eip m) @ [ret]"
    using assms(1,3) m(2) by (simp add: ctx_inv_def take_Suc_conv_app_nth)
  have "ret \<notin> set (take ?k (eip m))" using assms(1,2) known_context_iff by blast
  then have "distinct (take (Suc ?k) (eip ?m))" using assms(1) take_eip by (simp add: ctx_inv_def)
  moreover have "\<exists>d\<le>MAX_CALL_STACK_DEPTH. terminated (stacks ?m ! j) d" if "j < Suc ?k" for j
    using that t assms(1,3) m(4) by (auto simp: ctx_inv_def nth_list_update)
  ultimately have inv: "ctx_inv ?m"
    using assms(1,3) m t(3) by (auto simp: ctx_inv_def nth_list_update)
  with take_eip m(1) show ?thesis by (simp add: known_context_iff)
qed

text \<open>
  C33 (each context once, with a terminated stack). \<open>add_new_context\<close> keeps the invariant of an
  entry: at most \<open>MAX_NUM_STACKS\<close> contexts, all with different return addresses, each with a call
  stack of at most \<open>MAX_CALL_STACK_DEPTH\<close> nonzero addresses followed by a 0 inside its array.
  Afterwards the context is known and a known context changes nothing; the assertion fails only
  for a new context of a full entry.
\<close>

theorem add_new_context_inv:
  assumes "ctx_inv (pool s e)"
  shows "case add_new_context E e ret esp s of
      Ret r s' \<Rightarrow> r = 0 \<and> ctx_inv (pool s' e) \<and> known_context (pool s' e) ret \<and>
        (known_context (pool s e) ret \<longrightarrow> s' = s) \<and> (\<forall>j. mtx s' j = mtx s j)
    | Abort \<Rightarrow> \<not> known_context (pool s e) ret \<and> stack_count (pool s e) = MAX_NUM_STACKS
    | Stuck \<Rightarrow> False"
proof (cases "known_context (pool s e) ret")
  case True
  with assms show ?thesis by (simp add: add_new_context_def)
next
  case new: False
  show ?thesis
  proof (cases "stack_count (pool s e) < MAX_NUM_STACKS")
    case True
    have "real_mutex (put_context F ret esp m) = real_mutex m" for F m
      by (simp add: put_context_def Let_def)
    with new True put_context_inv [OF assms new True] show ?thesis
      by (simp add: add_new_context_def)
  next
    case False
    with assms new show ?thesis by (simp add: add_new_context_def ctx_inv_def)
  qed
qed

lemma fresh_ctx: "ctx_inv (pool fresh e)"
  by (simp add: ctx_inv_def fresh_def MAX_NUM_STACKS_def MAX_CALL_STACK_DEPTH_def)

theorem add_new_context_inv_witness:
  "case add_new_context calm 0 99 8 fresh of
      Ret r s' \<Rightarrow> ctx_inv (pool s' 0) \<and> known_context (pool s' 0) 99 | _ \<Rightarrow> False"
proof -
  have "stack_count (pool fresh 0) \<noteq> MAX_NUM_STACKS" by (simp add: fresh_def MAX_NUM_STACKS_def)
  then show ?thesis
    using add_new_context_inv [OF fresh_ctx [of 0], of 99 calm 8] by (auto split: out.splits)
qed

section \<open>Publishing an entry\<close>

lemma create_mutex_Ret:
  assumes "create_mutex s = Ret e s'"
  shows "mtx s' = mtx s" "slf s' = slf s" "nominal s' = nominal s" "entry_index (pool s' e) = word_of_nat e"
    "stack_count (pool s' e) = 0" "clk s' = clk s" "tsd s' = tsd s"
proof -
  from assms obtain idx r where i: "get_next_index (sync_vars s) = Ret idx r"
    and e: "e = unat idx" and s': "s' = upd_entry e (\<lambda>m. m\<lparr>entry_index := idx\<rparr>)
      (upd_entry e (\<lambda>m. m\<lparr>stack_count := 0\<rparr>) (s\<lparr>sync_vars := r\<rparr>))"
    by (auto simp: create_mutex_def getEntry_def Let_def split: out.splits)
  have r: "re_start r = re_start (sync_vars s)" using get_next_index_frame [OF i] by simp
  show "mtx s' = mtx s" using r by (auto simp: s')
  show "slf s' = slf s" "nominal s' = nominal s" "entry_index (pool s' e) = word_of_nat e"
    "stack_count (pool s' e) = 0" "clk s' = clk s" "tsd s' = tsd s"
    using e by (simp_all add: s' upd_entry_def)
qed

lemma setSyncEntry_publishes:
  assumes "setSyncEntry E p e s = (b, s')"
  shows "nominal s' p \<noteq> None" "b \<Longrightarrow> nominal s' p = Some e"
  using assms by (auto simp: setSyncEntry_def is_my_mutex_def Let_def split: if_splits)

end
