(* ===== verification/RobustList.thy ===== *)
theory RobustList
  imports DList NptlState
begin

unbundle bit_operations_syntax

text \<open>
  The robust mutex list of a thread: \<open>ENQUEUE_MUTEX_BOTH\<close> and \<open>DEQUEUE_MUTEX\<close> of
  \<open>source/descr.h\<close> (the version with \<open>__PTHREAD_MUTEX_HAVE_PREV\<close>). A node is the address of a
  \<open>__next\<close> field; the links point at those, and bit 0 of a next link marks a priority inheriting
  mutex. Shown: apart from the marks the links are a doubly linked ring through the head of the
  thread, and the macros insert and remove one mutex of it.
\<close>

definition untag :: "u64 \<Rightarrow> u64" where
  "untag a = a AND NOT 1"

definition ENQUEUE_MUTEX_BOTH :: "u64 \<Rightarrow> u64 \<Rightarrow> u64 \<Rightarrow> links \<Rightarrow> links" where
  "ENQUEUE_MUTEX_BOTH val mx hd_at h =
     (let nx = untag (l_next h hd_at);
          h = h\<lparr>l_prev := (l_prev h)(nx := mx)\<rparr>;
          h = h\<lparr>l_next := (l_next h)(mx := l_next h hd_at)\<rparr>;
          h = h\<lparr>l_prev := (l_prev h)(mx := hd_at)\<rparr>
      in h\<lparr>l_next := (l_next h)(hd_at := mx OR val)\<rparr>)"

definition DEQUEUE_MUTEX :: "u64 \<Rightarrow> links \<Rightarrow> links" where
  "DEQUEUE_MUTEX mx h =
     (let nx = untag (l_next h mx);
          h = h\<lparr>l_prev := (l_prev h)(nx := l_prev h mx)\<rparr>;
          pv = untag (l_prev h mx);
          h = h\<lparr>l_next := (l_next h)(pv := l_next h mx)\<rparr>;
          h = h\<lparr>l_prev := (l_prev h)(mx := 0)\<rparr>
      in h\<lparr>l_next := (l_next h)(mx := 0)\<rparr>)"

definition ENQUEUE_MUTEX :: "u64 \<Rightarrow> u64 \<Rightarrow> links \<Rightarrow> links" where
  "ENQUEUE_MUTEX = ENQUEUE_MUTEX_BOTH 0"

definition ENQUEUE_MUTEX_PI :: "u64 \<Rightarrow> u64 \<Rightarrow> links \<Rightarrow> links" where
  "ENQUEUE_MUTEX_PI = ENQUEUE_MUTEX_BOTH 1"

section \<open>The links represent a list\<close>

definition aligned :: "u64 \<Rightarrow> bool" where
  "aligned a \<longleftrightarrow> even a"

definition rlist :: "links \<Rightarrow> u64 \<Rightarrow> u64 list \<Rightarrow> bool" where
  "rlist h l xs \<longleftrightarrow> ring (\<lambda>a. untag (l_next h a)) (l_prev h) l xs \<and> (\<forall>a \<in> set (l # xs). aligned a)"

lemma untag_tagged:
  assumes "aligned a" and "b = 0 \<or> b = 1"
  shows "untag (a OR b) = a"
proof (rule bit_word_eqI)
  fix n assume "n < LENGTH(64)"
  then show "bit (untag (a OR b)) n = bit a n"
    using assms by (cases "n = 0") (auto simp: untag_def aligned_def bit_simps bit_0 even_and_iff)
qed

lemma untag_aligned: "aligned a \<Longrightarrow> untag a = a"
  using untag_tagged [of a 0] by simp

lemma rlist_enqueue:
  assumes "rlist h l xs" and "m \<notin> set (l # xs)" and "aligned m" and "b = 0 \<or> b = 1"
  shows "rlist (ENQUEUE_MUTEX_BOTH b m l h) l (m # xs)"
proof -
  let ?n = "\<lambda>a. untag (l_next h a)"
  have "ring (?n(m := ?n l, l := m)) ((l_prev h)(m := l, ?n l := m)) l (m # xs)"
    using ring_insert [of ?n "l_prev h" l xs m] assms by (simp add: rlist_def)
  then have "ring (\<lambda>a. untag (l_next (ENQUEUE_MUTEX_BOTH b m l h) a))
      (l_prev (ENQUEUE_MUTEX_BOTH b m l h)) l (m # xs)"
  proof (rule ring_cong)
    have nl: "?n l \<noteq> m"
      using assms(1,2) dpath_first [of ?n "l_prev h" l xs l] by (cases xs) (auto simp: rlist_def ring_def)
    fix x assume "x \<in> set (l # m # xs)"
    with assms nl show "untag (l_next (ENQUEUE_MUTEX_BOTH b m l h) x) = (?n(m := ?n l, l := m)) x \<and>
        l_prev (ENQUEUE_MUTEX_BOTH b m l h) x = ((l_prev h)(m := l, ?n l := m)) x"
      by (auto simp: ENQUEUE_MUTEX_BOTH_def Let_def untag_tagged)
  qed
  with assms show ?thesis by (simp add: rlist_def)
qed

lemma rlist_dequeue:
  assumes "rlist h l (xs @ m # ys)"
  shows "rlist (DEQUEUE_MUTEX m h) l (xs @ ys)"
proof -
  let ?n = "\<lambda>a. untag (l_next h a)" and ?p = "l_prev h"
  have r: "ring ?n ?p l (xs @ m # ys)" using assms by (simp add: rlist_def)
  have left: "dpath ?n ?p l xs m" and right: "dpath ?n ?p m ys l" and dis: "distinct (l # xs @ m # ys)"
    using r by (simp_all add: ring_def dpath_append)
  have pm: "?p m = last (l # xs)" using dpath_last [OF left] by simp
  then have pv: "untag (?p m) = ?p m" using assms by (auto simp: rlist_def intro!: untag_aligned)
  have "?n m = hd (ys @ [l])" using dpath_first [OF right] by simp
  then have nm: "?n m \<noteq> m" using dis by (cases ys) auto
  have pm': "?p m \<noteq> m" using pm dis by auto
  have "ring (?n(?p m := ?n m)) (?p(?n m := ?p m)) l (xs @ ys)" using ring_remove [OF r] .
  then have "ring (\<lambda>a. untag (l_next (DEQUEUE_MUTEX m h) a)) (l_prev (DEQUEUE_MUTEX m h)) l (xs @ ys)"
  proof (rule ring_cong)
    fix x assume "x \<in> set (l # xs @ ys)"
    then have "x \<noteq> m" using dis by auto
    then show "untag (l_next (DEQUEUE_MUTEX m h) x) = (?n(?p m := ?n m)) x \<and>
        l_prev (DEQUEUE_MUTEX m h) x = (?p(?n m := ?p m)) x"
      using pv nm by (auto simp: DEQUEUE_MUTEX_def Let_def)
  qed
  with assms show ?thesis by (auto simp: rlist_def)
qed

interpretation rq: linked_ring rlist "ENQUEUE_MUTEX_BOTH (if pi_bit then 1 else 0)" DEQUEUE_MUTEX aligned
  for pi_bit
proof unfold_locales
  show "distinct (l # xs)" if "rlist h l xs" for h l xs
    using that by (simp add: rlist_def ring_def)
  show "rlist (ENQUEUE_MUTEX_BOTH (if pi_bit then 1 else 0) m l h) l (m # xs)"
    if "rlist h l xs" "m \<notin> set (l # xs)" "aligned m" for h l xs m
    using rlist_enqueue [OF that, of "if pi_bit then 1 else 0"] by simp
qed (rule rlist_dequeue)

end
