(* ===== verification/Tpp.thy ===== *)
theory Tpp
  imports NptlState "HOL-Library.Multiset"
begin

unbundle bit_operations_syntax

text \<open>
  Thread priority protection: \<open>source/tpp.c\<close>. A thread that holds priority protected mutexes
  must run at the highest of their ceilings; \<open>priomap\<close> counts the held mutexes per ceiling and
  \<open>priomax\<close> is the highest ceiling with a nonzero count.
  Shown: the two fields refine the multiset of the ceilings held (\<open>tpp_holds\<close>), changing the
  priority adds and removes one ceiling of it, the scheduler is called with the new maximum,
  and the error paths.
\<close>

section \<open>Definitions\<close>

definition init_sched_fifo_prio :: "envr \<Rightarrow> nptl \<Rightarrow> nptl" where
  "init_sched_fifo_prio E s =
     (let s = s\<lparr>fifo_max_prio := e_prio_max E\<rparr> in s\<lparr>fifo_min_prio := e_prio_min E\<rparr>)"

abbreviation set_tpp :: "priority_protection_data option \<Rightarrow> nptl \<Rightarrow> nptl" where
  "set_tpp t s \<equiv> s\<lparr>slf := (slf s)\<lparr>p_tpp := t\<rparr>\<rparr>"

text \<open>Lines 58 to 79: the data of the thread, allocated at the first use.\<close>

definition tpp_alloc :: "envr \<Rightarrow> nptl \<Rightarrow> (priority_protection_data option, nptl) out" where
  "tpp_alloc E s =
     (case p_tpp (slf s) of
        Some t \<Rightarrow> Ret (Some t) s
      | None \<Rightarrow>
          let s = (if fifo_min_prio s = -1 \<or> fifo_max_prio s = -1 then init_sched_fifo_prio E s else s)
          in if e_calloc E (clk s)
             then let t = \<lparr>priomax = fifo_min_prio s - 1,
                        priomap = replicate (nat (fifo_max_prio s - fifo_min_prio s + 1)) 0\<rparr>
                  in Ret (Some t) (set_tpp (Some t) s)
             else Ret None s)"

text \<open>The search of lines 105 to 109, downwards from the entry \<open>k - 1\<close> of the map.\<close>

fun tpp_scan :: "u32 list \<Rightarrow> int \<Rightarrow> nat \<Rightarrow> int" where
  "tpp_scan pm fmin 0 = fmin - 1"
| "tpp_scan pm fmin (Suc k) = (if pm ! k \<noteq> 0 then fmin + int k else tpp_scan pm fmin k)"

text \<open>Lines 88 to 111: the counts, and the new maximum; \<open>None\<close> when a count would overflow.\<close>

definition tpp_count ::
  "int \<Rightarrow> priority_protection_data \<Rightarrow> int \<Rightarrow> int \<Rightarrow> (priority_protection_data \<times> int) option" where
  "tpp_count fmin t prev new =
     (let ix = (\<lambda>p. nat (p - fmin)); newpriomax = priomax t in
      if new \<noteq> -1 \<and> priomap t ! ix new + 1 = 0 then None
      else
        let (t, newpriomax) =
              (if new \<noteq> -1
               then (t\<lparr>priomap := (priomap t)[ix new := priomap t ! ix new + 1]\<rparr>,
                     if new > priomax t then new else newpriomax)
               else (t, newpriomax));
            (t, newpriomax) =
              (if prev \<noteq> -1
               then let t = t\<lparr>priomap := (priomap t)[ix prev := priomap t ! ix prev - 1]\<rparr>
                    in (t, if priomap t ! ix prev = 0 \<and> priomax t = prev \<and> prev > new
                           then tpp_scan (priomap t) fmin (ix prev) else newpriomax)
               else (t, newpriomax))
        in Some (t, newpriomax))"

text \<open>Reading the scheduling parameters and the policy when they are not known yet (lines 123 to
  138, and 168 to 184): the error number if the call fails.\<close>

definition tpp_sched_get :: "envr \<Rightarrow> nptl \<Rightarrow> i32 option \<times> nptl" where
  "tpp_sched_get E s =
     (if p_flags (slf s) AND ATTR_FLAG_SCHED_SET = 0
      then case e_getparam E (clk s) of
             Inl e \<Rightarrow> (Some e, s)
           | Inr prio \<Rightarrow> (None, s\<lparr>slf := (slf s)\<lparr>p_prio := prio,
                 p_flags := p_flags (slf s) OR ATTR_FLAG_SCHED_SET\<rparr>\<rparr>)
      else (None, s))"

definition tpp_policy_get :: "envr \<Rightarrow> nptl \<Rightarrow> i32 option \<times> nptl" where
  "tpp_policy_get E s =
     (if p_flags (slf s) AND ATTR_FLAG_POLICY_SET = 0
      then case e_getscheduler E (clk s) of
             Inl e \<Rightarrow> (Some e, s\<lparr>slf := (slf s)\<lparr>p_policy := -1\<rparr>\<rparr>)
           | Inr pol \<Rightarrow> (None, s\<lparr>slf := (slf s)\<lparr>p_policy := pol,
                 p_flags := p_flags (slf s) OR ATTR_FLAG_POLICY_SET\<rparr>\<rparr>)
      else (None, s))"

text \<open>A later error number replaces an earlier one.\<close>

definition later :: "i32 option \<Rightarrow> i32 option \<Rightarrow> i32" where
  "later r1 r2 = (case r2 of Some e \<Rightarrow> e | None \<Rightarrow> (case r1 of Some e \<Rightarrow> e | None \<Rightarrow> 0))"

text \<open>Lines 140 to 150.\<close>

definition tpp_setscheduler :: "envr \<Rightarrow> int \<Rightarrow> int \<Rightarrow> i32 \<Rightarrow> nptl \<Rightarrow> i32 \<times> nptl" where
  "tpp_setscheduler E old_priomax newpriomax result s =
     (if result = 0 then
        let sp = p_prio (slf s) in
        if sp < newpriomax \<or> sp < old_priomax then
          let sp = (if sp < newpriomax then newpriomax else sp);
              s = s\<lparr>sched_calls := sp # sched_calls s\<rparr>
          in case e_setscheduler E (clk s) sp of None \<Rightarrow> (result, s) | Some e \<Rightarrow> (e, s)
        else (result, s)
      else (result, s))"

definition set_priomax :: "int \<Rightarrow> nptl \<Rightarrow> nptl" where
  "set_priomax v s = s\<lparr>slf := (slf s)\<lparr>p_tpp := map_option (\<lambda>t. t\<lparr>priomax := v\<rparr>) (p_tpp (slf s))\<rparr>\<rparr>"

definition prio_ok :: "nptl \<Rightarrow> int \<Rightarrow> bool" where
  "prio_ok s p \<longleftrightarrow> p = -1 \<or> p \<ge> fifo_min_prio s \<and> p \<le> fifo_max_prio s"

text \<open>\<open>__pthread_tpp_change_priority\<close>; \<open>n\<close> bounds the rounds of the descriptor's lock.\<close>

definition tpp_change_priority :: "nat \<Rightarrow> envr \<Rightarrow> int \<Rightarrow> int \<Rightarrow> nptl \<Rightarrow> (i32, nptl) out" where
  "tpp_change_priority n E prev new s =
     bnd (tpp_alloc E s) (\<lambda>t s.
       case t of
         None \<Rightarrow> Ret ENOMEM s
       | Some t \<Rightarrow>
           assrt (prio_ok s new) (assrt (prio_ok s prev)
             (case tpp_count (fifo_min_prio s) t prev new of
                None \<Rightarrow> Ret EAGAIN s
              | Some (t', newpriomax) \<Rightarrow>
                  let s = set_tpp (Some t') s in
                  if priomax t = newpriomax then Ret 0 s
                  else bnd (lll_lock n (self_cell E) True LLL_PRIVATE s) (\<lambda>_ s.
                    let s = set_priomax newpriomax s;
                        (r1, s) = tpp_sched_get E s;
                        (r2, s) = tpp_policy_get E s;
                        (result, s) = tpp_setscheduler E (priomax t) newpriomax (later r1 r2) s
                    in Ret result (lll_unlock (self_cell E) True LLL_PRIVATE s)))))"

definition current_priority :: "nat \<Rightarrow> envr \<Rightarrow> nptl \<Rightarrow> (int, nptl) out" where
  "current_priority n E s =
     (if p_flags (slf s) AND (ATTR_FLAG_POLICY_SET OR ATTR_FLAG_SCHED_SET)
           = ATTR_FLAG_POLICY_SET OR ATTR_FLAG_SCHED_SET
      then Ret (p_prio (slf s)) s
      else bnd (lll_lock n (self_cell E) True LLL_PRIVATE s) (\<lambda>_ s.
        let (r1, s) = tpp_sched_get E s;
            (r2, s) = tpp_policy_get E s;
            result = (if r1 = None \<and> r2 = None then p_prio (slf s) else -1)
        in Ret result (lll_unlock (self_cell E) True LLL_PRIVATE s)))"


section \<open>The multiset of ceilings held\<close>

definition top :: "int \<Rightarrow> int multiset \<Rightarrow> int" where
  "top fmin M = Max (insert (fmin - 1) (set_mset M))"

definition tpp_holds :: "int \<Rightarrow> int \<Rightarrow> priority_protection_data \<Rightarrow> int multiset \<Rightarrow> bool" where
  "tpp_holds fmin fmax t M \<longleftrightarrow>
     length (priomap t) = nat (fmax - fmin + 1) \<and> set_mset M \<subseteq> {fmin..fmax} \<and>
     (\<forall>c \<in> {fmin..fmax}. unat (priomap t ! nat (c - fmin)) = count M c) \<and>
     priomax t = top fmin M"

lemma top_finite [simp]: "finite (insert (fmin - 1) (set_mset M))"
  by simp

lemma top_ge: "c \<in># M \<Longrightarrow> c \<le> top fmin M"
  by (simp add: top_def)

lemma top_eqI:
  assumes "\<And>c. c \<in># M \<Longrightarrow> c \<le> m" and "fmin - 1 \<le> m" and "m = fmin - 1 \<or> m \<in># M"
  shows "top fmin M = m"
  unfolding top_def by (rule Max_eqI) (use assms in auto)

lemma top_in: "top fmin M = fmin - 1 \<or> top fmin M \<in># M"
  using Max_in [of "insert (fmin - 1) (set_mset M)"] by (auto simp: top_def)

lemma top_lower: "fmin - 1 \<le> top fmin M"
  by (simp add: top_def)

lemma top_add: "top fmin (add_mset c M) = max (top fmin M) c"
  by (simp add: top_def insert_commute [of _ c] max.commute)

lemma tpp_scan_spec:
  "(\<forall>c. fmin \<le> c \<and> c < fmin + int k \<and> pm ! nat (c - fmin) \<noteq> 0 \<longrightarrow> c \<le> tpp_scan pm fmin k) \<and>
   fmin - 1 \<le> tpp_scan pm fmin k \<and> tpp_scan pm fmin k < fmin + int k \<and>
   (tpp_scan pm fmin k = fmin - 1 \<or> pm ! nat (tpp_scan pm fmin k - fmin) \<noteq> 0)"
proof (induction k)
  case 0
  show ?case by simp
next
  case (Suc k)
  show ?case
  proof (cases "pm ! k \<noteq> 0")
    case True
    then show ?thesis by simp
  next
    case False
    have "c < fmin + int k" if "c < fmin + int (Suc k)" "pm ! nat (c - fmin) \<noteq> 0" for c
    proof -
      have "c \<noteq> fmin + int k" using that(2) False by auto
      with that(1) show ?thesis by simp
    qed
    with False Suc show ?thesis by auto
  qed
qed

text \<open>The map after one more count, and after one less.\<close>

lemma counts_inc:
  assumes "\<forall>c \<in> {fmin..fmax}. unat (pm ! nat (c - fmin)) = count M c"
    and "new \<in> {fmin..fmax}" and "length pm = nat (fmax - fmin + 1)"
    and "pm ! nat (new - fmin) + 1 \<noteq> (0 :: u32)"
  shows "\<forall>c \<in> {fmin..fmax}.
    unat (pm[nat (new - fmin) := pm ! nat (new - fmin) + 1] ! nat (c - fmin)) = count (add_mset new M) c"
proof
  fix c assume c: "c \<in> {fmin..fmax}"
  have "unat (pm ! nat (new - fmin) + 1) = unat (pm ! nat (new - fmin)) + 1"
    using assms(4) unatSuc [of "pm ! nat (new - fmin)"] by (simp add: add.commute)
  with assms(1-3) c show "unat (pm[nat (new - fmin) := pm ! nat (new - fmin) + 1] ! nat (c - fmin))
      = count (add_mset new M) c"
    by (auto simp: nth_list_update)
qed

lemma counts_dec:
  assumes "\<forall>c \<in> {fmin..fmax}. unat (pm ! nat (c - fmin)) = count M c"
    and "prev \<in># M" and "prev \<in> {fmin..fmax}" and "length pm = nat (fmax - fmin + 1)"
  shows "\<forall>c \<in> {fmin..fmax}.
    unat ((pm :: u32 list)[nat (prev - fmin) := pm ! nat (prev - fmin) - 1] ! nat (c - fmin)) = count (M - {#prev#}) c"
proof
  fix c assume c: "c \<in> {fmin..fmax}"
  have "0 < unat (pm ! nat (prev - fmin))" using assms(1-3) by simp
  then have "unat (pm ! nat (prev - fmin) - 1) = unat (pm ! nat (prev - fmin)) - 1"
    by (metis less_numeral_extra(3) unat_0 unat_minus_one)
  with assms c show "unat (pm[nat (prev - fmin) := pm ! nat (prev - fmin) - 1] ! nat (c - fmin))
      = count (M - {#prev#}) c"
    by (auto simp: nth_list_update)
qed


text \<open>Adding the new ceiling and then removing the previous one.\<close>

definition after_change :: "int \<Rightarrow> int \<Rightarrow> int multiset \<Rightarrow> int multiset" where
  "after_change prev new M =
     (let M = (if new \<noteq> -1 then add_mset new M else M) in if prev \<noteq> -1 then M - {#prev#} else M)"

definition inc_ceiling :: "int \<Rightarrow> int \<Rightarrow> priority_protection_data \<Rightarrow> priority_protection_data" where
  "inc_ceiling fmin new t =
     (if new = -1 then t
      else t\<lparr>priomap := (priomap t)[nat (new - fmin) := priomap t ! nat (new - fmin) + 1],
             priomax := max (priomax t) new\<rparr>)"

lemma inc_ceiling_holds:
  assumes "tpp_holds fmin fmax t M" and "new = -1 \<or> new \<in> {fmin..fmax}"
    and "new \<noteq> -1 \<Longrightarrow> priomap t ! nat (new - fmin) + 1 \<noteq> 0"
  shows "tpp_holds fmin fmax (inc_ceiling fmin new t) (if new \<noteq> -1 then add_mset new M else M)"
proof (cases "new = -1")
  case False
  then have "new \<in> {fmin..fmax}" using assms(2) by simp
  with assms False counts_inc [of fmin fmax "priomap t" M new] show ?thesis
    by (auto simp: tpp_holds_def inc_ceiling_def top_add)
qed (use assms in \<open>simp add: inc_ceiling_def\<close>)

text \<open>The search finds the next ceiling still held.\<close>

lemma tpp_scan_top:
  assumes "set_mset M \<subseteq> {fmin..fmax}"
    and "\<forall>c \<in> {fmin..fmax}. unat (pm ! nat (c - fmin)) = count M c"
    and "prev \<in> {fmin..fmax}" and "\<forall>c \<in># M. c < prev"
  shows "tpp_scan pm fmin (nat (prev - fmin)) = top fmin M"
proof -
  let ?k = "nat (prev - fmin)" and ?m = "tpp_scan pm fmin (nat (prev - fmin))"
  note sp = tpp_scan_spec [of fmin ?k pm]
  have k: "fmin + int ?k = prev" using assms(3) by simp
  have nz: "pm ! nat (c - fmin) \<noteq> 0 \<longleftrightarrow> c \<in># M" if "c \<in> {fmin..fmax}" for c
    using assms(2) that by (metis unat_eq_zero not_in_iff)
  show ?thesis
  proof (rule top_eqI [symmetric])
    fix c assume c: "c \<in># M"
    with assms(1,4) have "c \<in> {fmin..fmax}" "c < prev" by auto
    with sp k nz c show "c \<le> ?m" by auto
  next
    show "fmin - 1 \<le> ?m" using sp by simp
    show "?m = fmin - 1 \<or> ?m \<in># M"
    proof (cases "?m = fmin - 1")
      case False
      with sp k assms(3) have "?m \<in> {fmin..fmax}" by auto
      with sp nz False show ?thesis by blast
    qed simp
  qed
qed

lemma tpp_count_eq:
  assumes "new = -1 \<or> priomap t ! nat (new - fmin) + 1 \<noteq> 0" and "new > priomax t \<Longrightarrow> new \<noteq> -1"
  shows "tpp_count fmin t prev new =
    (let pm = priomap (inc_ceiling fmin new t); pm' = pm[nat (prev - fmin) := pm ! nat (prev - fmin) - 1]
     in Some (if prev = -1 then (t\<lparr>priomap := pm\<rparr>, priomax (inc_ceiling fmin new t))
        else (t\<lparr>priomap := pm'\<rparr>,
          if pm' ! nat (prev - fmin) = 0 \<and> priomax t = prev \<and> prev > new
          then tpp_scan pm' fmin (nat (prev - fmin)) else priomax (inc_ceiling fmin new t))))"
  using assms by (auto simp: tpp_count_def inc_ceiling_def Let_def max_def)

lemma tpp_count_refines:
  assumes holds: "tpp_holds fmin fmax t M" and fmin: "0 \<le> fmin"
    and new: "new = -1 \<or> new \<in> {fmin..fmax}" and prev: "prev = -1 \<or> prev \<in># M"
    and room: "new \<noteq> -1 \<Longrightarrow> priomap t ! nat (new - fmin) + 1 \<noteq> 0"
  shows "\<exists>t' m. tpp_count fmin t prev new = Some (t', m) \<and> priomax t' = priomax t \<and>
    tpp_holds fmin fmax (t'\<lparr>priomax := m\<rparr>) (after_change prev new M)"
proof -
  let ?u = "inc_ceiling fmin new t" and ?M = "if new \<noteq> -1 then add_mset new M else M"
  let ?pm = "(priomap ?u)[nat (prev - fmin) := priomap ?u ! nat (prev - fmin) - 1]"
  have u: "tpp_holds fmin fmax ?u ?M" using inc_ceiling_holds [OF holds new room] .
  have eq: "tpp_count fmin t prev new =
    (let pm = priomap ?u; pm' = pm[nat (prev - fmin) := pm ! nat (prev - fmin) - 1]
     in Some (if prev = -1 then (t\<lparr>priomap := pm\<rparr>, priomax ?u)
        else (t\<lparr>priomap := pm'\<rparr>,
          if pm' ! nat (prev - fmin) = 0 \<and> priomax t = prev \<and> prev > new
          then tpp_scan pm' fmin (nat (prev - fmin)) else priomax ?u)))"
    using room holds fmin top_lower [of fmin M] by (intro tpp_count_eq) (auto simp: tpp_holds_def)
  show ?thesis
  proof (cases "prev = -1")
    case True
    with eq u show ?thesis by (simp add: after_change_def Let_def tpp_holds_def)
  next
    case False
    with prev holds have pM: "prev \<in># M" and pin: "prev \<in> {fmin..fmax}" by (auto simp: tpp_holds_def)
    let ?N = "?M - {#prev#}"
    have pM': "prev \<in># ?M" using pM by auto
    have cnt: "\<forall>c \<in> {fmin..fmax}. unat (?pm ! nat (c - fmin)) = count ?N c"
      using counts_dec [of fmin fmax "priomap ?u" ?M prev] u pM' pin by (simp add: tpp_holds_def)
    have "set_mset ?N \<subseteq> set_mset ?M" by (intro set_mset_mono diff_subset_eq_self)
    then have sub: "set_mset ?N \<subseteq> {fmin..fmax}" using u by (auto simp: tpp_holds_def)
    have zero: "?pm ! nat (prev - fmin) = 0 \<longleftrightarrow> prev \<notin># ?N"
      using cnt pin by (metis unat_eq_zero not_in_iff)
    define m where "m = (if ?pm ! nat (prev - fmin) = 0 \<and> priomax t = prev \<and> prev > new
      then tpp_scan ?pm fmin (nat (prev - fmin)) else priomax ?u)"
    have "m = top fmin ?N"
    proof (cases "?pm ! nat (prev - fmin) = 0 \<and> priomax t = prev \<and> prev > new")
      case True
      then have "prev \<notin># ?N" using zero by simp
      moreover have "c \<le> prev" if "c \<in># ?N" for c
        using that True holds top_ge [of c M fmin] by (auto simp: tpp_holds_def dest: in_diffD split: if_splits)
      ultimately have "\<forall>c \<in># ?N. c < prev" by (metis order_le_less)
      with True tpp_scan_top [OF sub cnt pin] show ?thesis by (simp add: m_def)
    next
      case False
      have top_u: "priomax ?u = top fmin ?M" using u by (simp add: tpp_holds_def)
      have "top fmin ?N = top fmin ?M"
      proof (rule top_eqI)
        show "c \<le> top fmin ?M" if "c \<in># ?N" for c using that by (blast intro: top_ge dest: in_diffD)
        show "fmin - 1 \<le> top fmin ?M" by (rule top_lower)
        show "top fmin ?M = fmin - 1 \<or> top fmin ?M \<in># ?N"
        proof (cases "top fmin ?M = prev \<and> prev \<notin># ?N")
          case True
          then have "prev = priomax t" "prev \<ge> new" "new \<noteq> prev"
            using pM holds pM' top_ge [of prev M fmin] top_ge [of new ?M fmin] top_add [of fmin new M] fmin pin
            by (auto simp: tpp_holds_def max_def split: if_splits)
          with True False zero show ?thesis by auto
        next
          case False
          have "x \<in># ?N" if "x \<in># ?M" "x \<noteq> prev" for x
            using that by (simp add: in_diff_count)
          with False top_in [of fmin ?M] show ?thesis by blast
        qed
      qed
      moreover have "m = priomax ?u" unfolding m_def using False by (rule if_not_P)
      ultimately show ?thesis using top_u by simp
    qed
    moreover have "tpp_count fmin t prev new = Some (t\<lparr>priomap := ?pm\<rparr>, m)"
      using eq False by (simp add: Let_def m_def)
    ultimately show ?thesis using cnt sub u False
      by (simp add: after_change_def tpp_holds_def Let_def)
  qed
qed


lemma count_below:
  assumes "tpp_holds fmin fmax t M" and "new \<in> {fmin..fmax}" and "count M new + 1 < 2 ^ 32"
  shows "priomap t ! nat (new - fmin) + 1 \<noteq> 0"
proof
  assume "priomap t ! nat (new - fmin) + 1 = 0"
  then have "priomap t ! nat (new - fmin) = - 1" by (simp add: eq_neg_iff_add_eq_0)
  then have "unat (priomap t ! nat (new - fmin)) = 2 ^ 32 - 1"
    by (simp add: unsigned_minus_1_eq_mask mask_eq_exp_minus_1)
  with assms show False by (simp add: tpp_holds_def)
qed

section \<open>The whole operation\<close>

text \<open>What locking and unlocking the descriptor leaves alone.\<close>

lemma self_moved_frame:
  assumes "moved (self_cell E) s s'" and "fair_others E"
  shows "p_tpp (slf s') = p_tpp (slf s)" "fifo_min_prio s' = fifo_min_prio s"
    "fifo_max_prio s' = fifo_max_prio s"
proof -
  show "p_tpp (slf s') = p_tpp (slf s)"
    by (rule moved_same [OF assms(1)]) (use assms(2) in \<open>simp_all add: fair_others_def\<close>)
  show "fifo_min_prio s' = fifo_min_prio s" by (rule moved_same [OF assms(1)]) simp_all
  show "fifo_max_prio s' = fifo_max_prio s" by (rule moved_same [OF assms(1)]) simp_all
qed

lemma self_lock_frame:
  assumes "lll_lock n (self_cell E) c p s = Ret u s'" and "fair_others E"
  shows "p_tpp (slf s') = p_tpp (slf s)" "fifo_min_prio s' = fifo_min_prio s"
    "fifo_max_prio s' = fifo_max_prio s"
proof -
  from sc.lock_post [OF assms(1)] obtain q v where
    q: "s' = c_wr (self_cell E) v (c_tick (self_cell E) q)" "moved (self_cell E) s q" by blast
  note fr = self_moved_frame [OF q(2) assms(2)]
  show "p_tpp (slf s') = p_tpp (slf s)" "fifo_min_prio s' = fifo_min_prio s"
    "fifo_max_prio s' = fifo_max_prio s"
    using assms(2) by (simp_all add: q(1) fr fair_others_def)
qed

lemma self_unlock_frame:
  assumes "fair_others E"
  shows "p_tpp (slf (lll_unlock (self_cell E) c p s)) = p_tpp (slf s)"
    "fifo_min_prio (lll_unlock (self_cell E) c p s) = fifo_min_prio s"
    "fifo_max_prio (lll_unlock (self_cell E) c p s) = fifo_max_prio s"
  using assms
  by (simp_all add: lll_unlock_def decl_def lll_unlock_wake_def storel_def Let_def fair_others_def)

lemma tpp_calls_frame:
  "tpp_sched_get E s = (r, s') \<Longrightarrow> p_tpp (slf s') = p_tpp (slf s)"
  "tpp_policy_get E s = (r, s') \<Longrightarrow> p_tpp (slf s') = p_tpp (slf s)"
  "tpp_setscheduler E a b q s = (r', s') \<Longrightarrow> p_tpp (slf s') = p_tpp (slf s)"
  by (auto simp: tpp_sched_get_def tpp_policy_get_def tpp_setscheduler_def Let_def
      split: if_splits sum.splits option.splits)

text \<open>The data the thread has: none yet, or the one that holds \<open>M\<close>.\<close>

definition tpp_state :: "nptl \<Rightarrow> int multiset \<Rightarrow> bool" where
  "tpp_state s M \<longleftrightarrow> (\<exists>t. p_tpp (slf s) = Some t \<and> tpp_holds (fifo_min_prio s) (fifo_max_prio s) t M)"

lemma tpp_change_unfold:
  assumes "p_tpp (slf s) = Some t" and "prio_ok s new" and "prio_ok s prev"
    and "tpp_count (fifo_min_prio s) t prev new = Some (t', m)" and "priomax t \<noteq> m"
    and "tpp_change_priority n E prev new s = Ret r s'"
  shows "\<exists>s1 s2 s3 s4 r1 r2. lll_lock n (self_cell E) True LLL_PRIVATE (set_tpp (Some t') s) = Ret () s1 \<and>
    tpp_sched_get E (set_priomax m s1) = (r1, s2) \<and> tpp_policy_get E s2 = (r2, s3) \<and>
    tpp_setscheduler E (priomax t) m (later r1 r2) s3 = (r, s4) \<and>
    s' = lll_unlock (self_cell E) True LLL_PRIVATE s4"
proof -
  from assms obtain s1 where l: "lll_lock n (self_cell E) True LLL_PRIVATE (set_tpp (Some t') s) = Ret () s1"
    and k: "(case tpp_sched_get E (set_priomax m s1) of (r1, s) \<Rightarrow> case tpp_policy_get E s of (r2, s) \<Rightarrow>
      case tpp_setscheduler E (priomax t) m (later r1 r2) s of (result, s) \<Rightarrow>
      Ret result (lll_unlock (self_cell E) True LLL_PRIVATE s)) = Ret r s'"
    by (auto simp: tpp_change_priority_def tpp_alloc_def out_ret Let_def)
  obtain r1 s2 where 1: "tpp_sched_get E (set_priomax m s1) = (r1, s2)" by fastforce
  obtain r2 s3 where 2: "tpp_policy_get E s2 = (r2, s3)" by fastforce
  obtain q s4 where 3: "tpp_setscheduler E (priomax t) m (later r1 r2) s3 = (q, s4)" by fastforce
  from k 1 2 3 have "q = r" "s' = lll_unlock (self_cell E) True LLL_PRIVATE s4" by simp_all
  with l 1 2 3 show ?thesis by blast
qed

lemma tpp_change_state:
  assumes "fair_others E" and "tpp_state s M" and "0 \<le> fifo_min_prio s"
    and "prio_ok s new" and "prev = -1 \<or> prev \<in># M" and "new \<noteq> -1 \<Longrightarrow> count M new + 1 < 2 ^ 32"
    and "tpp_change_priority n E prev new s = Ret r s'"
  shows "tpp_state s' (after_change prev new M)"
proof -
  let ?fmin = "fifo_min_prio s" and ?fmax = "fifo_max_prio s"
  from assms(2) obtain t where t: "p_tpp (slf s) = Some t" "tpp_holds ?fmin ?fmax t M"
    by (auto simp: tpp_state_def)
  have new: "new = -1 \<or> new \<in> {?fmin..?fmax}" using assms(4) by (simp add: prio_ok_def)
  have prev: "prio_ok s prev" using assms(5) t(2) by (auto simp: tpp_holds_def prio_ok_def)
  have room: "priomap t ! nat (new - ?fmin) + 1 \<noteq> 0" if "new \<noteq> -1"
    using that new assms(6) by (intro count_below [OF t(2)]) auto
  from tpp_count_refines [OF t(2) assms(3) new assms(5) room] obtain t' m where
    c: "tpp_count ?fmin t prev new = Some (t', m)" "priomax t' = priomax t"
      "tpp_holds ?fmin ?fmax (t'\<lparr>priomax := m\<rparr>) (after_change prev new M)" by blast
  show ?thesis
  proof (cases "priomax t = m")
    case True
    with assms t c prev have "s' = set_tpp (Some t') s"
      by (simp add: tpp_change_priority_def tpp_alloc_def out_ret)
    moreover have "t'\<lparr>priomax := m\<rparr> = t'" using True c(2) by simp
    ultimately show ?thesis using c(3) by (simp add: tpp_state_def)
  next
    case False
    from tpp_change_unfold [OF t(1) assms(4) prev c(1) False assms(7)] obtain s1 s2 s3 s4 r1 r2 where
      st: "lll_lock n (self_cell E) True LLL_PRIVATE (set_tpp (Some t') s) = Ret () s1"
        "tpp_sched_get E (set_priomax m s1) = (r1, s2)" "tpp_policy_get E s2 = (r2, s3)"
        "tpp_setscheduler E (priomax t) m (later r1 r2) s3 = (r, s4)"
        "s' = lll_unlock (self_cell E) True LLL_PRIVATE s4" by blast
    note l = self_lock_frame [OF st(1) assms(1)]
    have fifo: "fifo_min_prio s4 = fifo_min_prio s1" "fifo_max_prio s4 = fifo_max_prio s1"
      using st(2-4) by (auto simp: tpp_sched_get_def tpp_policy_get_def tpp_setscheduler_def
          set_priomax_def Let_def split: if_splits sum.splits option.splits)
    have "p_tpp (slf s4) = Some (t'\<lparr>priomax := m\<rparr>)"
      using tpp_calls_frame(1) [OF st(2)] tpp_calls_frame(2) [OF st(3)] tpp_calls_frame(3) [OF st(4)] l(1)
      by (simp add: set_priomax_def)
    with c(3) fifo l st(5) show ?thesis
      by (simp add: tpp_state_def self_unlock_frame [OF assms(1)])
  qed
qed

text \<open>
  C31 (priority protection refines the multiset of ceilings). Whatever the other threads and the
  scheduler do: when the per-thread data counts the multiset \<open>M\<close> of the ceilings of the priority
  protected mutexes held, and \<open>priomax\<close> is its maximum, then after
  \<open>__pthread_tpp_change_priority (prev, new)\<close> has returned with no count at its limit, the data
  counts \<open>M\<close> with \<open>new\<close> added and \<open>prev\<close> removed and \<open>priomax\<close> is the new maximum, also when the
  scheduler reported an error.
\<close>

theorem tpp_change_refines:
  assumes "fair_others E" and "tpp_state s M" and "0 \<le> fifo_min_prio s"
    and "prio_ok s new" and "prev = -1 \<or> prev \<in># M" and "new \<noteq> -1 \<Longrightarrow> count M new + 1 < 2 ^ 32"
    and "tpp_change_priority n E prev new s = Ret r s'"
  shows "tpp_state s' (after_change prev new M)"
  by (rule tpp_change_state) (fact assms)+

section \<open>What the scheduler is asked\<close>

text \<open>With nobody else at the descriptor and known scheduling parameters.\<close>

definition sched_known :: "nptl \<Rightarrow> bool" where
  "sched_known s \<longleftrightarrow> p_flags (slf s) AND ATTR_FLAG_SCHED_SET \<noteq> 0 \<and>
     p_flags (slf s) AND ATTR_FLAG_POLICY_SET \<noteq> 0"

lemma known_get:
  "p_flags (slf s) AND ATTR_FLAG_SCHED_SET \<noteq> 0 \<Longrightarrow> tpp_sched_get E s = (None, s)"
  "p_flags (slf s) AND ATTR_FLAG_POLICY_SET \<noteq> 0 \<Longrightarrow> tpp_policy_get E s = (None, s)"
  by (simp_all add: tpp_sched_get_def tpp_policy_get_def)

lemma tpp_change_quiet:
  assumes "quiet E" and "p_lock (slf s) = 0" and "sched_known s" and "\<forall>c p. e_setscheduler E c p = None"
    and "tpp_state s M" and "0 \<le> fifo_min_prio s" and "prio_ok s new" and "prev = -1 \<or> prev \<in># M"
    and "new \<noteq> -1 \<Longrightarrow> count M new + 1 < 2 ^ 32"
  shows "\<exists>s'. tpp_change_priority n E prev new s = Ret 0 s' \<and>
    sched_calls s' =
      (let old = top (fifo_min_prio s) M; now = top (fifo_min_prio s) (after_change prev new M); own = p_prio (slf s)
       in if old \<noteq> now \<and> (own < now \<or> own < old) then max own now # sched_calls s else sched_calls s)"
proof -
  let ?fmin = "fifo_min_prio s" and ?fmax = "fifo_max_prio s"
  from assms(5) obtain t where t: "p_tpp (slf s) = Some t" "tpp_holds ?fmin ?fmax t M"
    by (auto simp: tpp_state_def)
  have new: "new = -1 \<or> new \<in> {?fmin..?fmax}" using assms(7) by (simp add: prio_ok_def)
  have prev: "prio_ok s prev" using assms(8) t(2) by (auto simp: tpp_holds_def prio_ok_def)
  have room: "priomap t ! nat (new - ?fmin) + 1 \<noteq> 0" if "new \<noteq> -1"
    using that new assms(9) by (intro count_below [OF t(2)]) auto
  from tpp_count_refines [OF t(2) assms(6) new assms(8) room] obtain t' m where
    c: "tpp_count ?fmin t prev new = Some (t', m)"
      "tpp_holds ?fmin ?fmax (t'\<lparr>priomax := m\<rparr>) (after_change prev new M)" by blast
  have tops: "priomax t = top ?fmin M" "m = top ?fmin (after_change prev new M)"
    using t(2) c(2) by (simp_all add: tpp_holds_def)
  let ?s = "set_tpp (Some t') s"
  have locked: "lll_lock n (self_cell E) True LLL_PRIVATE ?s = Ret () (c_wr (self_cell E) 1 (ticks E ?s))"
    using assms(1,2) by (simp add: sc.lock_free)
  have known: "p_flags (slf s) AND ATTR_FLAG_SCHED_SET \<noteq> 0" "p_flags (slf s) AND ATTR_FLAG_POLICY_SET \<noteq> 0"
    using assms(3) by (simp_all add: sched_known_def)
  show ?thesis
  proof (cases "priomax t = m")
    case True
    with t c assms(7) prev tops show ?thesis
      by (simp add: tpp_change_priority_def tpp_alloc_def)
  next
    case False
    let ?s1 = "set_priomax m (c_wr (self_cell E) 1 (ticks E ?s))"
    have pr: "p_prio (slf ?s1) = p_prio (slf s)" "sched_calls ?s1 = sched_calls s"
      "p_flags (slf ?s1) = p_flags (slf s)"
      using assms(1) by (simp_all add: set_priomax_def)
    have k1: "tpp_sched_get E ?s1 = (None, ?s1)" "tpp_policy_get E ?s1 = (None, ?s1)"
      using known by (intro known_get; simp only: pr)+
    have "\<exists>q. tpp_setscheduler E (priomax t) m (later None None) x = (0, q) \<and>
      sched_calls q = (if p_prio (slf x) < m \<or> p_prio (slf x) < priomax t
         then max (p_prio (slf x)) m # sched_calls x else sched_calls x)" for x
      using assms(4) by (auto simp: tpp_setscheduler_def later_def Let_def max_def)
    then obtain q where q: "tpp_setscheduler E (priomax t) m (later None None) ?s1 = (0, q)"
      "sched_calls q = (if p_prio (slf s) < m \<or> p_prio (slf s) < priomax t
         then max (p_prio (slf s)) m # sched_calls s else sched_calls s)"
      unfolding pr(1,2) [symmetric] by blast
    have u: "sched_calls (lll_unlock (self_cell E) True LLL_PRIVATE q) = sched_calls q"
      by (simp add: lll_unlock_def decl_def lll_unlock_wake_def storel_def Let_def)
    have "tpp_change_priority n E prev new s = Ret 0 (lll_unlock (self_cell E) True LLL_PRIVATE q)"
      using t c assms(7) prev False locked k1 q(1)
      by (simp add: tpp_change_priority_def tpp_alloc_def Let_def)
    with u q(2) False tops show ?thesis by (simp add: Let_def)
  qed
qed

text \<open>
  The thread runs at its highest ceiling. With nobody else working on the descriptor, known
  scheduling parameters and a scheduler that accepts every priority, changing \<open>prev\<close> to \<open>new\<close>
  returns 0; when the maximum of the ceilings changes and the thread's own priority is below the
  old or the new maximum, the scheduler is asked for the greater of the own priority and the new
  maximum, and for nothing otherwise.
\<close>

lemma tpp_change_schedules:
  assumes "quiet E" and "p_lock (slf s) = 0" and "sched_known s" and "\<forall>c p. e_setscheduler E c p = None"
    and "tpp_state s M" and "0 \<le> fifo_min_prio s" and "prio_ok s new" and "prev = -1 \<or> prev \<in># M"
    and "new \<noteq> -1 \<Longrightarrow> count M new + 1 < 2 ^ 32"
  shows "\<exists>s'. tpp_change_priority n E prev new s = Ret 0 s' \<and>
    sched_calls s' =
      (let old = top (fifo_min_prio s) M; now = top (fifo_min_prio s) (after_change prev new M); own = p_prio (slf s)
       in if old \<noteq> now \<and> (own < now \<or> own < old) then max own now # sched_calls s else sched_calls s)"
  by (rule tpp_change_quiet) (fact assms)+

text \<open>A thread that holds one mutex of ceiling 2 of the priorities 1 to 3.\<close>

definition demo_tpp :: nptl where
  "demo_tpp = fresh\<lparr>slf := fresh_thread\<lparr>p_flags := 0x60, p_tpp := Some \<lparr>priomax = 2, priomap = [0, 1, 0]\<rparr>\<rparr>,
     fifo_min_prio := 1, fifo_max_prio := 3\<rparr>"

lemma demo_tpp_facts:
  "p_lock (slf demo_tpp) = 0" "sched_known demo_tpp" "0 \<le> fifo_min_prio demo_tpp" "prio_ok demo_tpp 3"
  "fifo_min_prio demo_tpp = 1" "fifo_max_prio demo_tpp = 3" "sched_calls demo_tpp = []" "p_prio (slf demo_tpp) = 0"
  by (simp_all add: demo_tpp_def fresh_thread_def sched_known_def prio_ok_def ATTR_FLAG_SCHED_SET_def
      ATTR_FLAG_POLICY_SET_def)

lemma demo_tpp_state: "tpp_state demo_tpp {#2#}"
proof -
  have "c = 1 \<or> c = 2 \<or> c = 3" if "c \<in> {1..3}" for c :: int using that by auto
  then show ?thesis
    by (fastforce simp: tpp_state_def demo_tpp_def tpp_holds_def top_def)
qed

theorem tpp_change_refines_witness:
  "\<exists>r s'. tpp_change_priority 1 calm 2 3 demo_tpp = Ret r s' \<and> tpp_state s' {#3#}"
proof -
  obtain s' where "tpp_change_priority 1 calm 2 3 demo_tpp = Ret 0 s'"
    using tpp_change_quiet [OF calm_quiet demo_tpp_facts(1,2) _ demo_tpp_state demo_tpp_facts(3,4), of 2 1]
    by (auto simp: calm_def)
  with tpp_change_refines [OF calm_fair demo_tpp_state demo_tpp_facts(3,4) _ _ this] show ?thesis
    by (auto simp: after_change_def)
qed

section \<open>What the change leaves alone\<close>

lemma tpp_change_frame:
  assumes "quiet E" and "p_lock (slf s) = 0" and "sched_known s" and "p_tpp (slf s) = Some t"
    and "tpp_change_priority n E prev new s = Ret r s'"
  shows "sync_vars s' = sync_vars s \<and> (\<exists>t'. slf s' = (slf s)\<lparr>p_tpp := Some t'\<rparr>) \<and>
    fifo_min_prio s' = fifo_min_prio s \<and> fifo_max_prio s' = fifo_max_prio s"
proof -
  have a: "tpp_alloc E s = Ret (Some t) s" using assms(4) by (simp add: tpp_alloc_def)
  have ok: "prio_ok s new" "prio_ok s prev" using assms(5) by (simp_all add: tpp_change_priority_def a assrt_eq_Ret)
  show ?thesis
  proof (cases "tpp_count (fifo_min_prio s) t prev new")
    case None
    with assms(4,5) ok have "s' = s" by (simp add: tpp_change_priority_def a)
    moreover have "slf s = (slf s)\<lparr>p_tpp := Some t\<rparr>" using assms(4) by (cases "slf s") simp
    ultimately show ?thesis by metis
  next
    case (Some tm)
    then obtain t' m where c: "tpp_count (fifo_min_prio s) t prev new = Some (t', m)" by (cases tm) auto
    show ?thesis
    proof (cases "priomax t = m")
      case True
      with assms(5) ok c have "s' = set_tpp (Some t') s" by (simp add: tpp_change_priority_def a)
      then show ?thesis by auto
    next
      case False
      from tpp_change_unfold [OF assms(4) ok c False assms(5)] obtain s1 s2 s3 s4 r1 r2 where
        st: "lll_lock n (self_cell E) True LLL_PRIVATE (set_tpp (Some t') s) = Ret () s1"
          "tpp_sched_get E (set_priomax m s1) = (r1, s2)" "tpp_policy_get E s2 = (r2, s3)"
          "tpp_setscheduler E (priomax t) m (later r1 r2) s3 = (r, s4)"
          "s' = lll_unlock (self_cell E) True LLL_PRIVATE s4" by blast
      have s1: "s1 = c_wr (self_cell E) 1 (ticks E (set_tpp (Some t') s))"
        using st(1) assms(1,2) by (simp add: sc.lock_free)
      have fl: "p_flags (slf (set_priomax m s1)) = p_flags (slf s)"
        using assms(1) by (simp add: s1 set_priomax_def)
      have s2: "s2 = set_priomax m s1" using st(2) known_get(1) fl assms(3) by (simp add: sched_known_def)
      have s3: "s3 = s2" using st(3) known_get(2) fl assms(3) by (simp add: s2 sched_known_def)
      have s4: "\<exists>sc. s4 = s3\<lparr>sched_calls := sc\<rparr>"
        using st(4) by (auto simp: tpp_setscheduler_def Let_def split: if_splits option.splits
            intro: exI [of _ "sched_calls s4"])
      then obtain sc where sc: "s4 = s3\<lparr>sched_calls := sc\<rparr>" by blast
      have "c_rd (self_cell E) (c_tick (self_cell E) s4) = 1"
        using assms(1) by (simp add: sc s3 s2 s1 set_priomax_def)
      from sc.unlock_uncontended [OF this] have "s' = c_wr (self_cell E) 0 (ticks E s4)" by (simp add: st(5))
      with assms(1,2) show ?thesis
        by (auto simp: sc s3 s2 s1 set_priomax_def quiet_ticks intro: exI [of _ "t'\<lparr>priomax := m\<rparr>"])
    qed
  qed
qed

section \<open>The first use, and the errors\<close>

lemma tpp_alloc_empty:
  assumes "p_tpp (slf s) = None" and "e_calloc E (clk s)"
    and "fifo_min_prio s = -1 \<or> fifo_max_prio s = -1" and "0 \<le> e_prio_min E"
  shows "\<exists>t s'. tpp_alloc E s = Ret (Some t) s' \<and> tpp_state s' {#} \<and> 0 \<le> fifo_min_prio s'"
  using assms by (auto simp: tpp_alloc_def Let_def init_sched_fifo_prio_def tpp_state_def tpp_holds_def top_def)

lemma tpp_change_ENOMEM:
  "p_tpp (slf s) = None \<Longrightarrow> \<not> e_calloc E (clk s) \<Longrightarrow>
   \<exists>s'. tpp_change_priority n E prev new s = Ret ENOMEM s' \<and> slf s' = slf s"
  by (simp add: tpp_change_priority_def tpp_alloc_def Let_def init_sched_fifo_prio_def)

lemma tpp_change_EAGAIN:
  assumes "p_tpp (slf s) = Some t" and "prio_ok s new" and "prio_ok s prev" and "new \<noteq> -1"
    and "priomap t ! nat (new - fifo_min_prio s) + 1 = 0"
  shows "tpp_change_priority n E prev new s = Ret EAGAIN s"
  using assms by (simp add: tpp_change_priority_def tpp_alloc_def tpp_count_def Let_def)

lemma tpp_change_asserts:
  assumes "p_tpp (slf s) = Some t" and "\<not> prio_ok s new \<or> \<not> prio_ok s prev"
  shows "tpp_change_priority n E prev new s = Abort"
  using assms by (auto simp: tpp_change_priority_def tpp_alloc_def assrt_def)

end
