(* ===== verification/MutexLock.thy ===== *)
theory MutexLock
  imports MutexManager RobustList Tpp "HOL-Library.Signed_Division"
begin

unbundle bit_operations_syntax

text \<open>
  \<open>pthread_mutex_lock\<close> of \<open>source/mutex_lock.c\<close>, which is compiled a second time with \<open>NO_INCR\<close> as
  \<open>__pthread_mutex_cond_lock\<close> (\<open>source/pthread_mutex_cond_lock.c\<close>); \<open>no_incr\<close> tells which one a
  definition stands for. One definition per branch of the \<open>switch\<close>; \<open>n\<close> bounds the rounds of the
  loops that wait for other threads. \<open>i\<close> is the entry of the mutex, \<open>mi\<close> its \<open>entry_index\<close> and
  \<open>thd\<close> the index of the thread in SyncPerf's tables; \<open>me\<close> is the kernel's thread id (\<open>id\<close> in the source).
\<close>

text \<open>How a branch of the \<open>switch\<close> ends: \<open>return r\<close>, or \<open>break\<close> to the code after it.\<close>

datatype flow = Return i32 | Break

section \<open>The macros\<close>

definition LLL_MUTEX_LOCK :: "nat \<Rightarrow> envr \<Rightarrow> bool \<Rightarrow> nat \<Rightarrow> nptl \<Rightarrow> (unit, nptl) out" where
  "LLL_MUTEX_LOCK n E no_incr i s =
     (if no_incr then lll_cond_lock n (mutex_cell E i) (PTHREAD_MUTEX_PSHARED (mtx s i)) s
      else lll_lock n (mutex_cell E i) False (PTHREAD_MUTEX_PSHARED (mtx s i)) s)"

definition LLL_MUTEX_TRYLOCK :: "envr \<Rightarrow> bool \<Rightarrow> nat \<Rightarrow> nptl \<Rightarrow> i32 \<times> nptl" where
  "LLL_MUTEX_TRYLOCK E no_incr i s =
     (if no_incr then lll_cond_trylock (mutex_cell E i) s else lll_trylock (mutex_cell E i) s)"

section \<open>The normal, recursive, error checking and adaptive kinds\<close>

definition lock_recursive :: "nat \<Rightarrow> envr \<Rightarrow> bool \<Rightarrow> nat \<Rightarrow> i32 \<Rightarrow> nptl \<Rightarrow> (flow, nptl) out" where
  "lock_recursive n E no_incr i me s =
     (if m_owner (mtx s i) = me then
        if m_count (mtx s i) + 1 = 0 then Ret (Return EAGAIN) s
        else Ret (Return 0) (add_count i 1 s)
      else bnd (LLL_MUTEX_LOCK n E no_incr i s) (\<lambda>_ s.
        assrt (m_owner (mtx s i) = 0) (Ret Break (set_count i 1 s))))"

text \<open>The code before and after the low-level lock that measures a contended normal mutex.\<close>

definition simple_enter :: "envr \<Rightarrow> bool \<Rightarrow> nat \<Rightarrow> u64 \<Rightarrow> nat \<Rightarrow> nptl \<Rightarrow> timeinfo option \<times> nptl" where
  "simple_enter E no_incr i mi thd s =
     (if no_incr then (None, s)
      else case loadl (mutex_cell E i) s of (v, s) \<Rightarrow>
        if v = 2 then
          let wait_start = start_timestamp E s;
              s = inc_fail_count mi thd s;
              s = s\<lparr>totalConflicts := totalConflicts s + 1\<rparr>
          in (Some wait_start, s)
        else (None, s))"

definition simple_leave :: "envr \<Rightarrow> u64 \<Rightarrow> nat \<Rightarrow> timeinfo option \<Rightarrow> nptl \<Rightarrow> nptl" where
  "simple_leave E mi thd flag s =
     (case flag of Some wait_start \<Rightarrow> add_futex_wait E mi thd wait_start s | None \<Rightarrow> s)"

definition lock_simple :: "nat \<Rightarrow> envr \<Rightarrow> bool \<Rightarrow> nat \<Rightarrow> u64 \<Rightarrow> nat \<Rightarrow> nptl \<Rightarrow> (flow, nptl) out" where
  "lock_simple n E no_incr i mi thd s =
     (case simple_enter E no_incr i mi thd s of (flag, s) \<Rightarrow>
        bnd (LLL_MUTEX_LOCK n E no_incr i s) (\<lambda>_ s.
          assrt (m_owner (mtx s i) = 0) (Ret Break (simple_leave E mi thd flag s))))"

definition lock_errorcheck :: "nat \<Rightarrow> envr \<Rightarrow> bool \<Rightarrow> nat \<Rightarrow> u64 \<Rightarrow> nat \<Rightarrow> i32 \<Rightarrow> nptl \<Rightarrow> (flow, nptl) out" where
  "lock_errorcheck n E no_incr i mi thd me s =
     (if m_owner (mtx s i) = me then Ret (Return EDEADLK) s else lock_simple n E no_incr i mi thd s)"

text \<open>The spin loop: the value is \<open>cnt\<close> when the loop is left.\<close>

function adaptive_loop ::
  "nat \<Rightarrow> envr \<Rightarrow> bool \<Rightarrow> nat \<Rightarrow> u64 \<Rightarrow> nat \<Rightarrow> int \<Rightarrow> int \<Rightarrow> nptl \<Rightarrow> (int, nptl) out" where
  "adaptive_loop n E no_incr i mi thd cnt max_cnt s =
     (let s = (if no_incr then s else inc_fail_count mi thd s)
      in if cnt \<ge> max_cnt then bnd (LLL_MUTEX_LOCK n E no_incr i s) (\<lambda>_ s. Ret (cnt + 1) s)
         else case LLL_MUTEX_TRYLOCK E no_incr i s of (r, s) \<Rightarrow>
           if r \<noteq> 0 then adaptive_loop n E no_incr i mi thd (cnt + 1) max_cnt s else Ret (cnt + 1) s)"
  by pat_completeness auto
termination
  by (relation "measure (\<lambda>(n, E, no_incr, i, mi, thd, cnt, max_cnt, s). nat (max_cnt - cnt))") auto

declare adaptive_loop.simps [simp del]

definition adaptive_max :: "mutex \<Rightarrow> int" where
  "adaptive_max m = min MAX_ADAPTIVE_COUNT (sint (m_spins m) * 2 + 10)"

definition lock_adaptive :: "nat \<Rightarrow> envr \<Rightarrow> bool \<Rightarrow> nat \<Rightarrow> u64 \<Rightarrow> nat \<Rightarrow> nptl \<Rightarrow> (flow, nptl) out" where
  "lock_adaptive n E no_incr i mi thd s =
     bnd (case LLL_MUTEX_TRYLOCK E no_incr i s of (r, s) \<Rightarrow>
            if r \<noteq> 0 then
              bnd (adaptive_loop n E no_incr i mi thd 0 (adaptive_max (mtx s i)) s) (\<lambda>cnt s.
                let spins = sint (m_spins (mtx s i))
                in Ret () (set_spins i (word_of_int (spins + (cnt - spins) sdiv 8)) s))
            else Ret () s)
       (\<lambda>_ s. assrt (m_owner (mtx s i) = 0) (Ret Break s))"

text \<open>The code of the robust kinds is switched off but for an assertion.\<close>

definition lock_robust :: "nat \<Rightarrow> nptl \<Rightarrow> (flow, nptl) out" where
  "lock_robust i s =
     assrt (PTHREAD_MUTEX_ROBUST_ADAPTIVE_NP \<noteq> m_kind (mtx s i)) (Ret Break s)"

section \<open>The priority inheriting kinds\<close>

definition enqueue_pi :: "envr \<Rightarrow> nat \<Rightarrow> nptl \<Rightarrow> nptl" where
  "enqueue_pi E i s = s\<lparr>rl := ENQUEUE_MUTEX_PI (e_list_at E i) (p_robust_head (slf s)) (rl s)\<rparr>"

text \<open>A \<open>futex\<close> call that may change the lock word: the call is recorded and the kernel answers.\<close>

definition futex_pi_call :: "envr \<Rightarrow> i32 \<Rightarrow> i32 \<Rightarrow> nat \<Rightarrow> nptl \<Rightarrow> i64 \<times> nptl" where
  "futex_pi_call E op v i s =
     (let s = ticks E s; (w, ret) = e_futex_pi E op (clk s) (m_lock (mtx s i))
      in (ret, set_lock i w (s\<lparr>calls := FCall op v # calls s\<rparr>)))"

text \<open>Lines 340 to 361: the lock is already held by this thread.\<close>

definition pi_already :: "nat \<Rightarrow> i32 \<Rightarrow> nptl \<Rightarrow> (i32 \<times> nptl) option" where
  "pi_already i kind s =
     (if kind = PTHREAD_MUTEX_ERRORCHECK_NP then Some (EDEADLK, set_pending 0 s)
      else if kind = PTHREAD_MUTEX_RECURSIVE_NP then
        let s = set_pending 0 s
        in if m_count (mtx s i) + 1 = 0 then Some (EAGAIN, s) else Some (0, add_count i 1 s)
      else None)"

text \<open>Lines 374 to 398: the kernel takes the lock for the thread.\<close>

definition pi_kernel_lock :: "envr \<Rightarrow> nat \<Rightarrow> i32 \<Rightarrow> bool \<Rightarrow> nptl \<Rightarrow> (i32, nptl) out" where
  "pi_kernel_lock E i kind robust s =
     (case futex_pi_call E FUTEX_LOCK_PI 1 i s of (ret, s) \<Rightarrow>
        let e = scast (ucast ret :: i32) :: i64 in
        if internal_syscall_error_p e \<and>
           (ucast (internal_syscall_errno e) = ESRCH \<or> ucast (internal_syscall_errno e) = EDEADLK)
        then assrt (ucast (internal_syscall_errno e) \<noteq> EDEADLK \<or>
                 (kind \<noteq> PTHREAD_MUTEX_ERRORCHECK_NP \<and> kind \<noteq> PTHREAD_MUTEX_RECURSIVE_NP))
               (assrt (ucast (internal_syscall_errno e) \<noteq> ESRCH \<or> \<not> robust) Stuck)
        else case loadl (mutex_cell E i) s of (oldval, s) \<Rightarrow>
          assrt (robust \<or> oldval AND FUTEX_OWNER_DIED = 0) (Ret oldval s))"

text \<open>Lines 401 to 446: what the lock word says about the previous owner.\<close>

definition pi_finish :: "envr \<Rightarrow> bool \<Rightarrow> nat \<Rightarrow> bool \<Rightarrow> i32 \<Rightarrow> nptl \<Rightarrow> (flow, nptl) out" where
  "pi_finish E no_incr i robust oldval s =
     (if oldval AND FUTEX_OWNER_DIED \<noteq> 0 then
        let s = snd (andl (mutex_cell E i) (NOT FUTEX_OWNER_DIED) s);
            s = set_count i 1 s;
            s = set_owner i PTHREAD_MUTEX_INCONSISTENT s;
            s = enqueue_pi E i s;
            s = set_pending 0 s;
            s = (if no_incr then add_nusers i (-1) s else s)
        in Ret (Return EOWNERDEAD) s
      else if robust \<and> m_owner (mtx s i) = PTHREAD_MUTEX_NOTRECOVERABLE then
        let s = set_count i 0 s;
            s = snd (futex_pi_call E FUTEX_UNLOCK_PI 0 i s);
            s = set_pending 0 s
        in Ret (Return ENOTRECOVERABLE) s
      else
        let s = set_count i 1 s
        in Ret Break (if robust then set_pending 0 (enqueue_pi E i s) else s))"

definition lock_pi :: "envr \<Rightarrow> bool \<Rightarrow> nat \<Rightarrow> i32 \<Rightarrow> nptl \<Rightarrow> (flow, nptl) out" where
  "lock_pi E no_incr i me s =
     (let kind = m_kind (mtx s i) AND PTHREAD_MUTEX_KIND_MASK_NP;
          robust = (m_kind (mtx s i) AND PTHREAD_MUTEX_ROBUST_NORMAL_NP \<noteq> 0);
          s = (if robust then set_pending (e_list_at E i OR 1) s else s)
      in case loadl (mutex_cell E i) s of (oldval, s) \<Rightarrow>
        case (if oldval AND FUTEX_TID_MASK = me then pi_already i kind s else None) of
          Some (r, s) \<Rightarrow> Ret (Return r) s
        | None \<Rightarrow>
            let newval = (if no_incr then me OR FUTEX_WAITERS else me)
            in case cmpxchg (mutex_cell E i) newval 0 s of (oldval, s) \<Rightarrow>
              bnd (if oldval \<noteq> 0 then pi_kernel_lock E i kind robust s else Ret oldval s)
                (\<lambda>oldval s. pi_finish E no_incr i robust oldval s))"

section \<open>The priority protected kinds\<close>

definition ceiling_of :: "i32 \<Rightarrow> int" where
  "ceiling_of v = uint (drop_bit PTHREAD_MUTEX_PRIO_CEILING_SHIFT (v AND PTHREAD_MUTEX_PRIO_CEILING_MASK))"

definition ceilval_of :: "int \<Rightarrow> i32" where
  "ceilval_of ceil = push_bit PTHREAD_MUTEX_PRIO_CEILING_SHIFT (word_of_int ceil)"

text \<open>The inner loop of lines 509 to 525: the value is the last \<open>oldval\<close>.\<close>

fun pp_wait :: "nat \<Rightarrow> envr \<Rightarrow> nat \<Rightarrow> i32 \<Rightarrow> nptl \<Rightarrow> (i32, nptl) out" where
  "pp_wait 0 E i ceilval s = Stuck"
| "pp_wait (Suc n) E i ceilval s =
     (case cmpxchg (mutex_cell E i) (ceilval OR 2) (ceilval OR 1) s of (oldval, s) \<Rightarrow>
        if oldval AND PTHREAD_MUTEX_PRIO_CEILING_MASK \<noteq> ceilval then Ret oldval s
        else
          let s = (if oldval \<noteq> ceilval
                   then lll_futex_wait (mutex_cell E i) (ceilval OR 2) (PTHREAD_MUTEX_PSHARED (mtx s i)) s
                   else s)
          in case cmpxchg (mutex_cell E i) (ceilval OR 2) ceilval s of (v, s) \<Rightarrow>
            if v \<noteq> ceilval then pp_wait n E i ceilval s else Ret oldval s)"

text \<open>The outer loop of lines 478 to 527: \<open>Return r\<close> for the two error returns.\<close>

fun pp_loop :: "nat \<Rightarrow> envr \<Rightarrow> bool \<Rightarrow> nat \<Rightarrow> int \<Rightarrow> i32 \<Rightarrow> nptl \<Rightarrow> (flow, nptl) out" where
  "pp_loop 0 E no_incr i oldprio oldval s = Stuck"
| "pp_loop (Suc n) E no_incr i oldprio oldval s =
     (let ceil = ceiling_of oldval in
      bnd (current_priority (Suc n) E s) (\<lambda>prio s.
        if prio > ceil then
          if oldprio \<noteq> -1
          then bnd (tpp_change_priority (Suc n) E oldprio (-1) s) (\<lambda>_ s. Ret (Return EINVAL) s)
          else Ret (Return EINVAL) s
        else
          bnd (tpp_change_priority (Suc n) E oldprio ceil s) (\<lambda>retval s.
            if retval \<noteq> 0 then Ret (Return retval) s
            else
              let ceilval = ceilval_of ceil
              in case cmpxchg (mutex_cell E i) (if no_incr then ceilval OR 2 else ceilval OR 1) ceilval s of
                (oldval, s) \<Rightarrow>
                  if oldval = ceilval then Ret Break s
                  else bnd (pp_wait (Suc n) E i ceilval s) (\<lambda>oldval s.
                    if oldval AND PTHREAD_MUTEX_PRIO_CEILING_MASK \<noteq> ceilval
                    then pp_loop n E no_incr i ceil oldval s else Ret Break s))))"

definition lock_pp :: "nat \<Rightarrow> envr \<Rightarrow> bool \<Rightarrow> nat \<Rightarrow> i32 \<Rightarrow> nptl \<Rightarrow> (flow, nptl) out" where
  "lock_pp n E no_incr i me s =
     (let kind = m_kind (mtx s i) AND PTHREAD_MUTEX_KIND_MASK_NP
      in case loadl (mutex_cell E i) s of (oldval, s) \<Rightarrow>
        if m_owner (mtx s i) = me \<and> kind = PTHREAD_MUTEX_ERRORCHECK_NP then Ret (Return EDEADLK) s
        else if m_owner (mtx s i) = me \<and> kind = PTHREAD_MUTEX_RECURSIVE_NP then
          if m_count (mtx s i) + 1 = 0 then Ret (Return EAGAIN) s else Ret (Return 0) (add_count i 1 s)
        else bnd (pp_loop n E no_incr i (-1) oldval s) (\<lambda>f s.
          case f of
            Return r \<Rightarrow> Ret (Return r) s
          | Break \<Rightarrow> assrt (m_owner (mtx s i) = 0) (Ret Break (set_count i 1 s))))"

section \<open>The whole function\<close>

text \<open>Lines 111 to 537. The labels are tested on the kind as it is, with no bit masked.\<close>

definition lock_switch :: "nat \<Rightarrow> envr \<Rightarrow> bool \<Rightarrow> nat \<Rightarrow> u64 \<Rightarrow> nat \<Rightarrow> i32 \<Rightarrow> nptl \<Rightarrow> (flow, nptl) out" where
  "lock_switch n E no_incr i mi thd me s =
     (let k = m_kind (mtx s i) in
      if k = PTHREAD_MUTEX_RECURSIVE_NP then lock_recursive n E no_incr i me s
      else if k = PTHREAD_MUTEX_ERRORCHECK_NP then lock_errorcheck n E no_incr i mi thd me s
      else if k = PTHREAD_MUTEX_TIMED_NP then lock_simple n E no_incr i mi thd s
      else if k = PTHREAD_MUTEX_ADAPTIVE_NP then lock_adaptive n E no_incr i mi thd s
      else if k \<in> kinds_robust then lock_robust i s
      else if k \<in> kinds_pi then lock_pi E no_incr i me s
      else if k \<in> kinds_pp then lock_pp n E no_incr i me s
      else Ret (Return EINVAL) s)"

text \<open>Lines 103 to 545: the switch and the ownership.\<close>

definition lock_real :: "nat \<Rightarrow> envr \<Rightarrow> bool \<Rightarrow> nat \<Rightarrow> u64 \<Rightarrow> nat \<Rightarrow> nptl \<Rightarrow> (i32, nptl) out" where
  "lock_real n E no_incr i mi thd s =
     (let me = p_tid (slf s) in
      bnd (lock_switch n E no_incr i mi thd me s) (\<lambda>f s.
        case f of
          Return r \<Rightarrow> Ret r s
        | Break \<Rightarrow> let s = set_owner i me s in Ret 0 (if no_incr then s else add_nusers i 1 s)))"

text \<open>Lines 67 to 77: a mutex seen for the first time gets an entry.\<close>

definition find_entry :: "envr \<Rightarrow> u64 \<Rightarrow> nptl \<Rightarrow> (nat, nptl) out" where
  "find_entry E p s =
     bnd (if is_my_mutex p s then Ret () s
          else bnd (create_mutex s) (\<lambda>e s. Ret () (snd (setSyncEntry E p e s))))
       (\<lambda>_ s. get_mutex p s)"

text \<open>The caller: the index of the thread, its stack top and pointer (32 bits each), and the return
  address.\<close>

record caller =
  thread_index :: nat
  stack_top :: u32
  esp :: u32
  return_address :: u64

definition pthread_mutex_lock :: "nat \<Rightarrow> envr \<Rightarrow> caller \<Rightarrow> u64 \<Rightarrow> nptl \<Rightarrow> (i32, nptl) out" where
  "pthread_mutex_lock n E c p s =
     (let s = s\<lparr>totalLocks := totalLocks s + 1\<rparr> in
      bnd (find_entry E p s) (\<lambda>i s.
        let mi = entry_index (pool s i);
            s = inc_access_count mi (thread_index c) s;
            off = stack_top c - esp c
        in assrt (off > 0)
             (bnd (add_new_context E i (return_address c) off s)
                (\<lambda>_ s. lock_real n E False i mi (thread_index c) s))))"

definition pthread_mutex_cond_lock :: "nat \<Rightarrow> envr \<Rightarrow> caller \<Rightarrow> u64 \<Rightarrow> nptl \<Rightarrow> (i32, nptl) out" where
  "pthread_mutex_cond_lock n E c p s =
     (let s = s\<lparr>totalCondWaits := totalCondWaits s + 1\<rparr> in
      bnd (get_mutex p s) (\<lambda>i s.
        lock_real n E True i (entry_index (pool s i)) (thread_index c) s))"

definition pthread_mutex_cond_lock_adjust :: "nat \<Rightarrow> nptl \<Rightarrow> (unit, nptl) out" where
  "pthread_mutex_cond_lock_adjust i s =
     assrt (m_kind (mtx s i) AND PTHREAD_MUTEX_PRIO_INHERIT_NP \<noteq> 0)
       (assrt (m_kind (mtx s i) AND PTHREAD_MUTEX_ROBUST_NORMAL_NP = 0)
         (assrt (m_kind (mtx s i) AND PTHREAD_MUTEX_PSHARED_BIT = 0)
           (let s = set_owner i (p_tid (slf s)) s
            in Ret () (if m_kind (mtx s i) = PTHREAD_MUTEX_PI_RECURSIVE_NP then add_count i 1 s else s))))"


section \<open>Acquiring the lock word\<close>

lemma MUTEX_LOCK_post:
  assumes "LLL_MUTEX_LOCK n E no_incr i s = Ret u t"
  shows "\<exists>q v. m_lock (mtx (ticks E q) i) = 0 \<and> t = set_lock i v (ticks E q) \<and> (v = 1 \<or> v = 2) \<and>
    (no_incr \<longrightarrow> v = 2) \<and> moved (mutex_cell E i) s q"
proof (cases no_incr)
  case True
  with assms have "lll_cond_lock n (mutex_cell E i) (PTHREAD_MUTEX_PSHARED (mtx s i)) s = Ret u t"
    by (simp add: LLL_MUTEX_LOCK_def)
  from mc.cond_lock_post [OF this] show ?thesis by fastforce
next
  case False
  with assms have "lll_lock n (mutex_cell E i) False (PTHREAD_MUTEX_PSHARED (mtx s i)) s = Ret u t"
    by (simp add: LLL_MUTEX_LOCK_def)
  from mc.lock_post [OF this] False show ?thesis by fastforce
qed

lemma MUTEX_LOCK_no_Abort: "LLL_MUTEX_LOCK n E no_incr i s \<noteq> Abort"
  by (simp add: LLL_MUTEX_LOCK_def mc.lock_no_Abort mc.cond_lock_no_Abort)

lemma MUTEX_LOCK_free:
  "m_lock (mtx (ticks E s) i) = 0 \<Longrightarrow>
   LLL_MUTEX_LOCK n E no_incr i s = Ret () (set_lock i (if no_incr then 2 else 1) (ticks E s))"
  by (simp add: LLL_MUTEX_LOCK_def mc.lock_free mc.cond_lock_free del: ticks_frame)

text \<open>What holds of a mutex while the thread works on its lock word among fair others.\<close>

definition steady :: "nat \<Rightarrow> i32 \<Rightarrow> nptl \<Rightarrow> bool" where
  "steady i k s \<longleftrightarrow> m_kind (mtx s i) = k \<and> free_unowned (mtx s i)"

lemma steady_ticks: "fair_others E \<Longrightarrow> steady i k s \<Longrightarrow> steady i k (ticks E s)"
  by (simp add: steady_def fair_others_def)

lemma steady_set_lock: "v \<noteq> 0 \<Longrightarrow> steady i k s \<Longrightarrow> steady i k (set_lock i v s)"
  by (simp add: steady_def free_unowned_def)

lemma steady_calls [simp]: "steady i k (s\<lparr>calls := c\<rparr>) \<longleftrightarrow> steady i k s"
  by (simp add: steady_def)

lemma steady_moved:
  assumes "moved (mutex_cell E i) s t" and "fair_others E" and "steady i k s"
  shows "steady i k t"
  using assms(1,3)
  by (rule moved_keeps) (simp_all add: steady_ticks assms(2) steady_set_lock)

text \<open>The mutex a thread gets is the free mutex it found with the lock word set.\<close>

definition found_free :: "i32 \<Rightarrow> mutex \<Rightarrow> bool" where
  "found_free k m \<longleftrightarrow> m_lock m = 0 \<and> m_owner m = 0 \<and> m_kind m = k"

lemma MUTEX_LOCK_found:
  assumes "LLL_MUTEX_LOCK n E no_incr i s = Ret u t" and "fair_others E" and "steady i k s"
  shows "\<exists>m v. found_free k m \<and> mtx t i = m\<lparr>m_lock := v\<rparr> \<and> (v = 1 \<or> v = 2) \<and> (no_incr \<longrightarrow> v = 2)"
proof -
  from MUTEX_LOCK_post [OF assms(1)] obtain q v where
    q: "m_lock (mtx (ticks E q) i) = 0" "t = set_lock i v (ticks E q)" "v = 1 \<or> v = 2"
      "no_incr \<longrightarrow> v = 2" "moved (mutex_cell E i) s q" by blast
  have "steady i k (ticks E q)" using steady_ticks steady_moved q(5) assms(2,3) by blast
  then have "found_free k (mtx (ticks E q) i)"
    using q(1) by (simp add: steady_def found_free_def free_unowned_def del: ticks_frame)
  with q show ?thesis by (auto simp del: ticks_frame)
qed

lemma tid_moved:
  assumes "moved (mutex_cell E i) s t" and "fair_others E"
  shows "p_tid (slf t) = p_tid (slf s)"
  by (rule moved_same [OF assms(1)]) (use assms(2) in \<open>simp_all add: fair_others_def\<close>)

lemma steady_counters [simp]:
  "steady i k (inc_fail_count mi thd s) \<longleftrightarrow> steady i k s"
  "steady i k (s\<lparr>totalConflicts := x\<rparr>) \<longleftrightarrow> steady i k s"
  by (simp_all add: steady_def)

lemma simple_enter_steady:
  "simple_enter E no_incr i mi thd s = (f, s') \<Longrightarrow> fair_others E \<Longrightarrow> steady i k s \<Longrightarrow> steady i k s'"
  by (auto simp: simple_enter_def loadl_def Let_def steady_ticks split: if_splits)

lemma simple_leave_pool [simp]: "sync_vars (simple_leave E mi thd f s) = sync_vars s"
  by (simp add: simple_leave_def split: option.split)

text \<open>What the branches that take the lock leave: \<open>m\<close> is the free mutex that was found.\<close>

lemma lock_simple_found:
  assumes "lock_simple n E no_incr i mi thd s = Ret f t" and "fair_others E" and "steady i k s"
  shows "f = Break \<and> (\<exists>m v. found_free k m \<and> mtx t i = m\<lparr>m_lock := v\<rparr> \<and> (v = 1 \<or> v = 2) \<and> (no_incr \<longrightarrow> v = 2))"
proof -
  from assms(1) obtain fl s1 u s2 where e: "simple_enter E no_incr i mi thd s = (fl, s1)"
    and l: "LLL_MUTEX_LOCK n E no_incr i s1 = Ret u s2"
    and r: "f = Break" "t = simple_leave E mi thd fl s2"
    by (auto simp: lock_simple_def out_ret split: prod.splits)
  from MUTEX_LOCK_found [OF l assms(2) simple_enter_steady [OF e assms(2,3)]] r show ?thesis by simp
qed

lemma lock_simple_no_Abort:
  assumes "fair_others E" and "steady i k s"
  shows "lock_simple n E no_incr i mi thd s \<noteq> Abort"
proof
  assume ab: "lock_simple n E no_incr i mi thd s = Abort"
  obtain fl s1 where e: "simple_enter E no_incr i mi thd s = (fl, s1)" by fastforce
  have st: "steady i k s1" using simple_enter_steady [OF e assms] .
  from ab e obtain s2 where "LLL_MUTEX_LOCK n E no_incr i s1 = Ret () s2" "m_owner (mtx s2 i) \<noteq> 0"
    using MUTEX_LOCK_no_Abort [of n E no_incr i s1]
    by (cases "LLL_MUTEX_LOCK n E no_incr i s1") (auto simp: lock_simple_def assrt_def split: if_splits)
  with MUTEX_LOCK_found [OF _ assms(1) st] show False by (fastforce simp: found_free_def)
qed


lemma MUTEX_TRYLOCK_cases:
  "LLL_MUTEX_TRYLOCK E no_incr i s =
     (if m_lock (mtx (ticks E s) i) = 0 then (0, set_lock i (if no_incr then 2 else 1) (ticks E s))
      else (m_lock (mtx (ticks E s) i), ticks E s))"
  by (simp add: LLL_MUTEX_TRYLOCK_def lll_trylock_def lll_cond_trylock_def mc.cmpxchg_cases lll_init
      del: ticks_frame)

lemma MUTEX_TRYLOCK_found:
  assumes "LLL_MUTEX_TRYLOCK E no_incr i s = (r, t)" and "fair_others E" and "steady i k s"
  shows "r = 0 \<Longrightarrow> \<exists>m v. found_free k m \<and> mtx t i = m\<lparr>m_lock := v\<rparr> \<and> (v = 1 \<or> v = 2) \<and> (no_incr \<longrightarrow> v = 2)"
    and "r \<noteq> 0 \<Longrightarrow> t = ticks E s"
proof -
  have st: "steady i k (ticks E s)" using steady_ticks assms(2,3) .
  show "\<exists>m v. found_free k m \<and> mtx t i = m\<lparr>m_lock := v\<rparr> \<and> (v = 1 \<or> v = 2) \<and> (no_incr \<longrightarrow> v = 2)" if "r = 0"
  proof -
    from that assms(1) have "m_lock (mtx (ticks E s) i) = 0" "t = set_lock i (if no_incr then 2 else 1) (ticks E s)"
      by (auto simp: MUTEX_TRYLOCK_cases simp del: ticks_frame split: if_splits)
    with st show ?thesis
      by (intro exI [of _ "mtx (ticks E s) i"] exI [of _ "if no_incr then 2 else 1"])
        (simp add: steady_def found_free_def free_unowned_def del: ticks_frame)
  qed
  show "t = ticks E s" if "r \<noteq> 0"
    using that assms(1) by (auto simp: MUTEX_TRYLOCK_cases simp del: ticks_frame split: if_splits)
qed

lemma adaptive_loop_found:
  assumes "adaptive_loop n E no_incr i mi thd cnt mx s = Ret c t" and "fair_others E" and "steady i k s"
  shows "(\<exists>m v. found_free k m \<and> mtx t i = m\<lparr>m_lock := v\<rparr> \<and> (v = 1 \<or> v = 2) \<and> (no_incr \<longrightarrow> v = 2)) \<and>
    cnt < c \<and> c \<le> max cnt mx + 1"
  using assms
proof (induction n E no_incr i mi thd cnt mx s rule: adaptive_loop.induct)
  case (1 n E no_incr i mi thd cnt mx s)
  let ?s = "if no_incr then s else inc_fail_count mi thd s"
  have st: "steady i k ?s" using 1(4) by simp
  show ?case
  proof (cases "cnt \<ge> mx")
    case True
    with 1(2) obtain u where "LLL_MUTEX_LOCK n E no_incr i ?s = Ret u t" "c = cnt + 1"
      by (auto simp: adaptive_loop.simps [of n E] Let_def out_ret)
    with MUTEX_LOCK_found [OF _ 1(3) st] True show ?thesis by auto
  next
    case False
    obtain r s1 where tr: "LLL_MUTEX_TRYLOCK E no_incr i ?s = (r, s1)" by fastforce
    show ?thesis
    proof (cases "r = 0")
      case True
      with 1(2) False tr have "t = s1" "c = cnt + 1" by (auto simp: adaptive_loop.simps [of n E] Let_def)
      with MUTEX_TRYLOCK_found(1) [OF tr 1(3) st True] False show ?thesis by auto
    next
      case r: False
      with 1(2) False tr have rec: "adaptive_loop n E no_incr i mi thd (cnt + 1) mx s1 = Ret c t"
        by (simp add: adaptive_loop.simps [of n E _ _ _ _ cnt] Let_def)
      have "s1 = ticks E ?s" using MUTEX_TRYLOCK_found(2) [OF tr 1(3) st r] .
      then have "steady i k s1" using steady_ticks [OF 1(3) st] by simp
      from 1(1) [OF refl False _ r rec 1(3) this] tr
      have "(\<exists>m v. found_free k m \<and> mtx t i = m\<lparr>m_lock := v\<rparr> \<and> (v = 1 \<or> v = 2) \<and> (no_incr \<longrightarrow> v = 2)) \<and>
        cnt + 1 < c \<and> c \<le> max (cnt + 1) mx + 1" by simp
      moreover have "max (cnt + 1) mx = max cnt mx" using False by simp
      ultimately show ?thesis by simp
    qed
  qed
qed

lemma adaptive_loop_no_Abort: "adaptive_loop n E no_incr i mi thd cnt mx s \<noteq> Abort"
proof (induction n E no_incr i mi thd cnt mx s rule: adaptive_loop.induct)
  case (1 n E no_incr i mi thd cnt mx s)
  let ?s = "if no_incr then s else inc_fail_count mi thd s"
  obtain r s1 where tr: "LLL_MUTEX_TRYLOCK E no_incr i ?s = (r, s1)" by fastforce
  have lk: "LLL_MUTEX_LOCK n E no_incr i ?s \<noteq> Abort" by (rule MUTEX_LOCK_no_Abort)
  have rec: "adaptive_loop n E no_incr i mi thd (cnt + 1) mx s1 \<noteq> Abort" if "\<not> mx \<le> cnt" "r \<noteq> 0"
    using 1 [OF refl that(1) tr [symmetric] that(2)] .
  show ?case
    unfolding adaptive_loop.simps [of n E no_incr i mi thd cnt] Let_def tr
    using lk rec by (cases "LLL_MUTEX_LOCK n E no_incr i ?s") (simp_all split: if_split)
qed

text \<open>The number of spins of the next contended lock stays between 0 and \<open>MAX_ADAPTIVE_COUNT\<close>.\<close>

lemma spins_step:
  fixes sp cnt :: int
  assumes "0 \<le> sp" "sp \<le> 100" "1 \<le> cnt" "cnt \<le> 101"
  shows "0 \<le> sp + (cnt - sp) sdiv 8 \<and> sp + (cnt - sp) sdiv 8 \<le> 100"
proof -
  define q where "q = (if 0 \<le> cnt - sp then (cnt - sp) div 8 else - ((sp - cnt) div 8))"
  have q: "(cnt - sp) sdiv 8 = q" by (simp add: signed_divide_int_def sgn_if q_def)
  have "0 \<le> sp + q \<and> sp + q \<le> 100"
  proof (cases "0 \<le> cnt - sp")
    case True
    then have "8 * q \<le> cnt - sp" "0 \<le> q" by (simp_all add: q_def)
    with assms show ?thesis by linarith
  next
    case False
    then have "8 * - q \<le> sp - cnt" "0 \<le> - q" by (simp_all add: q_def)
    with assms show ?thesis by linarith
  qed
  then show ?thesis by (simp only: q)
qed

lemma lock_adaptive_found:
  assumes "lock_adaptive n E no_incr i mi thd s = Ret f t" and "fair_others E" and "steady i k s"
  shows "f = Break \<and> (\<exists>m v sp. found_free k m \<and> mtx t i = m\<lparr>m_lock := v, m_spins := sp\<rparr> \<and>
    (v = 1 \<or> v = 2) \<and> (no_incr \<longrightarrow> v = 2))"
proof -
  obtain r s1 where tr: "LLL_MUTEX_TRYLOCK E no_incr i s = (r, s1)" by fastforce
  show ?thesis
  proof (cases "r = 0")
    case True
    with assms(1) tr have "f = Break" "t = s1" by (auto simp: lock_adaptive_def out_ret)
    moreover from MUTEX_TRYLOCK_found(1) [OF tr assms(2,3) True] obtain m v where
      m: "found_free k m" "mtx s1 i = m\<lparr>m_lock := v\<rparr>" "v = 1 \<or> v = 2" "no_incr \<longrightarrow> v = 2" by blast
    moreover have "m\<lparr>m_lock := v\<rparr> = m\<lparr>m_lock := v, m_spins := m_spins m\<rparr>" by simp
    ultimately show ?thesis by metis
  next
    case False
    with assms(1) tr obtain c s2 where l: "adaptive_loop n E no_incr i mi thd 0 (adaptive_max (mtx s1 i)) s1 = Ret c s2"
      and f: "f = Break" and t: "t = set_spins i (word_of_int (sint (m_spins (mtx s2 i)) +
        (c - sint (m_spins (mtx s2 i))) sdiv 8)) s2"
      by (auto simp: lock_adaptive_def out_ret Let_def)
    have "s1 = ticks E s" using MUTEX_TRYLOCK_found(2) [OF tr assms(2,3) False] .
    then have "steady i k s1" using steady_ticks [OF assms(2,3)] by simp
    from adaptive_loop_found [OF l assms(2) this] obtain m v where
      "found_free k m" "mtx s2 i = m\<lparr>m_lock := v\<rparr>" "v = 1 \<or> v = 2" "no_incr \<longrightarrow> v = 2" by blast
    with f t show ?thesis by auto
  qed
qed

lemma lock_adaptive_no_Abort:
  assumes "fair_others E" and "steady i k s"
  shows "lock_adaptive n E no_incr i mi thd s \<noteq> Abort"
proof
  assume ab: "lock_adaptive n E no_incr i mi thd s = Abort"
  obtain r s1 where tr: "LLL_MUTEX_TRYLOCK E no_incr i s = (r, s1)" by fastforce
  show False
  proof (cases "r = 0")
    case True
    with ab tr have "m_owner (mtx s1 i) \<noteq> 0" by (auto simp: lock_adaptive_def assrt_def split: if_splits)
    with MUTEX_TRYLOCK_found(1) [OF tr assms True] show False by (auto simp: found_free_def)
  next
    case False
    let ?l = "adaptive_loop n E no_incr i mi thd 0 (adaptive_max (mtx s1 i)) s1"
    have "s1 = ticks E s" using MUTEX_TRYLOCK_found(2) [OF tr assms False] .
    then have st: "steady i k s1" using steady_ticks [OF assms] by simp
    from ab tr False obtain c s2 where "?l = Ret c s2" "m_owner (mtx s2 i) \<noteq> 0"
      using adaptive_loop_no_Abort [of n E no_incr i mi thd 0 "adaptive_max (mtx s1 i)" s1]
      by (cases ?l) (auto simp: lock_adaptive_def assrt_def Let_def split: if_splits)
    with adaptive_loop_found [OF _ assms(1) st] show False by (fastforce simp: found_free_def)
  qed
qed


text \<open>The mutex when a branch that takes it is left.\<close>

definition got :: "bool \<Rightarrow> i32 \<Rightarrow> mutex \<Rightarrow> bool" where
  "got no_incr k m \<longleftrightarrow> (\<exists>m0 v c sp. found_free k m0 \<and> m = m0\<lparr>m_lock := v, m_count := c, m_spins := sp\<rparr> \<and>
     (v = 1 \<or> v = 2) \<and> (no_incr \<longrightarrow> v = 2) \<and> c = (if k = PTHREAD_MUTEX_RECURSIVE_NP then 1 else m_count m0))"

lemma gotI:
  "found_free k m0 \<Longrightarrow> v = 1 \<or> v = 2 \<Longrightarrow> no_incr \<longrightarrow> v = 2 \<Longrightarrow>
   c = (if k = PTHREAD_MUTEX_RECURSIVE_NP then 1 else m_count m0) \<Longrightarrow>
   m = m0\<lparr>m_lock := v, m_count := c, m_spins := sp\<rparr> \<Longrightarrow> got no_incr k m"
  unfolding got_def by blast

lemma got_simple:
  assumes "lock_simple n E no_incr i mi thd s = Ret f t" and "fair_others E" and "steady i k s"
    and "k \<noteq> PTHREAD_MUTEX_RECURSIVE_NP"
  shows "f = Break \<and> got no_incr k (mtx t i)"
proof -
  from lock_simple_found [OF assms(1-3)] obtain m v where
    m: "f = Break" "found_free k m" "mtx t i = m\<lparr>m_lock := v\<rparr>" "v = 1 \<or> v = 2" "no_incr \<longrightarrow> v = 2" by blast
  have "got no_incr k (mtx t i)"
    by (rule gotI [OF m(2,4,5), of "m_count m" _ "m_spins m"]) (simp_all add: m(3) assms(4))
  with m(1) show ?thesis by simp
qed

lemma got_adaptive:
  assumes "lock_adaptive n E no_incr i mi thd s = Ret f t" and "fair_others E" and "steady i k s"
    and "k \<noteq> PTHREAD_MUTEX_RECURSIVE_NP"
  shows "f = Break \<and> got no_incr k (mtx t i)"
proof -
  from lock_adaptive_found [OF assms(1-3)] obtain m v sp where
    m: "f = Break" "found_free k m" "mtx t i = m\<lparr>m_lock := v, m_spins := sp\<rparr>" "v = 1 \<or> v = 2"
      "no_incr \<longrightarrow> v = 2" by blast
  have "got no_incr k (mtx t i)"
    by (rule gotI [OF m(2,4,5), of "m_count m" _ sp]) (simp_all add: m(3) assms(4))
  with m(1) show ?thesis by simp
qed

lemma got_recursive:
  assumes "lock_recursive n E no_incr i me s = Ret f t" and "m_owner (mtx s i) \<noteq> me" and "fair_others E"
    and "steady i k s" and "k = PTHREAD_MUTEX_RECURSIVE_NP"
  shows "f = Break \<and> got no_incr k (mtx t i)"
proof -
  from assms(1,2) obtain s1 where l: "LLL_MUTEX_LOCK n E no_incr i s = Ret () s1"
    and t: "f = Break" "t = set_count i 1 s1"
    by (auto simp: lock_recursive_def out_ret)
  from MUTEX_LOCK_found [OF l assms(3,4)] obtain m v where
    m: "found_free k m" "mtx s1 i = m\<lparr>m_lock := v\<rparr>" "v = 1 \<or> v = 2" "no_incr \<longrightarrow> v = 2" by blast
  have "got no_incr k (mtx t i)"
    by (rule gotI [OF m(1,3,4), of 1 _ "m_spins m"]) (simp_all add: m(2) t(2) assms(5))
  with t(1) show ?thesis by simp
qed

lemma lock_recursive_no_Abort:
  assumes "fair_others E" and "steady i k s"
  shows "lock_recursive n E no_incr i me s \<noteq> Abort"
proof
  assume ab: "lock_recursive n E no_incr i me s = Abort"
  then obtain s1 where "LLL_MUTEX_LOCK n E no_incr i s = Ret () s1" "m_owner (mtx s1 i) \<noteq> 0"
    using MUTEX_LOCK_no_Abort [of n E no_incr i s]
    by (cases "LLL_MUTEX_LOCK n E no_incr i s") (auto simp: lock_recursive_def assrt_def split: if_splits)
  with MUTEX_LOCK_found [OF _ assms] show False by (fastforce simp: found_free_def)
qed

section \<open>Taking a mutex among other threads\<close>

definition basic_kinds :: "i32 set" where
  "basic_kinds = {PTHREAD_MUTEX_TIMED_NP, PTHREAD_MUTEX_RECURSIVE_NP, PTHREAD_MUTEX_ERRORCHECK_NP,
     PTHREAD_MUTEX_ADAPTIVE_NP}"

text \<open>The thread may try: it does not own the mutex already where the kind checks that.\<close>

definition may_lock :: "i32 \<Rightarrow> mutex \<Rightarrow> bool" where
  "may_lock me m \<longleftrightarrow> m_kind m \<in> basic_kinds \<and>
     (m_kind m \<in> {PTHREAD_MUTEX_RECURSIVE_NP, PTHREAD_MUTEX_ERRORCHECK_NP} \<longrightarrow> m_owner m \<noteq> me)"

text \<open>\<open>m\<close> is the mutex after \<open>me\<close> has taken \<open>m0\<close>, which was free.\<close>

definition acquired :: "bool \<Rightarrow> i32 \<Rightarrow> mutex \<Rightarrow> mutex \<Rightarrow> bool" where
  "acquired no_incr me m0 m \<longleftrightarrow> m_lock m0 = 0 \<and> m_owner m0 = 0 \<and>
     (m_lock m = 1 \<or> m_lock m = 2) \<and> (no_incr \<longrightarrow> m_lock m = 2) \<and> m_owner m = me \<and>
     m_nusers m = m_nusers m0 + (if no_incr then 0 else 1) \<and> m_kind m = m_kind m0 \<and>
     m_count m = (if m_kind m0 = PTHREAD_MUTEX_RECURSIVE_NP then 1 else m_count m0)"

lemma lock_switch_cases:
  assumes "may_lock me m" and "m = mtx s i"
  obtains (rec) "m_kind m = PTHREAD_MUTEX_RECURSIVE_NP" "m_owner m \<noteq> me"
      "lock_switch n E no_incr i mi thd me s = lock_recursive n E no_incr i me s"
    | (simple) "m_kind m \<noteq> PTHREAD_MUTEX_RECURSIVE_NP"
      "lock_switch n E no_incr i mi thd me s = lock_simple n E no_incr i mi thd s"
    | (adaptive) "m_kind m \<noteq> PTHREAD_MUTEX_RECURSIVE_NP"
      "lock_switch n E no_incr i mi thd me s = lock_adaptive n E no_incr i mi thd s"
proof -
  from assms consider "m_kind m = PTHREAD_MUTEX_RECURSIVE_NP \<and> m_owner m \<noteq> me"
    | "m_kind m = PTHREAD_MUTEX_TIMED_NP" | "m_kind m = PTHREAD_MUTEX_ERRORCHECK_NP \<and> m_owner m \<noteq> me"
    | "m_kind m = PTHREAD_MUTEX_ADAPTIVE_NP"
    by (auto simp: may_lock_def basic_kinds_def)
  then show thesis
  proof cases
    case 1
    then show ?thesis using rec assms(2) by (simp add: lock_switch_def)
  next
    case 2
    then show ?thesis using simple assms(2) by (simp add: lock_switch_def mutex_kinds)
  next
    case 3
    then show ?thesis using simple assms(2) by (simp add: lock_switch_def lock_errorcheck_def mutex_kinds)
  next
    case 4
    then show ?thesis using adaptive assms(2) by (simp add: lock_switch_def mutex_kinds)
  qed
qed

lemma lock_switch_acquires:
  assumes "fair_others E" and "free_unowned (mtx s i)" and "may_lock me (mtx s i)"
  shows "lock_switch n E no_incr i mi thd me s \<noteq> Abort \<and>
    (\<forall>f t. lock_switch n E no_incr i mi thd me s = Ret f t \<longrightarrow> f = Break \<and> got no_incr (m_kind (mtx s i)) (mtx t i))"
proof -
  have st: "steady i (m_kind (mtx s i)) s" using assms(2) by (simp add: steady_def)
  show ?thesis
  proof (rule lock_switch_cases [OF assms(3) refl, of n E no_incr mi thd])
    assume "m_kind (mtx s i) = PTHREAD_MUTEX_RECURSIVE_NP" "m_owner (mtx s i) \<noteq> me"
      "lock_switch n E no_incr i mi thd me s = lock_recursive n E no_incr i me s"
    then show ?thesis
      using lock_recursive_no_Abort [OF assms(1) st] got_recursive [OF _ _ assms(1) st] by simp
  next
    assume "m_kind (mtx s i) \<noteq> PTHREAD_MUTEX_RECURSIVE_NP"
      "lock_switch n E no_incr i mi thd me s = lock_simple n E no_incr i mi thd s"
    then show ?thesis
      using lock_simple_no_Abort [OF assms(1) st] got_simple [OF _ assms(1) st] by simp
  next
    assume "m_kind (mtx s i) \<noteq> PTHREAD_MUTEX_RECURSIVE_NP"
      "lock_switch n E no_incr i mi thd me s = lock_adaptive n E no_incr i mi thd s"
    then show ?thesis
      using lock_adaptive_no_Abort [OF assms(1) st] got_adaptive [OF _ assms(1) st] by simp
  qed
qed

lemma lock_real_acquires:
  assumes "fair_others E" and "free_unowned (mtx s i)" and "may_lock (p_tid (slf s)) (mtx s i)"
  shows "lock_real n E no_incr i mi thd s \<noteq> Abort"
    and "lock_real n E no_incr i mi thd s = Ret r t \<Longrightarrow>
      r = 0 \<and> (\<exists>m0. acquired no_incr (p_tid (slf s)) m0 (mtx t i) \<and> m_kind m0 = m_kind (mtx s i))"
proof -
  note sw = lock_switch_acquires [OF assms, of n no_incr mi thd]
  show "lock_real n E no_incr i mi thd s \<noteq> Abort"
    using sw by (cases "lock_switch n E no_incr i mi thd (p_tid (slf s)) s")
      (simp_all add: lock_real_def Let_def split: flow.split)
  assume "lock_real n E no_incr i mi thd s = Ret r t"
  then obtain f s1 where l: "lock_switch n E no_incr i mi thd (p_tid (slf s)) s = Ret f s1"
    and k: "(case f of Return r \<Rightarrow> Ret r s1 | Break \<Rightarrow> let s' = set_owner i (p_tid (slf s)) s1
      in Ret 0 (if no_incr then s' else add_nusers i 1 s')) = Ret r t"
    by (auto simp: lock_real_def Let_def out_ret)
  from sw l have f: "f = Break" and "got no_incr (m_kind (mtx s i)) (mtx s1 i)" by blast+
  then obtain m v c sp where m: "found_free (m_kind (mtx s i)) m"
      "mtx s1 i = m\<lparr>m_lock := v, m_count := c, m_spins := sp\<rparr>" "v = 1 \<or> v = 2" "no_incr \<longrightarrow> v = 2"
      "c = (if m_kind (mtx s i) = PTHREAD_MUTEX_RECURSIVE_NP then 1 else m_count m)" 
    unfolding got_def by blast
  from f k have r: "r = 0" and t: "mtx t i = (mtx s1 i)\<lparr>m_owner := p_tid (slf s),
      m_nusers := m_nusers (mtx s1 i) + (if no_incr then 0 else 1)\<rparr>"
    by (auto simp: Let_def)
  have "acquired no_incr (p_tid (slf s)) m (mtx t i)"
    using m by (simp add: t acquired_def found_free_def)
  with m(1) r show "r = 0 \<and> (\<exists>m0. acquired no_incr (p_tid (slf s)) m0 (mtx t i) \<and> m_kind m0 = m_kind (mtx s i))"
    by (auto simp: found_free_def)
qed

end
