(* ===== verification/MutexUnlock.thy ===== *)
theory MutexUnlock
  imports MutexLock
begin

unbundle bit_operations_syntax

text \<open>
  Releasing, creating and destroying: \<open>source/mutex_unlock.c\<close>, \<open>source/mutex_init.c\<close> and
  \<open>source/mutex_destroy.c\<close>. Code that is switched off by \<open>#if 0\<close> is not modelled; since the
  \<open>break\<close> of the priority inheriting kinds is in such a block, those kinds go on in the case of
  \<open>PTHREAD_MUTEX_PP_RECURSIVE_NP\<close>, as the C compiler has it.
\<close>

section \<open>Unlock\<close>

text \<open>The label \<open>normal\<close>.\<close>

definition unlock_normal :: "envr \<Rightarrow> bool \<Rightarrow> nat \<Rightarrow> nptl \<Rightarrow> (i32, nptl) out" where
  "unlock_normal E decr i s =
     (let s = set_owner i 0 s;
          s = (if decr then add_nusers i (-1) s else s)
      in Ret 0 (lll_unlock (mutex_cell E i) False (PTHREAD_MUTEX_PSHARED (mtx s i)) s))"

text \<open>The label \<open>robust\<close>.\<close>

definition unlock_robust :: "envr \<Rightarrow> bool \<Rightarrow> i32 \<Rightarrow> nat \<Rightarrow> nptl \<Rightarrow> (i32, nptl) out" where
  "unlock_robust E decr newowner i s =
     (let s = set_pending (e_list_at E i) s;
          s = s\<lparr>rl := DEQUEUE_MUTEX (e_list_at E i) (rl s)\<rparr>;
          s = set_owner i newowner s;
          s = (if decr then add_nusers i (-1) s else s);
          s = lll_robust_unlock (mutex_cell E i) (PTHREAD_ROBUST_MUTEX_PSHARED (mtx s i)) s
      in Ret 0 (set_pending 0 s))"

text \<open>The loop of lines 268 to 273: the value is the word that was replaced.\<close>

fun pp_release :: "nat \<Rightarrow> envr \<Rightarrow> nat \<Rightarrow> nptl \<Rightarrow> (i32, nptl) out" where
  "pp_release 0 E i s = Stuck"
| "pp_release (Suc n) E i s =
     (case loadl (mutex_cell E i) s of (oldval, s) \<Rightarrow>
        case cmpxchg (mutex_cell E i) (oldval AND PTHREAD_MUTEX_PRIO_CEILING_MASK) oldval s of (v, s) \<Rightarrow>
          if v = oldval then Ret oldval s else pp_release n E i s)"

text \<open>The label \<open>pp\<close>. The shift right of the \<open>int\<close> \<open>newval\<close> keeps its sign.\<close>

definition unlock_pp :: "nat \<Rightarrow> envr \<Rightarrow> bool \<Rightarrow> nat \<Rightarrow> nptl \<Rightarrow> (i32, nptl) out" where
  "unlock_pp n E decr i s =
     (let s = set_owner i 0 s;
          s = (if decr then add_nusers i (-1) s else s)
      in bnd (pp_release n E i s) (\<lambda>oldval s.
           let newval = oldval AND PTHREAD_MUTEX_PRIO_CEILING_MASK;
               s = (if oldval AND NOT PTHREAD_MUTEX_PRIO_CEILING_MASK > 1
                    then lll_futex_wake (mutex_cell E i) 1 (PTHREAD_MUTEX_PSHARED (mtx s i)) s else s);
               oldprio = sint newval div 2 ^ PTHREAD_MUTEX_PRIO_CEILING_SHIFT
           in tpp_change_priority n E oldprio (-1) s))"

text \<open>The case of a recursive priority protected mutex, where the priority inheriting kinds go on.\<close>

definition unlock_pp_recursive :: "nat \<Rightarrow> envr \<Rightarrow> bool \<Rightarrow> nat \<Rightarrow> nptl \<Rightarrow> (i32, nptl) out" where
  "unlock_pp_recursive n E decr i s =
     (if m_owner (mtx s i) \<noteq> p_tid (slf s) then Ret EPERM s
      else let s = add_count i (-1) s
           in if m_count (mtx s i) \<noteq> 0 then Ret 0 s else unlock_pp n E decr i s)"

definition unlock_full :: "nat \<Rightarrow> envr \<Rightarrow> bool \<Rightarrow> nat \<Rightarrow> nptl \<Rightarrow> (i32, nptl) out" where
  "unlock_full n E decr i s =
     (let ty = PTHREAD_MUTEX_TYPE (mtx s i); me = p_tid (slf s) in
      if ty = PTHREAD_MUTEX_ROBUST_RECURSIVE_NP then
        case loadl (mutex_cell E i) s of (v, s) \<Rightarrow>
          if v AND FUTEX_TID_MASK = me \<and> m_owner (mtx s i) = PTHREAD_MUTEX_INCONSISTENT then
            let s = add_count i (-1) s
            in if m_count (mtx s i) \<noteq> 0 then Ret ENOTRECOVERABLE s
               else unlock_robust E decr PTHREAD_MUTEX_NOTRECOVERABLE i s
          else if m_owner (mtx s i) \<noteq> me then Ret EPERM s
          else let s = add_count i (-1) s
               in if m_count (mtx s i) \<noteq> 0 then Ret 0 s else unlock_robust E decr 0 i s
      else if ty \<in> kinds_robust then
        case loadl (mutex_cell E i) s of (v, s) \<Rightarrow>
          if v AND FUTEX_TID_MASK \<noteq> me then Ret EPERM s
          else case lll_islocked (mutex_cell E i) s of (locked, s) \<Rightarrow>
            if \<not> locked then Ret EPERM s
            else unlock_robust E decr
                   (if m_owner (mtx s i) = PTHREAD_MUTEX_INCONSISTENT then PTHREAD_MUTEX_NOTRECOVERABLE else 0) i s
      else if ty = PTHREAD_MUTEX_PI_RECURSIVE_NP then
        if m_owner (mtx s i) \<noteq> me then Ret EPERM s
        else let s = add_count i (-1) s
             in if m_count (mtx s i) \<noteq> 0 then Ret 0 s else unlock_pp_recursive n E decr i s
      else if ty \<in> kinds_pi \<or> ty = PTHREAD_MUTEX_PP_RECURSIVE_NP then unlock_pp_recursive n E decr i s
      else if ty = PTHREAD_MUTEX_PP_ERRORCHECK_NP then
        if m_owner (mtx s i) \<noteq> me then Ret EPERM s
        else case loadl (mutex_cell E i) s of (v, s) \<Rightarrow>
          if v AND NOT PTHREAD_MUTEX_PRIO_CEILING_MASK = 0 then Ret EPERM s else unlock_pp n E decr i s
      else if ty \<in> kinds_pp then unlock_pp n E decr i s
      else Ret EINVAL s)"

definition unlock_usercnt :: "nat \<Rightarrow> envr \<Rightarrow> bool \<Rightarrow> nat \<Rightarrow> nptl \<Rightarrow> (i32, nptl) out" where
  "unlock_usercnt n E decr i s =
     (let ty = PTHREAD_MUTEX_TYPE_ELISION (mtx s i) in
      if ty AND NOT (PTHREAD_MUTEX_KIND_MASK_NP OR (PTHREAD_MUTEX_ELISION_NP OR PTHREAD_MUTEX_NO_ELISION_NP)) \<noteq> 0
      then unlock_full n E decr i s
      else if ty = PTHREAD_MUTEX_TIMED_NP then unlock_normal E decr i s
      else if ty = PTHREAD_MUTEX_TIMED_ELISION_NP then Ret (e_unspec E (clk s)) s
      else if PTHREAD_MUTEX_TYPE (mtx s i) = PTHREAD_MUTEX_RECURSIVE_NP then
        if m_owner (mtx s i) \<noteq> p_tid (slf s) then Ret EPERM s
        else let s = add_count i (-1) s
             in if m_count (mtx s i) \<noteq> 0 then Ret 0 s else unlock_normal E decr i s
      else if PTHREAD_MUTEX_TYPE (mtx s i) = PTHREAD_MUTEX_ADAPTIVE_NP then unlock_normal E decr i s
      else
        assrt (ty = PTHREAD_MUTEX_ERRORCHECK_NP)
          (if m_owner (mtx s i) \<noteq> p_tid (slf s) then Ret EPERM s
           else case lll_islocked (mutex_cell E i) s of (locked, s) \<Rightarrow>
             if \<not> locked then Ret EPERM s else unlock_normal E decr i s))"

definition pthread_mutex_unlock :: "nat \<Rightarrow> envr \<Rightarrow> u64 \<Rightarrow> nptl \<Rightarrow> (i32, nptl) out" where
  "pthread_mutex_unlock n E p s = bnd (get_mutex p s) (\<lambda>i s. unlock_usercnt n E True i s)"

section \<open>Init and destroy\<close>

definition PTHREAD_MUTEXATTR_PROTOCOL_SHIFT :: nat where "PTHREAD_MUTEXATTR_PROTOCOL_SHIFT = 28"
definition PTHREAD_MUTEXATTR_PROTOCOL_MASK :: i32 where "PTHREAD_MUTEXATTR_PROTOCOL_MASK = 0x30000000"
definition PTHREAD_MUTEXATTR_PRIO_CEILING_SHIFT :: nat where "PTHREAD_MUTEXATTR_PRIO_CEILING_SHIFT = 12"
definition PTHREAD_MUTEXATTR_PRIO_CEILING_MASK :: i32 where "PTHREAD_MUTEXATTR_PRIO_CEILING_MASK = 0x00fff000"
definition PTHREAD_MUTEXATTR_FLAG_ROBUST :: i32 where "PTHREAD_MUTEXATTR_FLAG_ROBUST = 0x40000000"
definition PTHREAD_MUTEXATTR_FLAG_PSHARED :: i32 where "PTHREAD_MUTEXATTR_FLAG_PSHARED = 0x80000000"
definition PTHREAD_MUTEXATTR_FLAG_BITS :: i32 where
  "PTHREAD_MUTEXATTR_FLAG_BITS = PTHREAD_MUTEXATTR_FLAG_ROBUST OR PTHREAD_MUTEXATTR_FLAG_PSHARED OR
     PTHREAD_MUTEXATTR_PROTOCOL_MASK OR PTHREAD_MUTEXATTR_PRIO_CEILING_MASK"

text \<open>The protocols of POSIX, from \<open>pthread.h\<close>.\<close>

definition PTHREAD_PRIO_NONE :: i32 where "PTHREAD_PRIO_NONE = 0"
definition PTHREAD_PRIO_INHERIT :: i32 where "PTHREAD_PRIO_INHERIT = 1"
definition PTHREAD_PRIO_PROTECT :: i32 where "PTHREAD_PRIO_PROTECT = 2"

lemmas attr_defs = PTHREAD_MUTEXATTR_PROTOCOL_SHIFT_def PTHREAD_MUTEXATTR_PROTOCOL_MASK_def
  PTHREAD_MUTEXATTR_PRIO_CEILING_SHIFT_def PTHREAD_MUTEXATTR_PRIO_CEILING_MASK_def
  PTHREAD_MUTEXATTR_FLAG_ROBUST_def PTHREAD_MUTEXATTR_FLAG_PSHARED_def PTHREAD_MUTEXATTR_FLAG_BITS_def
  PTHREAD_PRIO_NONE_def PTHREAD_PRIO_INHERIT_def PTHREAD_PRIO_PROTECT_def

definition default_mutexattr :: i32 where "default_mutexattr = PTHREAD_MUTEX_TIMED_NP"

text \<open>The mutex that lines 57 to 98 build from the attribute.\<close>

definition init_mutex :: "i32 \<Rightarrow> mutex" where
  "init_mutex mk =
     (let m = zero_mutex;
          m = m\<lparr>m_kind := mk AND NOT PTHREAD_MUTEXATTR_FLAG_BITS\<rparr>;
          m = (if mk AND PTHREAD_MUTEXATTR_FLAG_ROBUST \<noteq> 0
               then m\<lparr>m_kind := m_kind m OR PTHREAD_MUTEX_ROBUST_NORMAL_NP\<rparr> else m);
          prot = mk AND PTHREAD_MUTEXATTR_PROTOCOL_MASK;
          m = (if prot = push_bit PTHREAD_MUTEXATTR_PROTOCOL_SHIFT PTHREAD_PRIO_INHERIT
               then m\<lparr>m_kind := m_kind m OR PTHREAD_MUTEX_PRIO_INHERIT_NP\<rparr>
               else if prot = push_bit PTHREAD_MUTEXATTR_PROTOCOL_SHIFT PTHREAD_PRIO_PROTECT
               then let m = m\<lparr>m_kind := m_kind m OR PTHREAD_MUTEX_PRIO_PROTECT_NP\<rparr>;
                        ceil = drop_bit PTHREAD_MUTEXATTR_PRIO_CEILING_SHIFT
                                 (mk AND PTHREAD_MUTEXATTR_PRIO_CEILING_MASK)
                    in m\<lparr>m_lock := push_bit PTHREAD_MUTEX_PRIO_CEILING_SHIFT ceil\<rparr>
               else m)
      in if mk AND (PTHREAD_MUTEXATTR_FLAG_PSHARED OR PTHREAD_MUTEXATTR_FLAG_ROBUST) \<noteq> 0
         then m\<lparr>m_kind := m_kind m OR PTHREAD_MUTEX_PSHARED_BIT\<rparr> else m)"

text \<open>The sanity check of lines 39 to 55.\<close>

definition init_refuses :: "i32 \<Rightarrow> bool" where
  "init_refuses mk \<longleftrightarrow>
     (let prot = mk AND PTHREAD_MUTEXATTR_PROTOCOL_MASK
      in prot \<noteq> push_bit PTHREAD_MUTEXATTR_PROTOCOL_SHIFT PTHREAD_PRIO_NONE \<and>
         prot \<noteq> push_bit PTHREAD_MUTEXATTR_PROTOCOL_SHIFT PTHREAD_PRIO_INHERIT \<and>
         mk AND PTHREAD_MUTEXATTR_FLAG_ROBUST \<noteq> 0)"

definition pthread_mutex_init :: "envr \<Rightarrow> u64 \<Rightarrow> i32 option \<Rightarrow> nptl \<Rightarrow> (i32, nptl) out" where
  "pthread_mutex_init E p attr s =
     bnd (create_mutex s) (\<lambda>e s.
       let s = s\<lparr>nominal := (nominal s)(p \<mapsto> e)\<rparr>;
           mk = (case attr of Some k \<Rightarrow> k | None \<Rightarrow> default_mutexattr)
       in if init_refuses mk then Ret ENOTSUP s
          else
            let s = upd_mtx e (\<lambda>_. init_mutex mk) s;
                a = e_list_at E e;
                s = s\<lparr>rl := \<lparr>l_next = (l_next (rl s))(a := 0), l_prev = (l_prev (rl s))(a := 0)\<rparr>\<rparr>
            in Ret 0 s)"

definition pthread_mutex_destroy :: "u64 \<Rightarrow> nptl \<Rightarrow> (i32, nptl) out" where
  "pthread_mutex_destroy p s =
     bnd (get_mutex p s) (\<lambda>i s.
       if m_kind (mtx s i) AND PTHREAD_MUTEX_ROBUST_NORMAL_NP = 0 \<and> m_nusers (mtx s i) \<noteq> 0
       then Ret EBUSY s else Ret 0 (set_kind i (-1) s))"

end
