(* ===== verification/MutexTrylock.thy ===== *)
theory MutexTrylock
  imports MutexLock
begin

unbundle bit_operations_syntax

text \<open>
  \<open>pthread_mutex_trylock\<close> of \<open>source/mutex_trylock.c\<close>. The kind is masked with
  \<open>PTHREAD_MUTEX_TYPE_ELISION\<close> before the \<open>switch\<close>, unlike in \<open>pthread_mutex_lock\<close>. One
  definition per group of labels; \<open>me\<close> is \<open>id\<close> in the source.
\<close>

text \<open>Bumping the counter of a recursive mutex.\<close>

definition bump_count :: "nat \<Rightarrow> nptl \<Rightarrow> (i32, nptl) out" where
  "bump_count i s =
     (if m_count (mtx s i) + 1 = 0 then Ret EAGAIN s else Ret 0 (add_count i 1 s))"

text \<open>Recording the ownership.\<close>

definition record_owner :: "nat \<Rightarrow> i32 \<Rightarrow> nptl \<Rightarrow> nptl" where
  "record_owner i me s = add_nusers i 1 (set_owner i me s)"

definition trylock_recursive :: "envr \<Rightarrow> nat \<Rightarrow> i32 \<Rightarrow> nptl \<Rightarrow> (i32, nptl) out" where
  "trylock_recursive E i me s =
     (if m_owner (mtx s i) = me then bump_count i s
      else case lll_trylock (mutex_cell E i) s of (r, s) \<Rightarrow>
        if r = 0 then Ret 0 (add_nusers i 1 (set_count i 1 (set_owner i me s))) else Ret EBUSY s)"

definition trylock_elision :: "envr \<Rightarrow> nat \<Rightarrow> nptl \<Rightarrow> (i32, nptl) out" where
  "trylock_elision E i s =
     assrt (PTHREAD_MUTEX_TYPE_ELISION (mtx s i) \<noteq> PTHREAD_MUTEX_TIMED_ELISION_NP)
       (case lll_trylock (mutex_cell E i) s of (r, s) \<Rightarrow> Ret (if r \<noteq> 0 then EBUSY else 0) s)"

definition trylock_normal :: "envr \<Rightarrow> nat \<Rightarrow> i32 \<Rightarrow> nptl \<Rightarrow> (i32, nptl) out" where
  "trylock_normal E i me s =
     (case lll_trylock (mutex_cell E i) s of (r, s) \<Rightarrow>
        if r \<noteq> 0 then Ret EBUSY s else Ret 0 (record_owner i me s))"

section \<open>Robust kinds\<close>

definition enqueue :: "envr \<Rightarrow> nat \<Rightarrow> nptl \<Rightarrow> nptl" where
  "enqueue E i s = s\<lparr>rl := ENQUEUE_MUTEX (e_list_at E i) (p_robust_head (slf s)) (rl s)\<rparr>"

text \<open>The mutex is got from an owner that died: lines 169 to 181.\<close>

definition got_inconsistent :: "envr \<Rightarrow> nat \<Rightarrow> nptl \<Rightarrow> nptl" where
  "got_inconsistent E i s =
     set_pending 0 (enqueue E i (set_owner i PTHREAD_MUTEX_INCONSISTENT (set_count i 1 s)))"

definition robust_already :: "nat \<Rightarrow> nptl \<Rightarrow> (i32, nptl) out option" where
  "robust_already i s =
     (let kind = PTHREAD_MUTEX_TYPE (mtx s i) in
      if kind = PTHREAD_MUTEX_ROBUST_ERRORCHECK_NP then Some (Ret EDEADLK (set_pending 0 s))
      else if kind = PTHREAD_MUTEX_ROBUST_RECURSIVE_NP then Some (bump_count i (set_pending 0 s))
      else None)"

text \<open>The loop of lines 151 to 232, to which \<open>again\<close> jumps back as well.\<close>

fun trylock_robust_loop :: "nat \<Rightarrow> envr \<Rightarrow> nat \<Rightarrow> i32 \<Rightarrow> i32 \<Rightarrow> nptl \<Rightarrow> (flow, nptl) out" where
  "trylock_robust_loop 0 E i me oldval s = Stuck"
| "trylock_robust_loop (Suc n) E i me oldval s =
     (if oldval AND FUTEX_OWNER_DIED \<noteq> 0 then
        case cmpxchg (mutex_cell E i) (me OR (oldval AND FUTEX_WAITERS)) oldval s of (newval, s) \<Rightarrow>
          if newval \<noteq> oldval then trylock_robust_loop n E i me newval s
          else Ret (Return EOWNERDEAD) (got_inconsistent E i s)
      else case (if oldval AND FUTEX_TID_MASK = me then robust_already i s else None) of
        Some res \<Rightarrow> bnd res (\<lambda>r s. Ret (Return r) s)
      | None \<Rightarrow>
        case cmpxchg (mutex_cell E i) me 0 s of (oldval, s) \<Rightarrow>
          if oldval \<noteq> 0 \<and> oldval AND FUTEX_OWNER_DIED = 0 then Ret (Return EBUSY) (set_pending 0 s)
          else if m_owner (mtx s i) = PTHREAD_MUTEX_NOTRECOVERABLE then
            let s = set_count i 0 s;
                s = (if oldval = me
                     then lll_unlock (mutex_cell E i) False (PTHREAD_ROBUST_MUTEX_PSHARED (mtx s i)) s else s)
            in Ret (Return ENOTRECOVERABLE) (set_pending 0 s)
          else if oldval AND FUTEX_OWNER_DIED \<noteq> 0 then trylock_robust_loop n E i me oldval s
          else Ret Break s)"

definition trylock_robust :: "nat \<Rightarrow> envr \<Rightarrow> nat \<Rightarrow> i32 \<Rightarrow> nptl \<Rightarrow> (i32, nptl) out" where
  "trylock_robust n E i me s =
     (let s = set_pending (e_list_at E i) s
      in case loadl (mutex_cell E i) s of (oldval, s) \<Rightarrow>
        bnd (trylock_robust_loop n E i me oldval s) (\<lambda>f s.
          case f of
            Return r \<Rightarrow> Ret r s
          | Break \<Rightarrow> Ret 0 (set_count i 1 (record_owner i me (set_pending 0 (enqueue E i s))))))"

section \<open>Priority inheriting kinds\<close>

text \<open>Lines 297 to 327: the value is the lock word, or \<open>None\<close> when the mutex is busy.\<close>

definition trylock_pi_word :: "envr \<Rightarrow> nat \<Rightarrow> bool \<Rightarrow> i32 \<Rightarrow> nptl \<Rightarrow> (i32 option, nptl) out" where
  "trylock_pi_word E i robust oldval s =
     (if oldval \<noteq> 0 then
        if oldval AND FUTEX_OWNER_DIED = 0 then Ret None (set_pending 0 s)
        else assrt robust
          (let private = (if robust then PTHREAD_ROBUST_MUTEX_PSHARED (mtx s i) else PTHREAD_MUTEX_PSHARED (mtx s i))
           in case futex_pi_call E (lll_private_flag FUTEX_TRYLOCK_PI private) 0 i s of (ret, s) \<Rightarrow>
             let e = scast (ucast ret :: i32) :: i64 in
             if internal_syscall_error_p e \<and> ucast (internal_syscall_errno e) = EWOULDBLOCK
             then Ret None (set_pending 0 s)
             else case loadl (mutex_cell E i) s of (v, s) \<Rightarrow> Ret (Some v) s)
      else Ret (Some oldval) s)"

text \<open>Lines 329 to 375.\<close>

definition trylock_pi_finish :: "envr \<Rightarrow> nat \<Rightarrow> i32 \<Rightarrow> bool \<Rightarrow> i32 \<Rightarrow> nptl \<Rightarrow> (i32, nptl) out" where
  "trylock_pi_finish E i me robust oldval s =
     (if oldval AND FUTEX_OWNER_DIED \<noteq> 0 then
        Ret EOWNERDEAD (got_inconsistent E i (snd (andl (mutex_cell E i) (NOT FUTEX_OWNER_DIED) s)))
      else if robust \<and> m_owner (mtx s i) = PTHREAD_MUTEX_NOTRECOVERABLE then
        let s = set_count i 0 s;
            s = snd (futex_pi_call E (lll_private_flag FUTEX_UNLOCK_PI (PTHREAD_ROBUST_MUTEX_PSHARED (mtx s i))) 0 i s)
        in Ret ENOTRECOVERABLE (set_pending 0 s)
      else
        let s = (if robust then set_pending 0 (enqueue_pi E i s) else s)
        in Ret 0 (set_count i 1 (record_owner i me s)))"

definition trylock_pi :: "envr \<Rightarrow> nat \<Rightarrow> i32 \<Rightarrow> nptl \<Rightarrow> (i32, nptl) out" where
  "trylock_pi E i me s =
     (let kind = m_kind (mtx s i) AND PTHREAD_MUTEX_KIND_MASK_NP;
          robust = (m_kind (mtx s i) AND PTHREAD_MUTEX_ROBUST_NORMAL_NP \<noteq> 0);
          s = (if robust then set_pending (e_list_at E i OR 1) s else s)
      in case loadl (mutex_cell E i) s of (oldval, s) \<Rightarrow>
        case (if oldval AND FUTEX_TID_MASK = me then pi_already i kind s else None) of
          Some (r, s) \<Rightarrow> Ret r s
        | None \<Rightarrow>
            case cmpxchg (mutex_cell E i) me 0 s of (oldval, s) \<Rightarrow>
              bnd (trylock_pi_word E i robust oldval s) (\<lambda>w s.
                case w of None \<Rightarrow> Ret EBUSY s | Some v \<Rightarrow> trylock_pi_finish E i me robust v s))"

section \<open>Priority protected kinds\<close>

text \<open>The loop of lines 409 to 435: \<open>Inl r\<close> returns, \<open>Inr (oldval, ceilval, oldprio)\<close> leaves the loop.\<close>

fun trylock_pp_loop :: "nat \<Rightarrow> envr \<Rightarrow> nat \<Rightarrow> int \<Rightarrow> i32 \<Rightarrow> nptl \<Rightarrow> (i32 + i32 \<times> i32 \<times> int, nptl) out" where
  "trylock_pp_loop 0 E i oldprio oldval s = Stuck"
| "trylock_pp_loop (Suc n) E i oldprio oldval s =
     (let ceil = ceiling_of oldval in
      bnd (current_priority (Suc n) E s) (\<lambda>prio s.
        if prio > ceil then
          if oldprio \<noteq> -1
          then bnd (tpp_change_priority (Suc n) E oldprio (-1) s) (\<lambda>_ s. Ret (Inl EINVAL) s)
          else Ret (Inl EINVAL) s
        else
          bnd (tpp_change_priority (Suc n) E oldprio ceil s) (\<lambda>retval s.
            if retval \<noteq> 0 then Ret (Inl retval) s
            else
              let ceilval = ceilval_of ceil
              in case cmpxchg (mutex_cell E i) (ceilval OR 1) ceilval s of (oldval, s) \<Rightarrow>
                if oldval = ceilval then Ret (Inr (oldval, ceilval, ceil)) s
                else if oldval AND PTHREAD_MUTEX_PRIO_CEILING_MASK \<noteq> ceilval
                then trylock_pp_loop n E i ceil oldval s
                else Ret (Inr (oldval, ceilval, ceil)) s)))"

definition trylock_pp :: "nat \<Rightarrow> envr \<Rightarrow> nat \<Rightarrow> i32 \<Rightarrow> nptl \<Rightarrow> (i32, nptl) out" where
  "trylock_pp n E i me s =
     (let kind = m_kind (mtx s i) AND PTHREAD_MUTEX_KIND_MASK_NP
      in case loadl (mutex_cell E i) s of (oldval, s) \<Rightarrow>
        if m_owner (mtx s i) = me \<and> kind = PTHREAD_MUTEX_ERRORCHECK_NP then Ret EDEADLK s
        else if m_owner (mtx s i) = me \<and> kind = PTHREAD_MUTEX_RECURSIVE_NP then bump_count i s
        else bnd (trylock_pp_loop n E i (-1) oldval s) (\<lambda>x s.
          case x of
            Inl r \<Rightarrow> Ret r s
          | Inr (oldval, ceilval, oldprio) \<Rightarrow>
              if oldval \<noteq> ceilval
              then bnd (tpp_change_priority n E oldprio (-1) s) (\<lambda>_ s. Ret EBUSY s)
              else assrt (m_owner (mtx s i) = 0) (Ret 0 (set_count i 1 (record_owner i me s)))))"

section \<open>The whole function\<close>

definition do_mutex_trylock :: "nat \<Rightarrow> envr \<Rightarrow> nat \<Rightarrow> nptl \<Rightarrow> (i32, nptl) out" where
  "do_mutex_trylock n E i s =
     (let me = p_tid (slf s); k = PTHREAD_MUTEX_TYPE_ELISION (mtx s i) in
      if k = PTHREAD_MUTEX_RECURSIVE_NP OR PTHREAD_MUTEX_ELISION_NP \<or> k = PTHREAD_MUTEX_RECURSIVE_NP
      then trylock_recursive E i me s
      else if k = PTHREAD_MUTEX_TIMED_ELISION_NP then trylock_elision E i s
      else if k = PTHREAD_MUTEX_TIMED_NP \<or> k = PTHREAD_MUTEX_ADAPTIVE_NP \<or> k = PTHREAD_MUTEX_ERRORCHECK_NP
      then trylock_normal E i me s
      else if k \<in> kinds_robust then trylock_robust n E i me s
      else if k \<in> kinds_pi then trylock_pi E i me s
      else if k \<in> kinds_pp then trylock_pp n E i me s
      else Ret EINVAL s)"

definition pthread_mutex_trylock :: "nat \<Rightarrow> envr \<Rightarrow> caller \<Rightarrow> u64 \<Rightarrow> nptl \<Rightarrow> (i32, nptl) out" where
  "pthread_mutex_trylock n E c p s =
     (let s = s\<lparr>totalLocks := totalLocks s + 1\<rparr> in
      bnd (find_entry E p s) (\<lambda>i s.
        let mi = entry_index (pool s i);
            s = inc_access_count mi (thread_index c) s;
            off = stack_top c - esp c
        in assrt (off > 0)
             (bnd (add_new_context E i (return_address c) off s) (\<lambda>_ s.
               bnd (do_mutex_trylock n E i s) (\<lambda>result s.
                 Ret result (if result = EBUSY then inc_trylock_fail_count mi (thread_index c) s else s))))))"

end
