(* ===== verification/MutexProps.thy ===== *)
theory MutexProps
  imports MutexUnlock MutexTrylock
begin

unbundle bit_operations_syntax

text \<open>
  What the mutex functions promise for the normal, recursive, error checking and adaptive kinds:
  taking a mutex among other threads, on every return path; returning at all; the round trip of
  lock and unlock; relocking; and \<open>trylock\<close>.
\<close>

section \<open>Lock among other threads\<close>

lemma nominal_moved:
  assumes "moved (mutex_cell E i) s t" and "fair_others E" and "nominal s p = Some j"
  shows "nominal t p = Some j"
  using assms(1,3) by (rule moved_keeps) (use assms(2) in \<open>simp_all add: fair_others_def\<close>)

lemma MUTEX_LOCK_nominal:
  assumes "LLL_MUTEX_LOCK n E no_incr i s = Ret u t" and "fair_others E" and "nominal s p = Some j"
  shows "nominal t p = Some j"
proof -
  from MUTEX_LOCK_post [OF assms(1)] obtain q v where
    q: "t = set_lock i v (ticks E q)" "moved (mutex_cell E i) s q" by blast
  from nominal_moved [OF q(2) assms(2,3)] have "nominal (ticks E q) p = Some j"
    using fair_ticks(5) [OF assms(2)] by blast
  then show ?thesis by (simp add: q(1) del: ticks_frame)
qed

lemma lock_simple_nominal:
  assumes "lock_simple n E no_incr i mi thd s = Ret f t" and "fair_others E" and "nominal s p = Some j"
  shows "nominal t p = Some j"
proof -
  from assms(1) obtain fl s1 u s2 where e: "simple_enter E no_incr i mi thd s = (fl, s1)"
    and l: "LLL_MUTEX_LOCK n E no_incr i s1 = Ret u s2"
    and r: "t = simple_leave E mi thd fl s2"
    by (auto simp: lock_simple_def out_ret split: prod.splits)
  have "nominal s1 p = Some j"
    using e assms(2,3) by (auto simp: simple_enter_def loadl_def Let_def fair_others_def split: if_splits)
  from MUTEX_LOCK_nominal [OF l assms(2) this] show ?thesis
    by (simp add: r simple_leave_def split: option.split)
qed

lemma create_mutex_steady:
  "create_mutex s = Ret e s' \<Longrightarrow> steady i k s' \<longleftrightarrow> steady i k s"
  using create_mutex_Ret(1) by (simp add: steady_def fun_eq_iff)

lemma find_entry_post:
  assumes "find_entry E p s = Ret i t" and "fair_others E"
  shows "nominal t p = Some i" "p_tid (slf t) = p_tid (slf s)" "\<forall>j. steady j k s \<Longrightarrow> \<forall>j. steady j k t" "tsd t = tsd s"
proof -
  from assms(1) obtain s1 where g: "get_mutex p s1 = Ret i t"
    and c: "s1 = s \<or> (\<exists>e s0. create_mutex s = Ret e s0 \<and> s1 = snd (setSyncEntry E p e s0))"
    by (auto simp: find_entry_def out_ret split: if_splits)
  from g have t: "t = s1" "nominal s1 p = Some i" by (auto simp: get_mutex_def split: option.splits)
  then show "nominal t p = Some i" by simp
  from c have "tsd s1 = tsd s" by (auto simp: setSyncEntry_def Let_def dest: create_mutex_Ret(7))
  with t show "tsd t = tsd s" by simp
  from c have "p_tid (slf s1) = p_tid (slf s) \<and> ((\<forall>j. steady j k s) \<longrightarrow> (\<forall>j. steady j k s1))"
  proof
    assume "\<exists>e s0. create_mutex s = Ret e s0 \<and> s1 = snd (setSyncEntry E p e s0)"
    then obtain e s0 where s0: "create_mutex s = Ret e s0" and s1: "s1 = snd (setSyncEntry E p e s0)" by blast
    have "sync_vars s1 = sync_vars s0 \<and> slf s1 = slf s0 \<or>
        sync_vars s1 = sync_vars (ticks E s0) \<and> slf s1 = slf (ticks E s0)"
      by (simp add: s1 setSyncEntry_def Let_def)
    moreover have "steady j k s1" if "steady j k s" "sync_vars s1 = sync_vars s0" for j
      using that create_mutex_steady [OF s0, of j k] by (simp add: steady_def)
    moreover have "steady j k s1" if "steady j k s" "sync_vars s1 = sync_vars (ticks E s0)" for j
      using that create_mutex_steady [OF s0, of j k] steady_ticks [OF assms(2), of j k s0]
      by (simp add: steady_def del: ticks_frame)
    ultimately show ?thesis
      using create_mutex_Ret(2) [OF s0] fair_ticks(2) [OF assms(2), of s0] by metis
  qed simp
  with t show "p_tid (slf t) = p_tid (slf s)" "\<forall>j. steady j k s \<Longrightarrow> \<forall>j. steady j k t" by simp_all
qed

lemma add_new_context_frame:
  assumes "add_new_context E e ret off s = Ret r t"
  shows "slf t = slf s" "nominal t = nominal s" "tsd t = tsd s" "mtx t j = mtx s j" "entry_index (pool t j) = entry_index (pool s j)"
  using assms by (auto simp: add_new_context_def out_ret put_context_def Let_def split: if_splits)

text \<open>Everything before the \<open>switch\<close> of \<open>pthread_mutex_lock\<close>.\<close>

lemma lock_prelude:
  assumes "pthread_mutex_lock n E c p s = Ret r t"
  obtains i s1 s2 where "find_entry E p (s\<lparr>totalLocks := totalLocks s + 1\<rparr>) = Ret i s1"
    and "lock_real n E False i (entry_index (pool s1 i)) (thread_index c) s2 = Ret r t"
    and "slf s2 = slf s1" "nominal s2 = nominal s1" "\<And>j. mtx s2 j = mtx s1 j"
    and "tsd s2 = tsd (inc_access_count (entry_index (pool s1 i)) (thread_index c) s1)" "entry_index (pool s2 i) = entry_index (pool s1 i)"
proof -
  from assms obtain i s1 q s2 where f: "find_entry E p (s\<lparr>totalLocks := totalLocks s + 1\<rparr>) = Ret i s1"
    and a: "add_new_context E i (return_address c) (stack_top c - esp c)
        (inc_access_count (entry_index (pool s1 i)) (thread_index c) s1) = Ret q s2"
    and l: "lock_real n E False i (entry_index (pool s1 i)) (thread_index c) s2 = Ret r t"
    by (auto simp: pthread_mutex_lock_def out_ret Let_def)
  show thesis using that [OF f l] add_new_context_frame [OF a] by simp
qed

text \<open>What the lock of a normal mutex counts for the caller: nothing, or a failure and the time waited.\<close>

lemma MUTEX_LOCK_same:
  assumes "LLL_MUTEX_LOCK n E no_incr i s = Ret u t"
  shows "tsd t = tsd s" "entry_index (pool t j) = entry_index (pool s j)"
proof -
  from MUTEX_LOCK_post [OF assms] obtain q v where
    q: "t = set_lock i v (ticks E q)" "moved (mutex_cell E i) s q" by blast
  have "tsd q = tsd s" using q(2) by (rule moved_same) simp_all
  moreover have "entry_index (pool q j) = entry_index (pool s j)"
    using q(2) by (rule moved_same) (simp_all add: ticks_def)
  ultimately show "tsd t = tsd s" "entry_index (pool t j) = entry_index (pool s j)" by (simp_all add: q(1) ticks_def)
qed

definition counted_wait :: "bool \<Rightarrow> thread_mutex_t \<Rightarrow> thread_mutex_t \<Rightarrow> bool" where
  "counted_wait waited d d' \<longleftrightarrow>
     (if waited then \<exists>ms. d' = d\<lparr>fail_count := fail_count d + 1, futex_wait := futex_wait d + ms\<rparr> else d' = d)"

lemma lock_simple_counts:
  assumes "lock_simple n E no_incr i mi thd s = Ret f t"
  shows "entry_index (pool t j) = entry_index (pool s j)"
    and "\<exists>waited d. counted_wait waited (tsd s (get_thread_mutex_data mi thd)) d \<and> tsd t = (tsd s)(get_thread_mutex_data mi thd := d)"
proof -
  let ?a = "get_thread_mutex_data mi thd"
  from assms obtain fl s1 u s2 where e: "simple_enter E no_incr i mi thd s = (fl, s1)"
    and l: "LLL_MUTEX_LOCK n E no_incr i s1 = Ret u s2" and r: "t = simple_leave E mi thd fl s2"
    by (auto simp: lock_simple_def out_ret split: prod.splits)
  have s1: "entry_index (pool s1 j) = entry_index (pool s j)"
    "case fl of None \<Rightarrow> tsd s1 = tsd s | Some _ \<Rightarrow> tsd s1 = (tsd s)(?a := (tsd s ?a)\<lparr>fail_count := fail_count (tsd s ?a) + 1\<rparr>)"
    using e by (auto simp: simple_enter_def loadl_def inc_fail_count_def upd_tsd_def ticks_def Let_def split: if_splits)
  with MUTEX_LOCK_same [OF l] show "entry_index (pool t j) = entry_index (pool s j)"
    by (simp add: r simple_leave_def add_futex_wait_def Let_def split: option.split)
  show "\<exists>waited d. counted_wait waited (tsd s ?a) d \<and> tsd t = (tsd s)(?a := d)"
  proof (cases fl)
    case None
    then show ?thesis using s1 MUTEX_LOCK_same(1) [OF l]
      by (intro exI [of _ False] exI [of _ "tsd s ?a"]) (simp add: counted_wait_def r simple_leave_def)
  next
    case (Some st)
    then show ?thesis using s1 MUTEX_LOCK_same(1) [OF l]
      by (intro exI [of _ True]) (auto simp: counted_wait_def r simple_leave_def add_futex_wait_def upd_tsd_def Let_def)
  qed
qed


text \<open>
  C9 (all basic kinds). Let a registered mutex be of the normal, recursive, error checking or
  adaptive kind, and unowned when free. No assertion of \<open>pthread_mutex_lock\<close>'s \<open>switch\<close> can fail. The
  owner of an error checking mutex gets \<open>EDEADLK\<close>, the owner of a recursive one \<open>EAGAIN\<close> at the largest count,
  nothing being changed, and 0 below it with only the count grown by one; neither waits. In every
  other case the call, if it returns, returns 0 and the mutex is the free mutex that was
  found, locked, owned by the caller, with one more user and, if recursive, the count 1; the
  condition variable version always leaves the lock value 2 and the number of users as it was.
\<close>

theorem lock_basic_kinds:
  assumes "fair_others E" and "free_unowned (mtx s i)" and "m_kind (mtx s i) \<in> basic_kinds"
  shows "let m = mtx s i; me = p_tid (slf s); res = lock_real n E no_incr i mi thd s in
    if m_kind m = PTHREAD_MUTEX_ERRORCHECK_NP \<and> m_owner m = me then res = Ret EDEADLK s
    else if m_kind m = PTHREAD_MUTEX_RECURSIVE_NP \<and> m_owner m = me then
      res = (if m_count m = - 1 then Ret EAGAIN s else Ret 0 (add_count i 1 s))
    else case res of
        Ret r t \<Rightarrow> r = 0 \<and> (\<exists>m0. acquired no_incr me m0 (mtx t i) \<and> m_kind m0 = m_kind m)
      | Abort \<Rightarrow> False
      | Stuck \<Rightarrow> True"
proof -
  let ?m = "mtx s i" and ?me = "p_tid (slf s)"
  have wrap: "m_count ?m + 1 = 0 \<longleftrightarrow> m_count ?m = - 1" by (simp add: eq_neg_iff_add_eq_0)
  consider "m_kind ?m = PTHREAD_MUTEX_ERRORCHECK_NP" "m_owner ?m = ?me"
    | "m_kind ?m = PTHREAD_MUTEX_RECURSIVE_NP" "m_owner ?m = ?me" | "may_lock ?me ?m"
    using assms(3) by (auto simp: may_lock_def)
  then show ?thesis
  proof cases
    case 1
    then show ?thesis by (simp add: lock_real_def lock_switch_def lock_errorcheck_def mutex_kinds Let_def)
  next
    case 2
    then show ?thesis using wrap by (simp add: lock_real_def lock_switch_def lock_recursive_def mutex_kinds Let_def)
  next
    case 3
    then have "\<not> (m_kind ?m = PTHREAD_MUTEX_ERRORCHECK_NP \<and> m_owner ?m = ?me)"
      "\<not> (m_kind ?m = PTHREAD_MUTEX_RECURSIVE_NP \<and> m_owner ?m = ?me)" by (auto simp: may_lock_def)
    with lock_real_acquires [OF assms(1,2) 3, of n no_incr mi thd] show ?thesis
      by (cases "lock_real n E no_incr i mi thd s") (auto simp: Let_def)
  qed
qed

section \<open>A thread alone\<close>

abbreviation later_by :: "nat \<Rightarrow> nptl \<Rightarrow> nptl" where
  "later_by k s \<equiv> s\<lparr>clk := clk s + k\<rparr>"

text \<open>The mutex after the caller has taken it on the fast path.\<close>

definition taken :: "bool \<Rightarrow> i32 \<Rightarrow> mutex \<Rightarrow> mutex" where
  "taken no_incr me m = m\<lparr>m_lock := if no_incr then 2 else 1,
     m_count := if m_kind m = PTHREAD_MUTEX_RECURSIVE_NP then 1 else m_count m, m_owner := me,
     m_nusers := m_nusers m + (if no_incr then 0 else 1)\<rparr>"

lemma upd_mtx_cong:
  "f (mtx s i) = g (mtx s i) \<Longrightarrow> upd_mtx i f s = upd_mtx i g s"
  by (simp add: upd_mtx_def upd_entry_def)

lemma quiet_MUTEX_LOCK:
  "quiet E \<Longrightarrow> m_lock (mtx s i) = 0 \<Longrightarrow>
   LLL_MUTEX_LOCK n E no_incr i s = Ret () (set_lock i (if no_incr then 2 else 1) (later_by 1 s))"
  by (simp add: MUTEX_LOCK_free quiet_ticks del: ticks_frame)

lemma quiet_MUTEX_TRYLOCK:
  "quiet E \<Longrightarrow> m_lock (mtx s i) = 0 \<Longrightarrow>
   LLL_MUTEX_TRYLOCK E no_incr i s = (0, set_lock i (if no_incr then 2 else 1) (later_by 1 s))"
  by (simp add: MUTEX_TRYLOCK_cases quiet_ticks del: ticks_frame)

lemma quiet_lock_real:
  assumes "quiet E" and "m_lock (mtx s i) = 0" and "m_owner (mtx s i) = 0" and "m_kind (mtx s i) \<in> basic_kinds"
    and "p_tid (slf s) \<noteq> 0"
  shows "\<exists>k. lock_real n E no_incr i mi thd s = Ret 0 (upd_mtx i (taken no_incr (p_tid (slf s))) (later_by k s))"
proof -
  let ?me = "p_tid (slf s)"
  have may: "may_lock ?me (mtx s i)" using assms(3-5) by (simp add: may_lock_def)
  have simple: "\<exists>k. lock_simple n E no_incr i mi thd s =
      Ret Break (set_lock i (if no_incr then 2 else 1) (later_by k s))"
    using assms(1-3)
    by (auto simp: lock_simple_def simple_enter_def simple_leave_def loadl_def quiet_ticks quiet_MUTEX_LOCK
        intro: exI [of _ 1] exI [of _ 2])
  have fin: "lock_real n E no_incr i mi thd s = Ret 0 (upd_mtx i (taken no_incr ?me) (later_by k s))"
    if "lock_switch n E no_incr i mi thd ?me s = Ret Break (upd_mtx i f (later_by k s))"
      and "f (mtx s i) = (mtx s i)\<lparr>m_lock := if no_incr then 2 else 1,
        m_count := if m_kind (mtx s i) = PTHREAD_MUTEX_RECURSIVE_NP then 1 else m_count (mtx s i)\<rparr>" for f k
    using that by (auto simp: lock_real_def Let_def taken_def intro!: upd_mtx_cong)
  show ?thesis
  proof (rule lock_switch_cases [OF may refl, of n E no_incr mi thd])
    assume "m_kind (mtx s i) = PTHREAD_MUTEX_RECURSIVE_NP" "m_owner (mtx s i) \<noteq> ?me"
      "lock_switch n E no_incr i mi thd ?me s = lock_recursive n E no_incr i ?me s"
    then show ?thesis using assms(1-3)
      by (intro exI [of _ 1] fin [where f = "\<lambda>m. m\<lparr>m_lock := if no_incr then 2 else 1, m_count := 1\<rparr>"])
        (simp_all add: lock_recursive_def quiet_MUTEX_LOCK)
  next
    assume "m_kind (mtx s i) \<noteq> PTHREAD_MUTEX_RECURSIVE_NP"
      "lock_switch n E no_incr i mi thd ?me s = lock_simple n E no_incr i mi thd s"
    moreover obtain k where "lock_simple n E no_incr i mi thd s =
        Ret Break (set_lock i (if no_incr then 2 else 1) (later_by k s))" using simple by blast
    ultimately show ?thesis by (intro exI [of _ k] fin) simp_all
  next
    assume "m_kind (mtx s i) \<noteq> PTHREAD_MUTEX_RECURSIVE_NP"
      "lock_switch n E no_incr i mi thd ?me s = lock_adaptive n E no_incr i mi thd s"
    then show ?thesis using assms(1-3)
      by (intro exI [of _ 1] fin [where f = "\<lambda>m. m\<lparr>m_lock := if no_incr then 2 else 1\<rparr>"])
        (simp_all add: lock_adaptive_def quiet_MUTEX_TRYLOCK)
  qed
qed

text \<open>The caller of the concrete runs.\<close>

definition demo_caller :: caller where
  "demo_caller = \<lparr>thread_index = 1, stack_top = 4096, esp = 4000, return_address = 99\<rparr>"

lemma fresh_steady: "\<forall>i. steady i PTHREAD_MUTEX_TIMED_NP fresh"
  by (simp add: steady_def free_unowned_def PTHREAD_MUTEX_TIMED_NP_def)

lemma fresh_lock_runs: "\<exists>t. pthread_mutex_lock 1 calm demo_caller 8 fresh = Ret 0 t"
proof -
  have idx: "get_next_index (sync_vars fresh) = Ret 0 ((sync_vars fresh)\<lparr>re_cur := 1\<rparr>)"
    using get_next_index_below [of "sync_vars fresh"] by simp
  obtain s1 where s1: "find_entry calm 8 (fresh\<lparr>totalLocks := totalLocks fresh + 1\<rparr>) = Ret 0 s1"
    using idx by (simp add: find_entry_def is_my_mutex_def create_mutex_def getEntry_def Let_def
        setSyncEntry_def get_mutex_def quiet_ticks)
  from find_entry_post(2) [OF s1] have tid: "p_tid (slf s1) = 7" by (simp add: fresh_thread_def)
  have "\<forall>j. steady j PTHREAD_MUTEX_TIMED_NP (fresh\<lparr>totalLocks := totalLocks fresh + 1\<rparr>)"
    using fresh_steady by (simp add: steady_def)
  have pool: "stack_count (pool s1 0) = 0" "mtx s1 0 = zero_mutex"
    using s1 idx by (auto simp: find_entry_def is_my_mutex_def create_mutex_def getEntry_def Let_def
        setSyncEntry_def get_mutex_def quiet_ticks fresh_def)
  let ?mi = "entry_index (pool s1 0)"
  let ?s2 = "inc_access_count ?mi 1 s1"
  have "\<exists>s3. add_new_context calm 0 99 96 ?s2 = Ret 0 s3"
    using pool(1) by (simp add: add_new_context_def known_context_def MAX_NUM_STACKS_def)
  then obtain s3 where s3: "add_new_context calm 0 99 96 ?s2 = Ret 0 s3" by blast
  have "mtx s3 0 = zero_mutex" "p_tid (slf s3) = 7"
    using add_new_context_frame [OF s3] pool(2) tid by simp_all
  then obtain k where "lock_real 1 calm False 0 ?mi 1 s3 =
      Ret 0 (upd_mtx 0 (taken False (p_tid (slf s3))) (later_by k s3))"
    using quiet_lock_real [of calm s3 0 1 False ?mi 1] by (auto simp: basic_kinds_def mutex_kinds)
  with s1 s3 show ?thesis by (simp add: pthread_mutex_lock_def demo_caller_def Let_def)
qed


text \<open>A free mutex, an error checking one and a recursive one that the caller owns, the last at the largest count.\<close>

theorem lock_basic_kinds_witness:
  "(case lock_real 1 calm True 0 0 1 fresh of
      Ret r t \<Rightarrow> r = 0 \<and> m_lock (mtx t 0) = 2 \<and> m_owner (mtx t 0) = 7 | _ \<Rightarrow> False) \<and>
   (let s = upd_mtx 0 (\<lambda>m. m\<lparr>m_lock := 1, m_owner := 7, m_kind := 2\<rparr>) fresh in lock_real 1 calm False 0 0 1 s = Ret EDEADLK s) \<and>
   (let s = upd_mtx 0 (\<lambda>m. m\<lparr>m_lock := 1, m_owner := 7, m_kind := 1, m_count := - 1\<rparr>) fresh in
     lock_real 1 calm False 0 0 1 s = Ret EAGAIN s)"
proof -
  have "\<exists>k. lock_real 1 calm True 0 0 1 fresh = Ret 0 (upd_mtx 0 (taken True 7) (later_by k fresh))"
    using quiet_lock_real [of calm fresh 0 1 True 0 1] by (simp add: basic_kinds_def mutex_kinds fresh_thread_def)
  with lock_basic_kinds [OF calm_fair, where s = fresh and i = 0 and n = 1 and no_incr = True and mi = 0 and thd = 1]
  have "case lock_real 1 calm True 0 0 1 fresh of
      Ret r t \<Rightarrow> r = 0 \<and> m_lock (mtx t 0) = 2 \<and> m_owner (mtx t 0) = 7 | _ \<Rightarrow> False"
    by (auto simp: free_unowned_def acquired_def fresh_thread_def basic_kinds_def mutex_kinds Let_def split: out.splits)
  moreover have "let s = upd_mtx 0 (\<lambda>m. m\<lparr>m_lock := 1, m_owner := 7, m_kind := 2\<rparr>) fresh in lock_real 1 calm False 0 0 1 s = Ret EDEADLK s"
    using lock_basic_kinds [OF calm_fair, where s = "upd_mtx 0 (\<lambda>m. m\<lparr>m_lock := 1, m_owner := 7, m_kind := 2\<rparr>) fresh"
        and i = 0 and n = 1 and no_incr = False and mi = 0 and thd = 1]
    by (simp add: free_unowned_def fresh_thread_def basic_kinds_def mutex_kinds Let_def)
  moreover have "let s = upd_mtx 0 (\<lambda>m. m\<lparr>m_lock := 1, m_owner := 7, m_kind := 1, m_count := - 1\<rparr>) fresh in
     lock_real 1 calm False 0 0 1 s = Ret EAGAIN s"
    using lock_basic_kinds [OF calm_fair, where s = "upd_mtx 0 (\<lambda>m. m\<lparr>m_lock := 1, m_owner := 7, m_kind := 1, m_count := - 1\<rparr>) fresh"
        and i = 0 and n = 1 and no_incr = False and mi = 0 and thd = 1]
    by (simp add: free_unowned_def fresh_thread_def basic_kinds_def mutex_kinds Let_def)
  ultimately show ?thesis by blast
qed


section \<open>Lock returns\<close>

text \<open>At step \<open>c\<close> the other threads leave the mutex free.\<close>

definition released_at :: "envr \<Rightarrow> nat \<Rightarrow> nat \<Rightarrow> bool" where
  "released_at E i c \<longleftrightarrow> (\<forall>m. m_lock (e_mutex E c i m) = 0)"

lemma wait_xchg_live:
  assumes "clk s \<le> c" and "c - clk s < n" and "released_at E i c"
  shows "\<exists>t. lll_wait_xchg n (mutex_cell E i) op s = Ret () t"
  using assms(1,2)
proof (induction n arbitrary: s)
  case 0
  then show ?case by simp
next
  case (Suc n)
  show ?case
  proof (cases "m_lock (mtx (ticks E s) i) = 0")
    case True
    then show ?thesis by (simp add: mc.wait_xchg_Suc del: lll_wait_xchg.simps ticks_frame)
  next
    case False
    with assms(3) have "clk s \<noteq> c" by (auto simp: released_at_def)
    with Suc.prems have "\<exists>t. lll_wait_xchg n (mutex_cell E i) op (wait_round (mutex_cell E i) op s) = Ret () t"
      by (intro Suc.IH) (auto simp: wait_round_def)
    with False show ?thesis by (simp add: mc.wait_xchg_Suc del: lll_wait_xchg.simps ticks_frame)
  qed
qed

lemma MUTEX_LOCK_live:
  assumes "clk s \<le> c" and "c - clk s < n" and "released_at E i c"
  shows "\<exists>t. LLL_MUTEX_LOCK n E no_incr i s = Ret () t"
proof (cases "m_lock (mtx (ticks E s) i) = 0")
  case True
  then show ?thesis by (simp add: MUTEX_LOCK_free del: ticks_frame)
next
  case False
  with assms(3) have "clk s \<noteq> c" by (auto simp: released_at_def)
  with assms have w: "\<exists>t. lll_lock_wait n (mutex_cell E i) op e (ticks E s) = Ret () t" for op e
    by (auto simp: lll_lock_wait_def intro!: wait_xchg_live [where c = c])
  show ?thesis
    using w by (simp add: LLL_MUTEX_LOCK_def lll_lock_def lll_cond_lock_def mc.cmpxchg_cases del: ticks_frame)
qed

lemma adaptive_loop_live:
  "clk s \<le> c \<Longrightarrow> c - clk s < n \<Longrightarrow> released_at E i c \<Longrightarrow> \<exists>k t. adaptive_loop n E no_incr i mi thd cnt mx s = Ret k t"
proof (induction n E no_incr i mi thd cnt mx s rule: adaptive_loop.induct)
  case (1 n E no_incr i mi thd cnt mx s)
  let ?s = "if no_incr then s else inc_fail_count mi thd s"
  have clk: "clk ?s = clk s" by simp
  show ?case
  proof (cases "mx \<le> cnt")
    case True
    with MUTEX_LOCK_live [of ?s c n E i no_incr] 1(2-4) clk show ?thesis
      by (auto simp: adaptive_loop.simps [of n E] Let_def)
  next
    case False
    obtain r s1 where tr: "LLL_MUTEX_TRYLOCK E no_incr i ?s = (r, s1)" by fastforce
    show ?thesis
    proof (cases "r = 0")
      case True
      with False tr show ?thesis by (simp add: adaptive_loop.simps [of n E] Let_def)
    next
      case r: False
      with tr have s1: "s1 = ticks E ?s" and held: "m_lock (mtx (ticks E ?s) i) \<noteq> 0"
        by (auto simp: MUTEX_TRYLOCK_cases simp del: ticks_frame split: if_splits)
      have "m_lock (mtx (ticks E ?s) i) = 0" if "clk ?s = c" using 1(4) that unfolding released_at_def by simp
      with held clk have "clk s \<noteq> c" by metis
      with 1(2,3) s1 clk have "clk s1 \<le> c" "c - clk s1 < n" by auto
      with 1(1) [OF refl False tr [symmetric] r] 1(4) obtain k t where
        "adaptive_loop n E no_incr i mi thd (cnt + 1) mx s1 = Ret k t" by blast
      with False tr r show ?thesis by (simp add: adaptive_loop.simps [of n E _ _ _ _ cnt] Let_def)
    qed
  qed
qed

lemma lock_simple_live:
  assumes "clk s + 1 \<le> c" and "c - clk s < n" and "released_at E i c"
  shows "lock_simple n E no_incr i mi thd s \<noteq> Stuck"
proof -
  obtain f s1 where e: "simple_enter E no_incr i mi thd s = (f, s1)" by fastforce
  have "clk s1 = clk s \<or> clk s1 = clk s + 1"
    using e by (auto simp: simple_enter_def loadl_def Let_def split: if_splits)
  then obtain t where "LLL_MUTEX_LOCK n E no_incr i s1 = Ret () t"
    using MUTEX_LOCK_live [of s1 c n E i no_incr] assms by fastforce
  with e show ?thesis by (simp add: lock_simple_def assrt_def)
qed

lemma lock_recursive_live:
  assumes "clk s \<le> c" and "c - clk s < n" and "released_at E i c"
  shows "lock_recursive n E no_incr i me s \<noteq> Stuck"
  using MUTEX_LOCK_live [OF assms, of no_incr] by (auto simp: lock_recursive_def assrt_def split: if_splits)

lemma lock_adaptive_live:
  assumes "clk s \<le> c" and "c - clk s < n" and "released_at E i c"
  shows "lock_adaptive n E no_incr i mi thd s \<noteq> Stuck"
proof -
  obtain r s1 where tr: "LLL_MUTEX_TRYLOCK E no_incr i s = (r, s1)" by fastforce
  show ?thesis
  proof (cases "r = 0")
    case True
    with tr show ?thesis by (simp add: lock_adaptive_def assrt_def)
  next
    case False
    with tr have s1: "s1 = ticks E s" and held: "m_lock (mtx (ticks E s) i) \<noteq> 0"
      by (auto simp: MUTEX_TRYLOCK_cases simp del: ticks_frame split: if_splits)
    from held assms(3) have "clk s \<noteq> c" by (auto simp: released_at_def)
    with assms(1,2) s1 have "clk s1 \<le> c" "c - clk s1 < n" by auto
    with adaptive_loop_live [OF this assms(3)] obtain k t where
      "adaptive_loop n E no_incr i mi thd 0 (adaptive_max (mtx s1 i)) s1 = Ret k t" by blast
    with tr False show ?thesis by (simp add: lock_adaptive_def assrt_def Let_def)
  qed
qed

text \<open>
  C12 (a lock returns when the holder releases). Let the other threads leave a registered mutex of the
  normal, recursive, error checking or adaptive kind free at some later step \<open>c\<close>, and the caller not be
  the owner of a recursive or error checking one. Then \<open>pthread_mutex_lock\<close> returns 0 with the mutex
  taken, as soon as the number of rounds allowed exceeds the number of steps until then: neither the
  sleep nor the spinning of the adaptive kind, whose loop falls back on the sleep, can miss the release.
\<close>

theorem lock_returns:
  assumes "fair_others E" and "free_unowned (mtx s i)" and "may_lock (p_tid (slf s)) (mtx s i)"
    and "clk s + 1 \<le> c" and "c - clk s < n" and "released_at E i c"
  shows "\<exists>t m0. lock_real n E no_incr i mi thd s = Ret 0 t \<and> acquired no_incr (p_tid (slf s)) m0 (mtx t i)"
proof -
  have c: "clk s \<le> c" using assms(4) by simp
  have "lock_switch n E no_incr i mi thd (p_tid (slf s)) s \<noteq> Stuck"
    by (rule lock_switch_cases [OF assms(3) refl, of n E no_incr mi thd])
      (simp_all add: lock_simple_live [OF assms(4-6)] lock_recursive_live [OF c assms(5,6)] lock_adaptive_live [OF c assms(5,6)])
  then have "lock_real n E no_incr i mi thd s \<noteq> Stuck"
    by (cases "lock_switch n E no_incr i mi thd (p_tid (slf s)) s") (auto simp: lock_real_def Let_def split: flow.splits)
  with lock_real_acquires [OF assms(1-3), of n no_incr mi thd] show ?thesis
    by (cases "lock_real n E no_incr i mi thd s") auto
qed

text \<open>A holder that releases at step 3, of a normal and of an adaptive mutex.\<close>

definition demo_release :: envr where
  "demo_release = calm\<lparr>e_mutex := (\<lambda>c i m. if c = 3 then m\<lparr>m_lock := 0, m_owner := 0\<rparr> else m)\<rparr>"

definition demo_held :: "i32 \<Rightarrow> nptl" where
  "demo_held kind = upd_mtx 0 (\<lambda>m. m\<lparr>m_lock := 1, m_owner := 9, m_kind := kind\<rparr>) fresh"

theorem lock_returns_witness:
  "(\<exists>t. lock_real 4 demo_release False 0 0 1 (demo_held PTHREAD_MUTEX_TIMED_NP) = Ret 0 t) \<and>
   (\<exists>t. lock_real 4 demo_release False 0 0 1 (demo_held PTHREAD_MUTEX_ADAPTIVE_NP) = Ret 0 t)"
proof -
  have f: "fair_others demo_release" by (simp add: fair_others_def demo_release_def free_unowned_def calm_def)
  have "free_unowned (mtx (demo_held k) 0)" "clk (demo_held k) = 0" for k by (simp_all add: free_unowned_def demo_held_def)
  moreover have "may_lock (p_tid (slf (demo_held k))) (mtx (demo_held k) 0)" if "k \<in> basic_kinds" for k
    using that by (simp add: may_lock_def demo_held_def fresh_thread_def)
  moreover have "released_at demo_release 0 3" by (simp add: released_at_def demo_release_def)
  ultimately have "\<exists>t m0. lock_real 4 demo_release False 0 0 1 (demo_held k) = Ret 0 t \<and>
      acquired False (p_tid (slf (demo_held k))) m0 (mtx t 0)" if "k \<in> basic_kinds" for k
    using that by (intro lock_returns [OF f, where c = 3]) simp_all
  then show ?thesis by (auto simp: basic_kinds_def)
qed

section \<open>Unlock\<close>

lemma type_basic:
  assumes "k \<in> basic_kinds"
  shows "k AND 127 = k" "k AND 383 = k" "k AND 124 = 0"
  using assms by (auto simp: basic_kinds_def mutex_kinds)

lemma unlock_basic_cases:
  assumes "m_kind (mtx s i) \<in> basic_kinds"
  shows "unlock_usercnt n E decr i s =
    (let k = m_kind (mtx s i) in
     if k = PTHREAD_MUTEX_RECURSIVE_NP then
       if m_owner (mtx s i) \<noteq> p_tid (slf s) then Ret EPERM s
       else let s = add_count i (-1) s
            in if m_count (mtx s i) \<noteq> 0 then Ret 0 s else unlock_normal E decr i s
     else if k = PTHREAD_MUTEX_ERRORCHECK_NP then
       if m_owner (mtx s i) \<noteq> p_tid (slf s) then Ret EPERM s
       else case lll_islocked (mutex_cell E i) s of (locked, s) \<Rightarrow>
             if \<not> locked then Ret EPERM s else unlock_normal E decr i s
     else unlock_normal E decr i s)"
  using assms
  by (auto simp: basic_kinds_def unlock_usercnt_def mutex_macros mutex_kinds Let_def)

text \<open>\<open>lll_unlock\<close> in detail: the word is 0 afterwards, and unless it was 1 a sleeper is woken.\<close>

lemma unlock_word:
  assumes "quiet E"
  shows "m_lock (mtx s i) = 1 \<Longrightarrow> lll_unlock (mutex_cell E i) False pv s = set_lock i 0 (later_by 1 s)"
    and "m_lock (mtx s i) \<noteq> 1 \<Longrightarrow> lll_unlock (mutex_cell E i) False pv s =
      (set_lock i 0 (later_by 2 s))\<lparr>calls := FCall (LOAD_FUTEX_WAKE pv) 1 # calls s\<rparr>"
  using assms
  by (simp_all add: lll_unlock_def decl_def lll_unlock_wake_def storel_def Let_def quiet_ticks upd_mtx_def
      upd_entry_def)

text \<open>The mutex after a release.\<close>

definition freed :: "bool \<Rightarrow> mutex \<Rightarrow> mutex" where
  "freed decr m = m\<lparr>m_lock := 0, m_owner := 0, m_nusers := m_nusers m - (if decr then 1 else 0)\<rparr>"

lemma unlock_normal_quiet:
  assumes "quiet E"
  shows "\<exists>s'. unlock_normal E decr i s = Ret 0 s' \<and> mtx s' i = freed decr (mtx s i) \<and> slf s' = slf s \<and>
    (m_lock (mtx s i) = 1 \<longrightarrow> calls s' = calls s) \<and>
    (m_lock (mtx s i) \<noteq> 1 \<longrightarrow> calls s' = FCall (LOAD_FUTEX_WAKE (PTHREAD_MUTEX_PSHARED (mtx s i))) 1 # calls s)"
proof (cases "m_lock (mtx s i) = 1")
  case True
  then show ?thesis using assms
    by (simp add: unlock_normal_def Let_def unlock_word(1) freed_def)
next
  case False
  then show ?thesis using assms
    by (simp add: unlock_normal_def Let_def unlock_word(2) freed_def PTHREAD_MUTEX_PSHARED_def)
qed

text \<open>
  C13 (unlock releases and wakes). A caller that owns a locked mutex of a basic kind (with count 1
  if recursive) unlocks it with result 0: the lock word and the owner become 0 and the number of
  users drops by one; if the lock word was not 1, exactly one \<open>FUTEX_WAKE\<close> for one thread is made,
  and none otherwise.
\<close>

theorem unlock_releases:
  assumes "quiet E" and "m_kind (mtx s i) \<in> basic_kinds" and "m_owner (mtx s i) = p_tid (slf s)"
    and "m_lock (mtx s i) \<noteq> 0" and "m_kind (mtx s i) = PTHREAD_MUTEX_RECURSIVE_NP \<Longrightarrow> m_count (mtx s i) = 1"
  shows "\<exists>s'. unlock_usercnt n E True i s = Ret 0 s' \<and>
    mtx s' i = (freed True (mtx s i))\<lparr>m_count := if m_kind (mtx s i) = PTHREAD_MUTEX_RECURSIVE_NP then 0
      else m_count (mtx s i)\<rparr> \<and>
    calls s' = (if m_lock (mtx s i) = 1 then calls s
      else FCall (LOAD_FUTEX_WAKE (PTHREAD_MUTEX_PSHARED (mtx s i))) 1 # calls s)"
proof -
  let ?k = "m_kind (mtx s i)"
  consider "?k = PTHREAD_MUTEX_RECURSIVE_NP" | "?k = PTHREAD_MUTEX_ERRORCHECK_NP"
    | "?k \<noteq> PTHREAD_MUTEX_RECURSIVE_NP" "?k \<noteq> PTHREAD_MUTEX_ERRORCHECK_NP" by blast
  then show ?thesis
  proof cases
    case 1
    let ?s = "add_count i (-1) s"
    have "unlock_usercnt n E True i s = unlock_normal E True i ?s"
      using 1 assms(2,3,5) by (simp add: unlock_basic_cases Let_def)
    with unlock_normal_quiet [OF assms(1), of True i ?s] 1 assms(5) show ?thesis
      by (auto simp: freed_def PTHREAD_MUTEX_PSHARED_def)
  next
    case 2
    have "unlock_usercnt n E True i s = unlock_normal E True i (later_by 1 s)"
      using 2 assms(1-4)
      by (simp add: unlock_basic_cases Let_def mutex_kinds lll_islocked_def loadl_def quiet_ticks lll_init)
    with unlock_normal_quiet [OF assms(1), of True i "later_by 1 s"] 2 show ?thesis
      by (auto simp: freed_def mutex_kinds)
  next
    case 3
    with assms(2) have "unlock_usercnt n E True i s = unlock_normal E True i s"
      by (simp add: unlock_basic_cases Let_def)
    with unlock_normal_quiet [OF assms(1), of True i s] 3 show ?thesis by (auto simp: freed_def)
  qed
qed

theorem unlock_releases_witness:
  "\<exists>s'. unlock_usercnt 1 calm True 0 (upd_mtx 0 (\<lambda>m. m\<lparr>m_lock := 2, m_owner := 7, m_nusers := 1\<rparr>) fresh) = Ret 0 s' \<and>
     mtx s' 0 = zero_mutex \<and> calls s' = [FCall 129 1]"
  using unlock_releases [OF calm_quiet, of "upd_mtx 0 (\<lambda>m. m\<lparr>m_lock := 2, m_owner := 7, m_nusers := 1\<rparr>) fresh" 0 1]
  by (simp add: basic_kinds_def mutex_kinds fresh_thread_def freed_def zero_mutex_def mutex_macros
      LOAD_FUTEX_WAKE_def futex_codes)

text \<open>
  Only the owner may unlock. A thread that does not own a recursive or error checking mutex
  gets \<open>EPERM\<close> from unlock and nothing changes.
\<close>

lemma unlock_not_owner:
  assumes "m_kind (mtx s i) \<in> {PTHREAD_MUTEX_RECURSIVE_NP, PTHREAD_MUTEX_ERRORCHECK_NP}"
    and "m_owner (mtx s i) \<noteq> p_tid (slf s)" and "nominal s p = Some i"
  shows "pthread_mutex_unlock n E p s = Ret EPERM s"
proof -
  have "m_kind (mtx s i) \<in> basic_kinds" using assms(1) by (auto simp: basic_kinds_def)
  with assms show ?thesis by (auto simp: pthread_mutex_unlock_def get_mutex_def unlock_basic_cases Let_def)
qed

lemma unlock_not_owner_witness:
  "pthread_mutex_unlock 1 calm 8 (set_kind 0 2 (fresh\<lparr>nominal := [8 \<mapsto> 0]\<rparr>)) =
     Ret EPERM (set_kind 0 2 (fresh\<lparr>nominal := [8 \<mapsto> 0]\<rparr>))"
  by (rule unlock_not_owner [of _ 0]) (simp_all add: mutex_kinds fresh_thread_def)


section \<open>Locking again\<close>

lemma quiet_MUTEX_LOCK_Stuck:
  assumes "quiet E" and "m_lock (mtx s i) \<noteq> 0"
  shows "LLL_MUTEX_LOCK n E no_incr i s = Stuck"
  using quiet_cell.quiet_lock_stuck [OF quiet_cells(1) [OF assms(1)], where s = s]
    quiet_cell.quiet_cond_lock_stuck [OF quiet_cells(1) [OF assms(1)], where s = s] assms(2)
  by (simp add: LLL_MUTEX_LOCK_def)

lemma quiet_adaptive_Stuck:
  "quiet E \<Longrightarrow> m_lock (mtx s i) \<noteq> 0 \<Longrightarrow> adaptive_loop n E no_incr i mi thd cnt mx s = Stuck"
proof (induction n E no_incr i mi thd cnt mx s rule: adaptive_loop.induct)
  case (1 n E no_incr i mi thd cnt mx s)
  let ?s = "if no_incr then s else inc_fail_count mi thd s"
  have held: "m_lock (mtx ?s i) \<noteq> 0" using 1(3) by simp
  have tr: "LLL_MUTEX_TRYLOCK E no_incr i ?s = (m_lock (mtx ?s i), later_by 1 ?s)"
    using held by (simp add: MUTEX_TRYLOCK_cases quiet_ticks [OF 1(2)] del: ticks_frame)
  have rec: "adaptive_loop n E no_incr i mi thd (cnt + 1) mx (later_by 1 ?s) = Stuck" if "\<not> mx \<le> cnt"
    using 1(1) [OF refl that tr [symmetric] held 1(2)] 1(3) by simp
  show ?case
    unfolding adaptive_loop.simps [of n E no_incr i mi thd cnt] Let_def tr
    using rec held by (auto simp: quiet_MUTEX_LOCK_Stuck [OF 1(2) held])
qed

text \<open>
  C11 (relocking). For the owner of a mutex, with nobody else to release it: the error checking
  kind returns \<open>EDEADLK\<close> and the recursive kind at the largest count \<open>EAGAIN\<close>, nothing being
  changed; below that the recursive kind returns 0 and only the count grows by one; and locking a
  normal or adaptive mutex again never returns, however many rounds are allowed.
\<close>

theorem relock:
  assumes "m_owner (mtx s i) = p_tid (slf s)" and "m_lock (mtx s i) \<noteq> 0" and "quiet E"
    and "m_kind (mtx s i) \<in> basic_kinds"
  shows "lock_real n E False i mi thd s =
    (if m_kind (mtx s i) = PTHREAD_MUTEX_ERRORCHECK_NP then Ret EDEADLK s
     else if m_kind (mtx s i) = PTHREAD_MUTEX_RECURSIVE_NP then
       (if m_count (mtx s i) = - 1 then Ret EAGAIN s else Ret 0 (add_count i 1 s))
     else Stuck)"
proof -
  let ?k = "m_kind (mtx s i)" and ?me = "p_tid (slf s)"
  have simple: "lock_simple n E False i mi thd s = Stuck"
  proof -
    obtain f s1 where e: "simple_enter E False i mi thd s = (f, s1)" by fastforce
    have "m_lock (mtx s1 i) \<noteq> 0"
      using e assms(2,3) by (auto simp: simple_enter_def loadl_def Let_def quiet_ticks split: if_splits)
    with e assms(3) show ?thesis by (simp add: lock_simple_def quiet_MUTEX_LOCK_Stuck)
  qed
  have adaptive: "lock_adaptive n E False i mi thd s = Stuck"
    using assms(2,3) by (simp add: lock_adaptive_def MUTEX_TRYLOCK_cases quiet_ticks quiet_adaptive_Stuck
        del: ticks_frame)
  have wrap: "m_count (mtx s i) + 1 = 0 \<longleftrightarrow> m_count (mtx s i) = - 1"
    by (simp add: eq_neg_iff_add_eq_0)
  from assms(4) consider "?k = PTHREAD_MUTEX_ERRORCHECK_NP" | "?k = PTHREAD_MUTEX_RECURSIVE_NP"
    | "?k = PTHREAD_MUTEX_TIMED_NP" | "?k = PTHREAD_MUTEX_ADAPTIVE_NP"
    by (auto simp: basic_kinds_def)
  then show ?thesis
  proof cases
    case 1
    then show ?thesis using assms(1)
      by (simp add: lock_real_def lock_switch_def lock_errorcheck_def mutex_kinds Let_def)
  next
    case 2
    then show ?thesis using assms(1) wrap
      by (simp add: lock_real_def lock_switch_def lock_recursive_def mutex_kinds Let_def)
  next
    case 3
    then show ?thesis by (simp add: lock_real_def lock_switch_def simple mutex_kinds Let_def)
  next
    case 4
    then show ?thesis by (simp add: lock_real_def lock_switch_def adaptive mutex_kinds Let_def)
  qed
qed

theorem relock_witness:
  "lock_real 5 calm False 0 0 1 (upd_mtx 0 (\<lambda>m. m\<lparr>m_lock := 1, m_owner := 7, m_kind := 1, m_count := 4\<rparr>) fresh)
     = Ret 0 (upd_mtx 0 (\<lambda>m. m\<lparr>m_lock := 1, m_owner := 7, m_kind := 1, m_count := m_count m + 1\<rparr>)
         (upd_mtx 0 (\<lambda>m. m\<lparr>m_count := 4\<rparr>) fresh))"
  using relock [of "upd_mtx 0 (\<lambda>m. m\<lparr>m_lock := 1, m_owner := 7, m_kind := 1, m_count := 4\<rparr>) fresh" 0 calm 5 0 1]
  by (simp add: basic_kinds_def mutex_kinds fresh_thread_def)

section \<open>Nested locking\<close>

text \<open>Doing an operation several times, each of which must return 0.\<close>

fun repeat_ok :: "nat \<Rightarrow> (nptl \<Rightarrow> (i32, nptl) out) \<Rightarrow> nptl \<Rightarrow> nptl option" where
  "repeat_ok 0 f s = Some s"
| "repeat_ok (Suc k) f s = (case f s of Ret r t \<Rightarrow> if r = 0 then repeat_ok k f t else None | _ \<Rightarrow> None)"

text \<open>The state of a recursive mutex that the thread holds \<open>k\<close> times.\<close>

definition held :: "nat \<Rightarrow> nat \<Rightarrow> nptl \<Rightarrow> bool" where
  "held i k s \<longleftrightarrow> k < 2 ^ 32 \<and> mtx s i = \<lparr>m_lock = 1, m_count = word_of_nat k, m_owner = p_tid (slf s),
     m_nusers = 1, m_kind = PTHREAD_MUTEX_RECURSIVE_NP, m_spins = 0\<rparr>"

lemma count_eq_0: "k < 2 ^ 32 \<Longrightarrow> (word_of_nat k :: u32) = 0 \<longleftrightarrow> k = 0"
  by (auto simp: word_of_nat_eq_0_iff dest: dvd_imp_le)

lemma held_relock:
  assumes "held i k s" and "quiet E" and "k < 2 ^ 32 - 1"
  shows "\<exists>t. lock_real n E False i mi thd s = Ret 0 t \<and> held i (Suc k) t \<and> calls t = calls s"
proof -
  have "(word_of_nat k :: u32) + 1 \<noteq> 0"
    using count_eq_0 [of "Suc k"] assms(3) by (simp add: add.commute)
  with assms show ?thesis
    by (simp add: held_def lock_real_def lock_switch_def lock_recursive_def Let_def add.commute)
qed

lemma held_unlock:
  assumes "held i (Suc (Suc k)) s" and "quiet E"
  shows "\<exists>t. unlock_usercnt n E True i s = Ret 0 t \<and> held i (Suc k) t \<and> calls t = calls s"
proof -
  have "(word_of_nat (Suc k) :: u32) \<noteq> 0" using count_eq_0 [of "Suc k"] assms(1) by (simp add: held_def)
  then show ?thesis using assms
    by (simp add: unlock_basic_cases basic_kinds_def held_def Let_def)
qed

lemma held_last_unlock:
  assumes "held i 1 s" and "quiet E"
  shows "\<exists>t. unlock_usercnt n E True i s = Ret 0 t \<and> calls t = calls s \<and>
    mtx t i = zero_mutex\<lparr>m_kind := PTHREAD_MUTEX_RECURSIVE_NP\<rparr>"
proof -
  let ?s = "add_count i (-1) s"
  have "unlock_usercnt n E True i s = unlock_normal E True i ?s"
    using assms by (simp add: unlock_basic_cases basic_kinds_def held_def Let_def)
  with unlock_normal_quiet [OF assms(2), of True i ?s] assms(1) show ?thesis
    by (auto simp: held_def freed_def zero_mutex_def)
qed

lemma repeat_ok_add:
  "repeat_ok (a + b) f s = (case repeat_ok a f s of None \<Rightarrow> None | Some t \<Rightarrow> repeat_ok b f t)"
  by (induction a arbitrary: s) (auto split: out.split)

lemma repeat_relock:
  assumes "held i k s" and "quiet E" and "k + j < 2 ^ 32"
  shows "\<exists>t. repeat_ok j (lock_real n E False i mi thd) s = Some t \<and> held i (k + j) t \<and> calls t = calls s"
  using assms(1,3)
proof (induction j arbitrary: s k)
  case 0
  then show ?case by simp
next
  case (Suc j)
  from held_relock [OF Suc.prems(1) assms(2)] Suc.prems(2) obtain t where
    t: "lock_real n E False i mi thd s = Ret 0 t" "held i (Suc k) t" "calls t = calls s" by fastforce
  from Suc.IH [OF t(2)] Suc.prems(2) t(1,3) show ?case by auto
qed

lemma repeat_unlock:
  assumes "held i (Suc (k + j)) s" and "quiet E"
  shows "\<exists>t. repeat_ok j (unlock_usercnt n E True i) s = Some t \<and> held i (Suc k) t \<and> calls t = calls s"
  using assms(1)
proof (induction j arbitrary: s)
  case 0
  then show ?case by simp
next
  case (Suc j)
  from held_unlock [OF _ assms(2), of i "k + j" s n] Suc.prems obtain t where
    t: "unlock_usercnt n E True i s = Ret 0 t" "held i (Suc (k + j)) t" "calls t = calls s" by auto
  from Suc.IH [OF t(2)] t(1,3) show ?case by auto
qed

text \<open>
  C14 (recursive locks nest). On a free recursive mutex of a thread alone, \<open>k\<close> locks and then
  \<open>j < k\<close> unlocks all return 0 and leave the mutex held with count \<open>k - j\<close>; after the \<open>k\<close>-th
  unlock it is free again, with no owner and the count 0, and no system call has been made. \<open>k\<close>
  may be any number up to the largest count.
\<close>

theorem recursive_nesting:
  assumes "quiet E" and "mtx s i = zero_mutex\<lparr>m_kind := PTHREAD_MUTEX_RECURSIVE_NP\<rparr>" and "p_tid (slf s) \<noteq> 0"
    and "0 < k" and "k < 2 ^ 32" and "j < k"
  shows "\<exists>t u w. repeat_ok k (lock_real n E False i mi thd) s = Some t \<and>
    repeat_ok j (unlock_usercnt n E True i) t = Some u \<and> held i (k - j) u \<and>
    repeat_ok k (unlock_usercnt n E True i) t = Some w \<and>
    mtx w i = zero_mutex\<lparr>m_kind := PTHREAD_MUTEX_RECURSIVE_NP\<rparr> \<and> calls w = calls s"
proof -
  obtain c where c: "lock_real n E False i mi thd s = Ret 0 (upd_mtx i (taken False (p_tid (slf s))) (later_by c s))"
    using quiet_lock_real [OF assms(1), of s i n False mi thd] assms(2,3) by (auto simp: basic_kinds_def)
  let ?s1 = "upd_mtx i (taken False (p_tid (slf s))) (later_by c s)"
  have h1: "held i 1 ?s1" using assms(2) by (simp add: held_def taken_def zero_mutex_def)
  obtain t where t: "repeat_ok (k - 1) (lock_real n E False i mi thd) ?s1 = Some t" "held i k t"
      "calls t = calls s"
    using repeat_relock [OF h1 assms(1), of "k - 1" n mi thd] assms(4,5) by auto
  have jk: "Suc (k - j - 1 + j) = k" "Suc (k - j - 1) = k - j" using assms(6) by simp_all
  obtain u where u: "repeat_ok j (unlock_usercnt n E True i) t = Some u" "held i (k - j) u"
    using repeat_unlock [OF _ assms(1), of i "k - j - 1" j t n] t(2) jk by (simp only: jk) blast
  obtain v where v: "repeat_ok (k - 1) (unlock_usercnt n E True i) t = Some v" "held i 1 v" "calls v = calls t"
    using repeat_unlock [OF _ assms(1), of i 0 "k - 1" t n] t(2) assms(4) by auto
  obtain w where w: "unlock_usercnt n E True i v = Ret 0 w" "calls w = calls v"
      "mtx w i = zero_mutex\<lparr>m_kind := PTHREAD_MUTEX_RECURSIVE_NP\<rparr>"
    using held_last_unlock [OF v(2) assms(1)] by blast
  have k: "k = Suc (k - 1)" using assms(4) by simp
  have "repeat_ok k (lock_real n E False i mi thd) s = Some t"
    by (subst k) (simp only: repeat_ok.simps c t(1) out.case simp_thms if_True)
  moreover have "repeat_ok (k - 1 + 1) (unlock_usercnt n E True i) t = Some w"
    unfolding repeat_ok_add v(1) by (simp add: w(1))
  ultimately show ?thesis using u w(2,3) v(3) t(3) assms(4) by auto
qed

theorem recursive_nesting_witness:
  "\<exists>t w. repeat_ok 3 (lock_real 1 calm False 0 0 1) (set_kind 0 1 fresh) = Some t \<and>
     repeat_ok 3 (unlock_usercnt 1 calm True 0) t = Some w \<and> mtx w 0 = zero_mutex\<lparr>m_kind := 1\<rparr>"
  using recursive_nesting [OF calm_quiet, of "set_kind 0 1 fresh" 0 3 2 1 0 1]
  by (auto simp: PTHREAD_MUTEX_RECURSIVE_NP_def fresh_thread_def)


section \<open>Trylock\<close>

lemma trylock_basic:
  assumes "PTHREAD_MUTEX_TYPE_ELISION (mtx s i) \<in> basic_kinds"
    and "PTHREAD_MUTEX_TYPE_ELISION (mtx s i) = PTHREAD_MUTEX_RECURSIVE_NP \<Longrightarrow> m_owner (mtx s i) \<noteq> p_tid (slf s)"
  shows "do_mutex_trylock n E i s =
    (if m_lock (mtx (ticks E s) i) = 0
     then Ret 0 (upd_mtx i (\<lambda>m. m\<lparr>m_lock := 1, m_owner := p_tid (slf s), m_nusers := m_nusers m + 1,
        m_count := if PTHREAD_MUTEX_TYPE_ELISION (mtx s i) = PTHREAD_MUTEX_RECURSIVE_NP then 1 else m_count m\<rparr>)
        (ticks E s))
     else Ret EBUSY (ticks E s))"
proof -
  have tr: "lll_trylock (mutex_cell E i) s = (if m_lock (mtx (ticks E s) i) = 0 then (0, set_lock i 1 (ticks E s))
      else (m_lock (mtx (ticks E s) i), ticks E s))"
    by (simp add: lll_trylock_def mc.cmpxchg_cases lll_init del: ticks_frame)
  from assms(1) consider "PTHREAD_MUTEX_TYPE_ELISION (mtx s i) = PTHREAD_MUTEX_RECURSIVE_NP"
    | "PTHREAD_MUTEX_TYPE_ELISION (mtx s i) \<in> {PTHREAD_MUTEX_TIMED_NP, PTHREAD_MUTEX_ADAPTIVE_NP, PTHREAD_MUTEX_ERRORCHECK_NP}"
    by (auto simp: basic_kinds_def)
  then show ?thesis
  proof cases
    case 1
    then show ?thesis using assms(2)
      by (auto simp: do_mutex_trylock_def trylock_recursive_def tr Let_def simp del: ticks_frame
          intro!: upd_mtx_cong)
  next
    case 2
    then have "PTHREAD_MUTEX_TYPE_ELISION (mtx s i) \<noteq> PTHREAD_MUTEX_RECURSIVE_NP"
      by (auto simp: mutex_kinds)
    moreover have "do_mutex_trylock n E i s = trylock_normal E i (p_tid (slf s)) s"
      using 2 by (auto simp: do_mutex_trylock_def mutex_kinds Let_def)
    ultimately show ?thesis
      by (auto simp: trylock_normal_def record_owner_def tr simp del: ticks_frame intro!: upd_mtx_cong)
  qed
qed

text \<open>
  C16 (trylock takes a free mutex and never waits). For a mutex of a basic kind, process shared or
  not, \<open>do_mutex_trylock\<close> always returns. A recursive mutex that the caller owns is not looked at further: at
  the largest count the result is \<open>EAGAIN\<close> and nothing is changed, below it the result is 0 and only the count
  grows by one. Else, if the lock word is 0 at its one atomic access, the result is 0 and the mutex is
  locked and owned by the caller with one more user (and count 1 if recursive); otherwise the result
  is \<open>EBUSY\<close> and it has changed nothing.
\<close>

theorem trylock_exact:
  assumes "PTHREAD_MUTEX_TYPE_ELISION (mtx s i) \<in> basic_kinds"
  shows "do_mutex_trylock n E i s =
    (if PTHREAD_MUTEX_TYPE_ELISION (mtx s i) = PTHREAD_MUTEX_RECURSIVE_NP \<and> m_owner (mtx s i) = p_tid (slf s)
     then if m_count (mtx s i) = - 1 then Ret EAGAIN s else Ret 0 (add_count i 1 s)
     else if m_lock (mtx (ticks E s) i) = 0
     then Ret 0 (upd_mtx i (\<lambda>m. m\<lparr>m_lock := 1, m_owner := p_tid (slf s), m_nusers := m_nusers m + 1,
        m_count := if PTHREAD_MUTEX_TYPE_ELISION (mtx s i) = PTHREAD_MUTEX_RECURSIVE_NP then 1 else m_count m\<rparr>)
        (ticks E s))
     else Ret EBUSY (ticks E s))"
proof (cases "PTHREAD_MUTEX_TYPE_ELISION (mtx s i) = PTHREAD_MUTEX_RECURSIVE_NP \<and> m_owner (mtx s i) = p_tid (slf s)")
  case True
  moreover have "m_count (mtx s i) + 1 = 0 \<longleftrightarrow> m_count (mtx s i) = - 1" by (simp add: eq_neg_iff_add_eq_0)
  ultimately show ?thesis by (simp add: do_mutex_trylock_def trylock_recursive_def bump_count_def Let_def)
next
  case False
  then show ?thesis using trylock_basic [OF assms, of n E] by (auto simp del: ticks_frame)
qed

text \<open>A free recursive mutex shared between processes, and one the caller owns at the largest count.\<close>

theorem trylock_exact_witness:
  "do_mutex_trylock 0 calm 0 (set_kind 0 129 fresh) =
     Ret 0 (upd_mtx 0 (\<lambda>m. m\<lparr>m_kind := 129, m_lock := 1, m_owner := 7, m_nusers := m_nusers m + 1, m_count := 1\<rparr>)
       (ticks calm fresh)) \<and>
   (let s = upd_mtx 0 (\<lambda>m. m\<lparr>m_lock := 1, m_owner := 7, m_kind := 1, m_count := - 1\<rparr>) fresh in do_mutex_trylock 0 calm 0 s = Ret EAGAIN s)"
proof -
  have ticks_eq: "ticks calm (set_kind 0 129 fresh) = set_kind 0 129 (ticks calm fresh)"
    by (simp add: quiet_ticks upd_mtx_def upd_entry_def)
  show ?thesis
    using trylock_exact [of "set_kind 0 129 fresh" 0 0 calm]
      trylock_exact [of "upd_mtx 0 (\<lambda>m. m\<lparr>m_lock := 1, m_owner := 7, m_kind := 1, m_count := - 1\<rparr>) fresh" 0 0 calm]
    by (simp add: mutex_macros basic_kinds_def mutex_kinds fresh_thread_def ticks_eq Let_def)
qed



section \<open>What the kinds of the attributes lead to\<close>

text \<open>
  Process shared mutexes cannot be locked: \<open>pthread_mutex_lock\<close> compares the kind with the
  labels without masking \<open>PTHREAD_MUTEX_PSHARED_BIT\<close>, so for every kind with that bit it returns \<open>EINVAL\<close> and
  does nothing, while \<open>pthread_mutex_trylock\<close>, which masks the bit, takes the same mutex if it is
  free and of a basic kind.
\<close>

lemma pshared_lock_EINVAL:
  assumes "m_kind (mtx s i) AND PTHREAD_MUTEX_PSHARED_BIT \<noteq> 0"
  shows "lock_real n E no_incr i mi thd s = Ret EINVAL s"
proof -
  let ?k = "m_kind (mtx s i)"
  have "?k \<noteq> x" if "x AND 128 = 0" for x :: i32 using assms that by (auto simp: PTHREAD_MUTEX_PSHARED_BIT_def)
  then show ?thesis
    by (auto simp: lock_real_def lock_switch_def mutex_kinds Let_def)
qed

text \<open>
  A robust lock does not lock. For a robust kind (other than adaptive) \<open>pthread_mutex_lock\<close>
  returns 0 and records the caller as the owner whatever the lock word and the owner are, without
  looking at or changing the lock word: a thread gets the mutex while another holds it.
\<close>

lemma robust_lock_no_exclusion:
  assumes "m_kind (mtx s i) \<in> kinds_robust" and "m_kind (mtx s i) \<noteq> PTHREAD_MUTEX_ROBUST_ADAPTIVE_NP"
  shows "\<exists>t. lock_real n E False i mi thd s = Ret 0 t \<and> m_owner (mtx t i) = p_tid (slf s) \<and>
    m_lock (mtx t i) = m_lock (mtx s i)"
proof -
  have "lock_switch n E False i mi thd me s = lock_robust i s" for me
    using assms(1) by (auto simp: lock_switch_def mutex_kinds Let_def)
  with assms(2) show ?thesis by (auto simp: lock_real_def lock_robust_def Let_def)
qed

lemma robust_lock_no_exclusion_witness:
  "\<exists>t. lock_real 1 calm False 0 0 1 (upd_mtx 0 (\<lambda>m. m\<lparr>m_kind := 16, m_lock := 9, m_owner := 9\<rparr>) fresh) = Ret 0 t \<and>
     m_owner (mtx t 0) = 7 \<and> m_lock (mtx t 0) = 9"
  using robust_lock_no_exclusion [of "upd_mtx 0 (\<lambda>m. m\<lparr>m_kind := 16, m_lock := 9, m_owner := 9\<rparr>) fresh" 0 1 calm 0 1]
  by (simp add: mutex_kinds fresh_thread_def)

end
