(* ===== verification/MutexInit.thy ===== *)
theory MutexInit
  imports MutexProps
begin

unbundle bit_operations_syntax

text \<open>
  What kind of mutex \<open>pthread_mutex_init\<close> (\<open>source/mutex_init.c\<close>) makes from an attribute, and which of them
  \<open>pthread_mutex_lock\<close> knows.
\<close>

section \<open>Bits of an attribute\<close>

text \<open>An attribute as the attribute functions build it: a kind, a ceiling, a protocol and the two flags.\<close>

definition attr_ok :: "i32 \<Rightarrow> bool" where
  "attr_ok mk \<longleftrightarrow> mk AND 0x0f000ffc = 0"

lemma and3_cases: "w AND 3 = 0 \<or> w AND 3 = 1 \<or> w AND 3 = 2 \<or> w AND 3 = 3" for w :: i32
proof -
  have "w AND 3 = take_bit 2 w" by (simp add: take_bit_eq_mask mask_eq_exp_minus_1)
  moreover have "unat (take_bit 2 w) < 2 ^ 2" unfolding unsigned_take_bit_eq by (rule take_bit_nat_less_exp)
  ultimately have "unat (w AND 3) < 4" by simp
  then have "unat (w AND 3) = 0 \<or> unat (w AND 3) = 1 \<or> unat (w AND 3) = 2 \<or> unat (w AND 3) = 3" by linarith
  then show ?thesis by (simp add: word_unat_eq_iff)
qed

lemma attr_kind:
  assumes "attr_ok mk"
  shows "mk AND NOT PTHREAD_MUTEXATTR_FLAG_BITS = mk AND 3"
proof -
  have "mk AND (0x0f000ffc OR 3) = (mk AND 0x0f000ffc) OR (mk AND 3)" by (rule bit.conj_disj_distrib)
  moreover have "NOT PTHREAD_MUTEXATTR_FLAG_BITS = 0x0f000fff"
  proof -
    have "PTHREAD_MUTEXATTR_FLAG_BITS = 0xf0fff000"
      by (simp add: PTHREAD_MUTEXATTR_FLAG_BITS_def PTHREAD_MUTEXATTR_FLAG_ROBUST_def
          PTHREAD_MUTEXATTR_FLAG_PSHARED_def PTHREAD_MUTEXATTR_PROTOCOL_MASK_def PTHREAD_MUTEXATTR_PRIO_CEILING_MASK_def)
    moreover have "NOT (0xf0fff000 :: i32) = 0x0f000fff" by (simp add: word_uint_eq_iff not_eq_complement)
    ultimately show ?thesis by (simp only:)
  qed
  ultimately show ?thesis using assms by (simp add: attr_ok_def)
qed

lemma robust_shares: "mk AND PTHREAD_MUTEXATTR_FLAG_ROBUST \<noteq> 0 \<Longrightarrow>
  mk AND (PTHREAD_MUTEXATTR_FLAG_PSHARED OR PTHREAD_MUTEXATTR_FLAG_ROBUST) \<noteq> 0"
  by (auto simp: bit.conj_disj_distrib or_eq_0_iff)

text \<open>The twenty labels of the switches: four basic, four robust, eight priority inheriting, four priority protected.\<close>

definition all_kinds :: "i32 set" where
  "all_kinds = {PTHREAD_MUTEX_TIMED_NP, PTHREAD_MUTEX_RECURSIVE_NP, PTHREAD_MUTEX_ERRORCHECK_NP, PTHREAD_MUTEX_ADAPTIVE_NP}
     \<union> kinds_robust \<union> kinds_pi \<union> kinds_pp"

lemma init_mutex_typed:
  assumes "attr_ok mk" and "\<not> init_refuses mk"
  shows "PTHREAD_MUTEX_TYPE (init_mutex mk) \<in> all_kinds \<and> PTHREAD_MUTEX_TYPE (init_mutex mk) AND 3 = mk AND 3 \<and>
    (m_kind (init_mutex mk) AND PTHREAD_MUTEX_PSHARED_BIT \<noteq> 0) =
      (mk AND (PTHREAD_MUTEXATTR_FLAG_PSHARED OR PTHREAD_MUTEXATTR_FLAG_ROBUST) \<noteq> 0) \<and>
    m_count (init_mutex mk) = 0 \<and> m_owner (init_mutex mk) = 0 \<and> m_nusers (init_mutex mk) = 0 \<and>
    (PTHREAD_MUTEX_TYPE (init_mutex mk) \<in> kinds_pp \<or> m_lock (init_mutex mk) = 0)"
proof -
  note k = attr_kind [OF assms(1)]
  define prot where "prot = mk AND PTHREAD_MUTEXATTR_PROTOCOL_MASK"
  define rob where "rob \<longleftrightarrow> mk AND PTHREAD_MUTEXATTR_FLAG_ROBUST \<noteq> 0"
  define shr where "shr \<longleftrightarrow> mk AND (PTHREAD_MUTEXATTR_FLAG_PSHARED OR PTHREAD_MUTEXATTR_FLAG_ROBUST) \<noteq> 0"
  have rs: "rob \<longrightarrow> shr" using robust_shares by (auto simp: rob_def shr_def)
  have ref: "prot = 0 \<or> prot = 0x10000000 \<or> \<not> rob"
    using assms(2) by (auto simp: init_refuses_def Let_def prot_def rob_def PTHREAD_PRIO_NONE_def PTHREAD_PRIO_INHERIT_def
        PTHREAD_MUTEXATTR_PROTOCOL_SHIFT_def)
  show ?thesis
    unfolding init_mutex_def k prot_def [symmetric] rob_def [symmetric] shr_def [symmetric] Let_def
    using and3_cases [of mk] rs ref
    by (elim disjE; cases rob; cases shr)
      (simp_all add: all_kinds_def mutex_kinds mutex_macros zero_mutex_def PTHREAD_PRIO_INHERIT_def PTHREAD_PRIO_PROTECT_def
        PTHREAD_MUTEXATTR_PROTOCOL_SHIFT_def)
qed

lemma unshared_kind:
  assumes "PTHREAD_MUTEX_TYPE m \<in> all_kinds" and "m_kind m AND NOT 255 = 0"
  shows "m_kind m \<in> all_kinds \<longleftrightarrow> m_kind m AND PTHREAD_MUTEX_PSHARED_BIT = 0"
proof
  assume "m_kind m \<in> all_kinds"
  then show "m_kind m AND PTHREAD_MUTEX_PSHARED_BIT = 0" by (auto simp: all_kinds_def mutex_kinds)
next
  assume z: "m_kind m AND PTHREAD_MUTEX_PSHARED_BIT = 0"
  have "m_kind m = m_kind m AND (NOT 255 OR (128 OR 127))" by simp
  also have "\<dots> = (m_kind m AND NOT 255) OR ((m_kind m AND 128) OR (m_kind m AND 127))"
    by (simp only: bit.conj_disj_distrib)
  also have "\<dots> = m_kind m AND 127" using z assms(2) by (simp add: PTHREAD_MUTEX_PSHARED_BIT_def)
  finally show "m_kind m \<in> all_kinds" using assms(1) by (simp add: PTHREAD_MUTEX_TYPE_def)
qed

lemma init_mutex_small: "attr_ok mk \<Longrightarrow> m_kind (init_mutex mk) AND NOT 255 = 0"
  using and3_cases [of mk]
  by (auto simp: init_mutex_def attr_kind Let_def mutex_kinds bit.conj_disj_distrib2)

lemma pthread_mutex_init_Ret:
  assumes "pthread_mutex_init E p (Some mk) s = Ret r t"
  shows "if init_refuses mk then r = ENOTSUP
    else r = 0 \<and> (\<exists>e. nominal t p = Some e \<and> mtx t e = init_mutex mk)"
  using assms by (cases "init_refuses mk") (auto simp: pthread_mutex_init_def bnd_eq_Ret Let_def)

text \<open>
  C22 (the kinds \<open>pthread_mutex_init\<close> makes). For an attribute as the attribute functions build it, the call is refused
  with \<open>ENOTSUP\<close> exactly for a robust one with the protocol of priority protection, and otherwise the
  mutex the program's word now leads to is well-typed: its type is one of the twenty kinds of the switches (four
  basic, four robust, eight priority inheriting, four priority protected), with the kind asked for in the
  lowest bits, its word is free (but for the ceiling of a priority-protected one)
  and it has no owner, count or users. Its whole kind is a label of the switch of \<open>pthread_mutex_lock\<close>
  exactly if it is neither process shared nor robust; otherwise every lock call returns \<open>EINVAL\<close>.
\<close>

theorem init_typed:
  assumes "attr_ok mk" and "pthread_mutex_init E p (Some mk) s = Ret r t"
  shows "if init_refuses mk then r = ENOTSUP
    else r = 0 \<and> (\<exists>e. nominal t p = Some e \<and>
      (let m = mtx t e; shared = mk AND (PTHREAD_MUTEXATTR_FLAG_PSHARED OR PTHREAD_MUTEXATTR_FLAG_ROBUST) \<noteq> 0 in
       PTHREAD_MUTEX_TYPE m \<in> all_kinds \<and> PTHREAD_MUTEX_TYPE m AND 3 = mk AND 3 \<and>
       m_count m = 0 \<and> m_owner m = 0 \<and> m_nusers m = 0 \<and> (PTHREAD_MUTEX_TYPE m \<in> kinds_pp \<or> m_lock m = 0) \<and>
       (m_kind m \<in> all_kinds \<longleftrightarrow> \<not> shared) \<and>
       (shared \<longrightarrow> (\<forall>n E no_incr mi thd. lock_real n E no_incr e mi thd t = Ret EINVAL t))))"
proof (cases "init_refuses mk")
  case True
  then show ?thesis using pthread_mutex_init_Ret [OF assms(2)] by simp
next
  case False
  then obtain e where e: "nominal t p = Some e" "mtx t e = init_mutex mk" "r = 0"
    using pthread_mutex_init_Ret [OF assms(2)] by auto
  note i = init_mutex_typed [OF assms(1) False]
  have "m_kind (init_mutex mk) \<in> all_kinds \<longleftrightarrow> m_kind (init_mutex mk) AND PTHREAD_MUTEX_PSHARED_BIT = 0"
    using unshared_kind init_mutex_small [OF assms(1)] i by blast
  then show ?thesis using False e i pshared_lock_EINVAL [of t e] by (simp add: Let_def)
qed

theorem init_typed_witness:
  "\<exists>t e. pthread_mutex_init calm 8 (Some 0x40000002) fresh = Ret 0 t \<and> nominal t 8 = Some e \<and>
    PTHREAD_MUTEX_TYPE (mtx t e) AND 3 = 2 \<and> m_kind (mtx t e) \<notin> all_kinds"
proof -
  have a: "attr_ok 0x40000002" by (simp add: attr_ok_def)
  have n: "\<not> init_refuses 0x40000002"
    by (simp add: init_refuses_def PTHREAD_MUTEXATTR_PROTOCOL_MASK_def PTHREAD_PRIO_NONE_def)
  have "\<exists>r t. pthread_mutex_init calm 8 (Some 0x40000002) fresh = Ret r t"
    using n by (simp add: pthread_mutex_init_def create_mutex_def fresh_def get_next_index_def Let_def)
  then obtain r t where t: "pthread_mutex_init calm 8 (Some 0x40000002) fresh = Ret r t" by blast
  from init_typed [OF a t] n t show ?thesis
    by (auto simp: Let_def PTHREAD_MUTEXATTR_FLAG_PSHARED_def PTHREAD_MUTEXATTR_FLAG_ROBUST_def)
qed

end
