(* ===== verification/AsyncCancel.thy ===== *)
theory AsyncCancel
  imports NptlState
begin

unbundle bit_operations_syntax

text \<open>
  The cancellation word of a thread (\<open>cancelhandling\<close> of \<open>source/descr.h\<close>): the two functions of
  \<open>source/cancellation.c\<close> that enter and leave asynchronous cancellation, \<open>__do_cancel\<close> of
  \<open>source/pthreadP.h\<close>, the atomic accesses of \<open>source/tls.h\<close>, and the cleanup buffers of
  \<open>source/cleanup_compat.c\<close>. Another thread may cancel this one at any of the atomic accesses.
  A function that does not return to its caller because the thread is unwound gives \<open>Unwound\<close>.
\<close>

section \<open>The bits (descr.h)\<close>

definition CANCELSTATE_BITMASK :: i32 where "CANCELSTATE_BITMASK = 0x01"
definition CANCELTYPE_BITMASK :: i32 where "CANCELTYPE_BITMASK = 0x02"
definition CANCELING_BITMASK :: i32 where "CANCELING_BITMASK = 0x04"
definition CANCELED_BITMASK :: i32 where "CANCELED_BITMASK = 0x08"
definition EXITING_BIT :: nat where "EXITING_BIT = 4"
definition EXITING_BITMASK :: i32 where "EXITING_BITMASK = 0x10"
definition TERMINATED_BITMASK :: i32 where "TERMINATED_BITMASK = 0x20"
definition SETXID_BITMASK :: i32 where "SETXID_BITMASK = 0x40"
definition CANCEL_RESTMASK :: i32 where "CANCEL_RESTMASK = 0xffffff80"

lemmas cancel_bits = CANCELSTATE_BITMASK_def CANCELTYPE_BITMASK_def CANCELING_BITMASK_def
  CANCELED_BITMASK_def EXITING_BIT_def EXITING_BITMASK_def TERMINATED_BITMASK_def
  SETXID_BITMASK_def CANCEL_RESTMASK_def

definition CANCEL_ENABLED_AND_CANCELED :: "i32 \<Rightarrow> bool" where
  "CANCEL_ENABLED_AND_CANCELED v \<longleftrightarrow>
     v AND (CANCELSTATE_BITMASK OR CANCELED_BITMASK OR EXITING_BITMASK OR CANCEL_RESTMASK OR TERMINATED_BITMASK)
       = CANCELED_BITMASK"

definition CANCEL_ENABLED_AND_CANCELED_AND_ASYNCHRONOUS :: "i32 \<Rightarrow> bool" where
  "CANCEL_ENABLED_AND_CANCELED_AND_ASYNCHRONOUS v \<longleftrightarrow>
     v AND (CANCELSTATE_BITMASK OR CANCELTYPE_BITMASK OR CANCELED_BITMASK OR EXITING_BITMASK
       OR CANCEL_RESTMASK OR TERMINATED_BITMASK) = CANCELTYPE_BITMASK OR CANCELED_BITMASK"

section \<open>Atomic access (tls.h)\<close>

definition cancel_cell :: "envr \<Rightarrow> nptl cell" where
  "cancel_cell E = \<lparr>c_rd = (\<lambda>s. p_cancelhandling (slf s)),
     c_wr = (\<lambda>v s. s\<lparr>slf := (slf s)\<lparr>p_cancelhandling := v\<rparr>\<rparr>),
     c_tick = ticks E, c_sys = (\<lambda>f s. s\<lparr>calls := f # calls s\<rparr>)\<rparr>"

definition THREAD_ATOMIC_CMPXCHG_VAL :: "'s cell \<Rightarrow> i32 \<Rightarrow> i32 \<Rightarrow> 's \<Rightarrow> i32 \<times> 's" where
  "THREAD_ATOMIC_CMPXCHG_VAL C newval oldval s = cmpxchg C newval oldval s"

definition THREAD_ATOMIC_AND :: "'s cell \<Rightarrow> i32 \<Rightarrow> 's \<Rightarrow> 's" where
  "THREAD_ATOMIC_AND C val s = snd (andl C val s)"

definition THREAD_ATOMIC_BIT_SET :: "'s cell \<Rightarrow> nat \<Rightarrow> 's \<Rightarrow> 's" where
  "THREAD_ATOMIC_BIT_SET C b s = (let s = c_tick C s in c_wr C (c_rd C s OR push_bit b 1) s)"

section \<open>Entering and leaving asynchronous cancellation (cancellation.c)\<close>

datatype 'a control = Returned 'a | Unwound

text \<open>\<open>__do_cancel\<close>: the unwinder it calls is not under \<open>src/\<close> and does not come back.\<close>

definition do_cancel :: "envr \<Rightarrow> nptl \<Rightarrow> ('a control, nptl) out" where
  "do_cancel E s = Ret Unwound (THREAD_ATOMIC_BIT_SET (cancel_cell E) EXITING_BIT s)"

definition PTHREAD_CANCELED :: u64 where "PTHREAD_CANCELED = - 1"

fun enable_loop :: "nat \<Rightarrow> envr \<Rightarrow> i32 \<Rightarrow> nptl \<Rightarrow> (i32 control, nptl) out" where
  "enable_loop 0 E oldval s = Stuck"
| "enable_loop (Suc n) E oldval s =
     (let newval = oldval OR CANCELTYPE_BITMASK in
      if newval = oldval then Ret (Returned oldval) s
      else case THREAD_ATOMIC_CMPXCHG_VAL (cancel_cell E) newval oldval s of (curval, s) \<Rightarrow>
        if curval = oldval then
          if CANCEL_ENABLED_AND_CANCELED_AND_ASYNCHRONOUS newval
          then do_cancel E (s\<lparr>slf := (slf s)\<lparr>p_result := PTHREAD_CANCELED\<rparr>\<rparr>)
          else Ret (Returned oldval) s
        else enable_loop n E curval s)"

definition enable_asynccancel :: "nat \<Rightarrow> envr \<Rightarrow> nptl \<Rightarrow> (i32 control, nptl) out" where
  "enable_asynccancel n E s = (case loadl (cancel_cell E) s of (oldval, s) \<Rightarrow> enable_loop n E oldval s)"

text \<open>\<open>futex_wait\<close>: any other error than \<open>EAGAIN\<close> and \<open>EINTR\<close> ends the program.\<close>

definition futex_wait :: "i64 \<Rightarrow> i32 option" where
  "futex_wait ret =
     (let err = (ucast (lll_futex_syscall_value ret) :: i32)
      in if err = 0 \<or> err = - EAGAIN \<or> err = - EINTR then Some (- err) else None)"

definition futex_wait_simple :: "envr \<Rightarrow> i32 \<Rightarrow> nptl \<Rightarrow> (unit, nptl) out" where
  "futex_wait_simple E expected s =
     (let s = lll_futex_wait (cancel_cell E) expected LLL_PRIVATE s
      in case futex_wait (e_wait E (clk s)) of Some _ \<Rightarrow> Ret () s | None \<Rightarrow> Abort)"

text \<open>The first loop of \<open>__pthread_disable_asynccancel\<close>, which clears the bit and gives \<open>newval\<close>.\<close>

fun disable_loop :: "nat \<Rightarrow> envr \<Rightarrow> i32 \<Rightarrow> nptl \<Rightarrow> (i32, nptl) out" where
  "disable_loop 0 E oldval s = Stuck"
| "disable_loop (Suc n) E oldval s =
     (let newval = oldval AND NOT CANCELTYPE_BITMASK in
      case THREAD_ATOMIC_CMPXCHG_VAL (cancel_cell E) newval oldval s of (curval, s) \<Rightarrow>
        if curval = oldval then Ret newval s else disable_loop n E curval s)"

text \<open>The second: it waits while a cancellation is under way.\<close>

fun canceling_wait :: "nat \<Rightarrow> envr \<Rightarrow> i32 \<Rightarrow> nptl \<Rightarrow> (unit, nptl) out" where
  "canceling_wait 0 E newval s = Stuck"
| "canceling_wait (Suc n) E newval s =
     (if newval AND (CANCELING_BITMASK OR CANCELED_BITMASK) = CANCELING_BITMASK
      then bnd (futex_wait_simple E newval s) (\<lambda>_ s.
             case loadl (cancel_cell E) s of (newval, s) \<Rightarrow> canceling_wait n E newval s)
      else Ret () s)"

definition disable_asynccancel :: "nat \<Rightarrow> envr \<Rightarrow> i32 \<Rightarrow> nptl \<Rightarrow> (unit, nptl) out" where
  "disable_asynccancel n E oldtype s =
     (if oldtype AND CANCELTYPE_BITMASK \<noteq> 0 then Ret () s
      else case loadl (cancel_cell E) s of (oldval, s) \<Rightarrow>
        bnd (disable_loop n E oldval s) (\<lambda>newval s. canceling_wait n E newval s))"

section \<open>Cleanup buffers (cleanup_compat.c)\<close>

definition cleanup_push :: "u64 \<Rightarrow> u64 \<Rightarrow> u64 \<Rightarrow> nptl \<Rightarrow> nptl" where
  "cleanup_push buffer routine arg s =
     (let s = s\<lparr>bufs := (bufs s)(buffer := \<lparr>b_routine = routine, b_arg = arg, b_prev = p_cleanup (slf s)\<rparr>)\<rparr>
      in s\<lparr>slf := (slf s)\<lparr>p_cleanup := buffer\<rparr>\<rparr>)"

text \<open>\<open>run r a\<close> is what calling the routine at address \<open>r\<close> on \<open>a\<close> does.\<close>

definition cleanup_pop :: "(u64 \<Rightarrow> u64 \<Rightarrow> nptl \<Rightarrow> (unit, nptl) out) \<Rightarrow> u64 \<Rightarrow> bool \<Rightarrow> nptl \<Rightarrow> (unit, nptl) out" where
  "cleanup_pop run buffer execute s =
     (let b = bufs s buffer; s = s\<lparr>slf := (slf s)\<lparr>p_cleanup := b_prev b\<rparr>\<rparr>
      in if execute then run (b_routine b) (b_arg b) s else Ret () s)"


section \<open>Laws of the cancellation word\<close>

interpretation kc: futex_cell "cancel_cell E" for E
  by unfold_locales (simp_all add: cancel_cell_def)

lemma cancel_sels [simp]:
  "c_rd (cancel_cell E) s = p_cancelhandling (slf s)"
  "c_wr (cancel_cell E) v s = s\<lparr>slf := (slf s)\<lparr>p_cancelhandling := v\<rparr>\<rparr>"
  "c_tick (cancel_cell E) s = ticks E s" "c_sys (cancel_cell E) f s = s\<lparr>calls := f # calls s\<rparr>"
  by (simp_all add: cancel_cell_def)

abbreviation pch :: "nptl \<Rightarrow> i32" where
  "pch s \<equiv> p_cancelhandling (slf s)"

text \<open>The other threads set no cancellation type for this thread: only the thread itself does.\<close>

definition keeps_type :: "envr \<Rightarrow> bool" where
  "keeps_type E \<longleftrightarrow>
     (\<forall>c p. p_cancelhandling (e_self E c p) AND CANCELTYPE_BITMASK = p_cancelhandling p AND CANCELTYPE_BITMASK)"

lemma type_ticks: "keeps_type E \<Longrightarrow> pch (ticks E s) AND CANCELTYPE_BITMASK = pch s AND CANCELTYPE_BITMASK"
  by (simp add: keeps_type_def)

lemma or_eq_self: "v OR m = v \<longleftrightarrow> v AND m = m" for v :: i32
  by (metis and.commute word_ao_absorbs(1) word_ao_absorbs(8) or.commute)

lemma type_set [simp]:
  "(v OR CANCELTYPE_BITMASK) AND CANCELTYPE_BITMASK = CANCELTYPE_BITMASK"
  "(v AND NOT CANCELTYPE_BITMASK) AND CANCELTYPE_BITMASK = 0" "CANCELTYPE_BITMASK \<noteq> 0"
  by (simp_all add: CANCELTYPE_BITMASK_def and.assoc)

lemma type_cases: "v AND CANCELTYPE_BITMASK = 0 \<or> v AND CANCELTYPE_BITMASK = CANCELTYPE_BITMASK"
proof -
  have "v AND 2 = (if bit v 1 then 2 else 0)" by (rule bit_word_eqI) (auto simp: bit_simps dest: bit_imp_le_length)
  then show ?thesis by (simp add: CANCELTYPE_BITMASK_def)
qed


lemma async_split:
  "CANCEL_ENABLED_AND_CANCELED_AND_ASYNCHRONOUS v \<longleftrightarrow>
     CANCEL_ENABLED_AND_CANCELED v \<and> v AND CANCELTYPE_BITMASK \<noteq> 0"
proof -
  have m: "(CANCELSTATE_BITMASK OR CANCELTYPE_BITMASK OR CANCELED_BITMASK OR EXITING_BITMASK
       OR CANCEL_RESTMASK OR TERMINATED_BITMASK) = (0xffffffbb :: i32)"
    "(CANCELSTATE_BITMASK OR CANCELED_BITMASK OR EXITING_BITMASK OR CANCEL_RESTMASK OR TERMINATED_BITMASK)
       = (0xffffffb9 :: i32)" "CANCELTYPE_BITMASK OR CANCELED_BITMASK = (10 :: i32)"
    by (simp_all add: cancel_bits)
  have parts: "(0xffffffb9 :: i32) = 0xffffffbb AND NOT 2" "(2 :: i32) = 0xffffffbb AND 2"
    "(8 :: i32) = 10 AND NOT 2" "(2 :: i32) = 10 AND 2"
    by simp_all
  have join: "x = (x AND NOT 2) OR (x AND 2)" for x :: i32 by (rule bit_word_eqI) (auto simp: bit_simps)
  have split: "x = y \<longleftrightarrow> x AND NOT 2 = y AND NOT 2 \<and> x AND 2 = y AND 2" for x y :: i32
    using join by metis
  have "v AND 0xffffffbb = 10 \<longleftrightarrow> v AND 0xffffffb9 = 8 \<and> v AND 2 = 2"
    by (subst split) (simp add: and.assoc)
  then show ?thesis
    using type_cases [of v]
    unfolding CANCEL_ENABLED_AND_CANCELED_AND_ASYNCHRONOUS_def CANCEL_ENABLED_AND_CANCELED_def m
    by (auto simp: CANCELTYPE_BITMASK_def cancel_bits)
qed

lemma canceled_or_type [simp]:
  "CANCEL_ENABLED_AND_CANCELED (v OR CANCELTYPE_BITMASK) \<longleftrightarrow> CANCEL_ENABLED_AND_CANCELED v"
proof -
  have "(v OR 2) AND 0xffffffb9 = v AND 0xffffffb9" by (simp add: word_ao_dist)
  then show ?thesis by (simp add: CANCEL_ENABLED_AND_CANCELED_def cancel_bits)
qed

text \<open>What one run of the loop of \<open>__pthread_enable_asynccancel\<close> can do.\<close>

lemma enable_loop_cases:
  "v0 = pch s \<Longrightarrow> case enable_loop n E v0 s of
     Ret (Returned v) t \<Rightarrow> (v AND CANCELTYPE_BITMASK \<noteq> 0 \<and> pch t = v) \<or>
       (\<exists>q. pch q = v \<and> t = q\<lparr>slf := (slf q)\<lparr>p_cancelhandling := v OR CANCELTYPE_BITMASK\<rparr>\<rparr> \<and>
          \<not> CANCEL_ENABLED_AND_CANCELED v)
   | Ret Unwound t \<Rightarrow> pch t AND EXITING_BITMASK \<noteq> 0 \<and> (\<exists>q. CANCEL_ENABLED_AND_CANCELED (pch q) \<and>
       t = THREAD_ATOMIC_BIT_SET (cancel_cell E) EXITING_BIT
          (q\<lparr>slf := (slf q)\<lparr>p_cancelhandling := pch q OR CANCELTYPE_BITMASK, p_result := PTHREAD_CANCELED\<rparr>\<rparr>))
   | Abort \<Rightarrow> False
   | Stuck \<Rightarrow> True"
proof (induction n arbitrary: v0 s)
  case 0
  show ?case by simp
next
  case (Suc n)
  show ?case
  proof (cases "v0 OR CANCELTYPE_BITMASK = v0")
    case True
    with Suc.prems show ?thesis by (simp add: or_eq_self)
  next
    case ne: False
    show ?thesis
    proof (cases "pch (ticks E s) = v0")
      case True
      have x: "(a OR push_bit EXITING_BIT 1) AND EXITING_BITMASK \<noteq> 0" for a :: i32
        by (simp add: EXITING_BIT_def EXITING_BITMASK_def word_ao_dist)
      show ?thesis
        using ne True x
        by (auto simp: Let_def THREAD_ATOMIC_CMPXCHG_VAL_def kc.cmpxchg_cases async_split do_cancel_def
            THREAD_ATOMIC_BIT_SET_def simp del: ticks_frame intro!: exI [of _ "ticks E s"])
    next
      case False
      have "enable_loop (Suc n) E v0 s = enable_loop n E (pch (ticks E s)) (ticks E s)"
        using ne False by (simp add: Let_def THREAD_ATOMIC_CMPXCHG_VAL_def kc.cmpxchg_cases del: ticks_frame)
      then show ?thesis using Suc.IH [OF refl, of "ticks E s"] by (simp del: ticks_frame)
    qed
  qed
qed


lemma enable_loop_type:
  assumes "keeps_type E"
  shows "v0 = pch s \<Longrightarrow> enable_loop n E v0 s = Ret (Returned v) t \<Longrightarrow>
    v AND CANCELTYPE_BITMASK = pch s AND CANCELTYPE_BITMASK \<and> pch t AND CANCELTYPE_BITMASK \<noteq> 0"
proof (induction n arbitrary: v0 s)
  case 0
  then show ?case by simp
next
  case (Suc n)
  show ?case
  proof (cases "v0 OR CANCELTYPE_BITMASK = v0 \<or> pch (ticks E s) = v0")
    case True
    with Suc.prems show ?thesis
      by (auto simp: or_eq_self Let_def THREAD_ATOMIC_CMPXCHG_VAL_def kc.cmpxchg_cases do_cancel_def
          simp del: ticks_frame split: if_splits)
  next
    case False
    with Suc.prems have "enable_loop n E (pch (ticks E s)) (ticks E s) = Ret (Returned v) t"
      by (simp add: Let_def THREAD_ATOMIC_CMPXCHG_VAL_def kc.cmpxchg_cases del: ticks_frame)
    from Suc.IH [OF refl this] show ?thesis using type_ticks [OF assms, of s] by simp
  qed
qed

lemma disable_loop_post:
  "disable_loop n E v0 s = Ret v t \<Longrightarrow> pch t = v \<and> v AND CANCELTYPE_BITMASK = 0"
proof (induction n arbitrary: v0 s)
  case 0
  then show ?case by simp
next
  case (Suc n)
  then show ?case
    by (auto simp: Let_def THREAD_ATOMIC_CMPXCHG_VAL_def kc.cmpxchg_cases simp del: ticks_frame split: if_splits)
qed

lemma canceling_wait_post:
  "v0 = pch s \<Longrightarrow> canceling_wait n E v0 s = Ret () t \<Longrightarrow>
     pch t AND (CANCELING_BITMASK OR CANCELED_BITMASK) \<noteq> CANCELING_BITMASK"
proof (induction n arbitrary: v0 s)
  case 0
  then show ?case by simp
next
  case (Suc n)
  show ?case
  proof (cases "v0 AND (CANCELING_BITMASK OR CANCELED_BITMASK) = CANCELING_BITMASK")
    case True
    with Suc.prems obtain s1 where "canceling_wait n E (pch (ticks E s1)) (ticks E s1) = Ret () t"
      by (auto simp: out_ret loadl_def Let_def simp del: ticks_frame)
    from Suc.IH [OF refl this] show ?thesis .
  next
    case False
    with Suc.prems show ?thesis by simp
  qed
qed

lemma futex_wait_simple_eq:
  "futex_wait_simple E v s = Ret u t \<Longrightarrow> slf t = slf s"
  by (auto simp: futex_wait_simple_def lll_futex_wait_def Let_def split: option.splits)

lemma canceling_wait_type:
  assumes "keeps_type E"
  shows "canceling_wait n E v0 s = Ret () t \<Longrightarrow> pch t AND CANCELTYPE_BITMASK = pch s AND CANCELTYPE_BITMASK"
proof (induction n arbitrary: v0 s)
  case 0
  then show ?case by simp
next
  case (Suc n)
  show ?case
  proof (cases "v0 AND (CANCELING_BITMASK OR CANCELED_BITMASK) = CANCELING_BITMASK")
    case True
    with Suc.prems obtain s1 where w: "futex_wait_simple E v0 s = Ret () s1"
      and r: "canceling_wait n E (pch (ticks E s1)) (ticks E s1) = Ret () t"
      by (auto simp: out_ret loadl_def Let_def simp del: ticks_frame)
    from Suc.IH [OF r] type_ticks [OF assms, of s1] futex_wait_simple_eq [OF w] show ?thesis by simp
  next
    case False
    with Suc.prems show ?thesis by simp
  qed
qed

section \<open>What the two functions promise\<close>

text \<open>
  Asynchronous cancellation acts at once. If \<open>__pthread_enable_asynccancel\<close> returns \<open>v\<close>,
  then \<open>v\<close> was the word of the thread; either the type was asynchronous already, or the bit has
  been added in one atomic step to a word in which the thread was not both cancelable and
  canceled. In the other case it does not return: the thread is unwound with the result
  \<open>PTHREAD_CANCELED\<close> and the exiting bit set, and only then. It never fails.
\<close>

lemma enable_async_acts:
  "case enable_asynccancel n E s of
     Ret (Returned v) t \<Rightarrow> (v AND CANCELTYPE_BITMASK \<noteq> 0 \<and> pch t = v) \<or>
       (\<exists>q. pch q = v \<and> t = q\<lparr>slf := (slf q)\<lparr>p_cancelhandling := v OR CANCELTYPE_BITMASK\<rparr>\<rparr> \<and>
          \<not> CANCEL_ENABLED_AND_CANCELED v)
   | Ret Unwound t \<Rightarrow> pch t AND EXITING_BITMASK \<noteq> 0 \<and> (\<exists>q. CANCEL_ENABLED_AND_CANCELED (pch q) \<and>
       t = THREAD_ATOMIC_BIT_SET (cancel_cell E) EXITING_BIT
          (q\<lparr>slf := (slf q)\<lparr>p_cancelhandling := pch q OR CANCELTYPE_BITMASK, p_result := PTHREAD_CANCELED\<rparr>\<rparr>))
   | Abort \<Rightarrow> False
   | Stuck \<Rightarrow> True"
  using enable_loop_cases [OF refl, where n = n and E = E and s = "ticks E s"]
  by (simp add: enable_asynccancel_def loadl_def Let_def del: ticks_frame)

text \<open>
  C37 (the type is restored). As long as the other threads leave the type bit alone: after
  \<open>__pthread_enable_asynccancel\<close> the type is asynchronous, and \<open>__pthread_disable_asynccancel\<close>
  of the value it returned, called from any later state in which it still is, gives back the type
  from before, so that the pair nests; and when it has cleared the bit it does not return between
  the start of a cancellation and its delivery.
\<close>

theorem async_type_restored:
  assumes "keeps_type E" and "enable_asynccancel n E s = Ret (Returned v) t"
    and "pch t' AND CANCELTYPE_BITMASK \<noteq> 0" and "disable_asynccancel m E v t' = Ret () u"
  shows "pch t AND CANCELTYPE_BITMASK \<noteq> 0 \<and>
    pch u AND CANCELTYPE_BITMASK = pch s AND CANCELTYPE_BITMASK \<and>
    (pch s AND CANCELTYPE_BITMASK = 0 \<longrightarrow>
      pch u AND (CANCELING_BITMASK OR CANCELED_BITMASK) \<noteq> CANCELING_BITMASK)"
proof -
  have e: "enable_loop n E (pch (ticks E s)) (ticks E s) = Ret (Returned v) t"
    using assms(2) by (simp add: enable_asynccancel_def loadl_def Let_def del: ticks_frame)
  from enable_loop_type [OF assms(1) refl e] type_ticks [OF assms(1), of s]
  have v: "v AND CANCELTYPE_BITMASK = pch s AND CANCELTYPE_BITMASK" and t: "pch t AND CANCELTYPE_BITMASK \<noteq> 0"
    by simp_all
  show ?thesis
  proof (cases "v AND CANCELTYPE_BITMASK = 0")
    case True
    with assms(4) obtain w q where d: "disable_loop m E (pch (ticks E t')) (ticks E t') = Ret w q"
      and c: "canceling_wait m E w q = Ret () u"
      by (auto simp: disable_asynccancel_def loadl_def Let_def out_ret simp del: ticks_frame)
    from disable_loop_post [OF d] have q: "w = pch q" "pch q AND CANCELTYPE_BITMASK = 0" by simp_all
    have "pch u AND CANCELTYPE_BITMASK = 0" using canceling_wait_type [OF assms(1) c] q(2) by simp
    with True v t canceling_wait_post [OF q(1) c] show ?thesis by simp
  next
    case False
    with assms(4) have "u = t'" by (simp add: disable_asynccancel_def)
    with False assms(3) v t type_cases [of "pch t'"] type_cases [of v] show ?thesis by auto
  qed
qed

lemma calm_keeps_type: "keeps_type calm"
  by (simp add: keeps_type_def)

theorem async_type_restored_witness:
  "\<exists>t u. enable_asynccancel (Suc (Suc 0)) calm fresh = Ret (Returned 0) t \<and> pch t = 2 \<and>
     disable_asynccancel (Suc (Suc 0)) calm 0 t = Ret () u \<and> pch u AND CANCELTYPE_BITMASK = 0"
proof -
  have t: "enable_asynccancel (Suc (Suc 0)) calm fresh = Ret (Returned 0)
      (fresh\<lparr>clk := 2, slf := fresh_thread\<lparr>p_cancelhandling := 2\<rparr>\<rparr>)" (is "_ = Ret _ ?t")
    by (simp add: enable_asynccancel_def loadl_def Let_def THREAD_ATOMIC_CMPXCHG_VAL_def
        kc.cmpxchg_cases quiet_ticks fresh_thread_def cancel_bits
        CANCEL_ENABLED_AND_CANCELED_AND_ASYNCHRONOUS_def del: ticks_frame)
  obtain u where u: "disable_asynccancel (Suc (Suc 0)) calm 0 ?t = Ret () u"
    by (simp add: disable_asynccancel_def loadl_def Let_def THREAD_ATOMIC_CMPXCHG_VAL_def
        kc.cmpxchg_cases quiet_ticks fresh_thread_def cancel_bits del: ticks_frame)
  have "pch ?t AND CANCELTYPE_BITMASK \<noteq> 0" by (simp add: cancel_bits)
  from async_type_restored [OF calm_keeps_type t this u] t u show ?thesis
    by (auto simp: fresh_thread_def)
qed

section \<open>The stack of cleanup buffers\<close>

text \<open>The buffers from an address on, in the order in which they would be run.\<close>

fun chain :: "(u64 \<Rightarrow> cleanup_buffer) \<Rightarrow> u64 \<Rightarrow> u64 list \<Rightarrow> bool" where
  "chain m a [] \<longleftrightarrow> a = 0"
| "chain m a (x # xs) \<longleftrightarrow> a = x \<and> x \<noteq> 0 \<and> chain m (b_prev (m x)) xs"

lemma chain_other: "b \<notin> set xs \<Longrightarrow> chain (m(b := v)) a xs \<longleftrightarrow> chain m a xs"
  by (induction xs arbitrary: a) auto

text \<open>
  Cleanup buffers are a stack. If the cleanup list of the thread is \<open>xs\<close>, then pushing a
  buffer that is not on it makes it \<open>b # xs\<close> and changes no other buffer, and popping that buffer
  makes it \<open>xs\<close> again and then runs its routine on its argument exactly if asked to, with the
  buffer already off the list.
\<close>

lemma cleanup_stack:
  assumes "chain (bufs s) (p_cleanup (slf s)) xs" and "b \<notin> set xs" and "b \<noteq> 0"
    and "t = cleanup_push b r a s"
  shows "chain (bufs t) (p_cleanup (slf t)) (b # xs) \<and> (\<forall>c. c \<noteq> b \<longrightarrow> bufs t c = bufs s c) \<and>
    (\<exists>u. chain (bufs u) (p_cleanup (slf u)) xs \<and> slf u = slf s \<and>
      cleanup_pop run b execute t = (if execute then run r a u else Ret () u))"
proof -
  let ?u = "s\<lparr>bufs := (bufs s)(b := \<lparr>b_routine = r, b_arg = a, b_prev = p_cleanup (slf s)\<rparr>)\<rparr>"
  have "cleanup_pop run b execute t = (if execute then run r a ?u else Ret () ?u)"
    by (simp add: assms(4) cleanup_push_def cleanup_pop_def Let_def)
  moreover have "chain (bufs ?u) (p_cleanup (slf ?u)) xs" "slf ?u = slf s"
    using assms(1,2) by (simp_all add: chain_other)
  ultimately have "\<exists>u. chain (bufs u) (p_cleanup (slf u)) xs \<and> slf u = slf s \<and>
      cleanup_pop run b execute t = (if execute then run r a u else Ret () u)" by blast
  then show ?thesis
    using assms(1-3) by (simp add: assms(4) cleanup_push_def Let_def chain_other)
qed

lemma cleanup_stack_witness:
  "chain (bufs (cleanup_push 8 5 6 fresh)) 8 [8]"
  using cleanup_stack [of fresh "[]" 8 "cleanup_push 8 5 6 fresh" 5 6] by (simp add: fresh_thread_def cleanup_push_def Let_def)

end
