(* ===== verification/CondWait.thy ===== *)
theory CondWait
  imports MutexProps AsyncCancel
begin

unbundle bit_operations_syntax

text \<open>
  \<open>source/cond_wait.c\<close>: \<open>pthread_cond_wait\<close> and its cleanup handler. The condition variable is
  \<open>cnd\<close> of the state, the mutex is a mutex of the program at an address \<open>p\<close>. The function is cut
  where its comments cut it: entering (\<open>cond_enter\<close>), the loop (\<open>wait_loop\<close>), leaving
  (\<open>cond_leave\<close>). \<open>USE_REQUEUE_PI\<close> is the constant 0, since \<open>__ASSUME_REQUEUE_PI\<close> is not defined.

  \<open>wait_start\<close> is declared as a pointer and its own address is passed as the place of the time
  stamp, which is 8 bytes longer than the variable; the model keeps the stamp as written, which is
  what is read back as long as nothing else is placed in those bytes.
\<close>

section \<open>Definitions\<close>

definition COND_NWAITERS_SHIFT :: nat where "COND_NWAITERS_SHIFT = 1"

definition USE_REQUEUE_PI :: "mutex \<Rightarrow> bool" where "USE_REQUEUE_PI m \<longleftrightarrow> False"

text \<open>The address of the mutex of an entry; \<open>__list.__next\<close> is 32 bytes into it.\<close>

definition mutex_addr :: "envr \<Rightarrow> nat \<Rightarrow> u64" where
  "mutex_addr E i = e_list_at E i - 32"

abbreviation upd_cnd :: "(condvar \<Rightarrow> condvar) \<Rightarrow> nptl \<Rightarrow> nptl" where
  "upd_cnd f s \<equiv> s\<lparr>cnd := f (cnd s)\<rparr>"

definition cond_pshared :: "condvar \<Rightarrow> i32" where
  "cond_pshared c = (if c_mutex c = - 1 then LLL_SHARED else LLL_PRIVATE)"

text \<open>The locals of the function: the addresses of the two buffers and of the handler.\<close>

record wait_frame =
  w_buffer :: u64
  w_cbuffer :: u64
  w_handler :: u64

record condvar_cleanup_buffer =
  cb_mutex :: nat
  cb_bc_seq :: u32

subsection \<open>Lines 60 to 66 and 231 to 236: telling \<open>pthread_cond_destroy\<close>\<close>

definition last_waiter :: "condvar \<Rightarrow> bool" where
  "last_waiter c \<longleftrightarrow> c_total_seq c = - 1 \<and> c_nwaiters c < push_bit COND_NWAITERS_SHIFT 1"

definition drop_waiter :: "condvar \<Rightarrow> condvar" where
  "drop_waiter c = c\<lparr>c_nwaiters := c_nwaiters c - push_bit COND_NWAITERS_SHIFT 1\<rparr>"

subsection \<open>The cleanup handler\<close>

text \<open>Lines 40 to 53.\<close>

definition cleanup_adjust :: "u32 \<Rightarrow> condvar \<Rightarrow> condvar" where
  "cleanup_adjust bc_seq c =
     (if bc_seq = c_broadcast_seq c then
        let c = (if c_wakeup_seq c < c_total_seq c
                 then c\<lparr>c_wakeup_seq := c_wakeup_seq c + 1, c_futex := c_futex c + 1\<rparr> else c)
        in c\<lparr>c_woken_seq := c_woken_seq c + 1\<rparr>
      else c)"

text \<open>Lines 40 to 55: all that the handler does to the counters.\<close>

definition cleanup_counts :: "u32 \<Rightarrow> condvar \<Rightarrow> condvar" where
  "cleanup_counts bc_seq c = drop_waiter (cleanup_adjust bc_seq c)"

text \<open>\<open>get_mutex\<close> on the real mutex of an entry: its first word is the lock and the count.\<close>

definition first_word :: "mutex \<Rightarrow> u64" where
  "first_word m = push_bit 32 (ucast (m_count m)) OR ucast (m_lock m)"

definition get_mutex_of_real :: "envr \<Rightarrow> nat \<Rightarrow> nptl \<Rightarrow> (nat, nptl) out" where
  "get_mutex_of_real E i s =
     (if first_word (mtx s i) = 0 then Abort
      else case find (\<lambda>j. mutex_addr E j = first_word (mtx s i)) [0..<unat (re_cur (sync_vars s))] of
             Some j \<Rightarrow> Ret j s | None \<Rightarrow> Abort)"

definition condvar_cleanup :: "nat \<Rightarrow> envr \<Rightarrow> caller \<Rightarrow> condvar_cleanup_buffer \<Rightarrow> nptl \<Rightarrow> (i32, nptl) out" where
  "condvar_cleanup n E c cb s =
     (let pshared = cond_pshared (cnd s) in
      bnd (lll_lock n (cond_cell E) False pshared s) (\<lambda>_ s.
        let s = upd_cnd (cleanup_counts (cb_bc_seq cb)) s;
            destroying = last_waiter (cnd s);
            s = (if destroying then lll_futex_wake (cond_cell E) 1 pshared s else s);
            s = lll_unlock (cond_cell E) False pshared s;
            s = (if \<not> destroying then lll_futex_wake (cond_cell E) 0x7fffffff pshared s else s)
        in if \<not> USE_REQUEUE_PI (mtx s (cb_mutex cb))
              \<or> m_lock (mtx s (cb_mutex cb)) AND FUTEX_TID_MASK \<noteq> p_tid (slf s)
           then let s = s\<lparr>totalCondWaits := totalCondWaits s + 1\<rparr> in
             bnd (get_mutex_of_real E (cb_mutex cb) s) (\<lambda>j s.
               lock_real n E True j (entry_index (pool s j)) (thread_index c) s)
           else bnd (pthread_mutex_cond_lock_adjust (cb_mutex cb) s) (\<lambda>_ s. Ret 0 s)))"

subsection \<open>Waiting\<close>

text \<open>Lines 140 to 165, once the mutex is released: the value is the cleanup buffer and \<open>seq\<close>.\<close>

definition cond_register :: "envr \<Rightarrow> wait_frame \<Rightarrow> nat \<Rightarrow> nptl \<Rightarrow> (condvar_cleanup_buffer \<times> u64) \<times> nptl" where
  "cond_register E w i s =
     (let s = upd_cnd (\<lambda>v. v\<lparr>c_total_seq := c_total_seq v + 1, c_futex := c_futex v + 1,
                c_nwaiters := c_nwaiters v + push_bit COND_NWAITERS_SHIFT 1\<rparr>) s;
          s = upd_cnd (\<lambda>v. if c_mutex v \<noteq> - 1 then v\<lparr>c_mutex := mutex_addr E i\<rparr> else v) s;
          s = cleanup_push (w_buffer w) (w_handler w) (w_cbuffer w) s
      in ((\<lparr>cb_mutex = i, cb_bc_seq = c_broadcast_seq (cnd s)\<rparr>, c_wakeup_seq (cnd s)), s))"

text \<open>Lines 129 to 165: \<open>Inl err\<close> when the mutex is not released.\<close>

definition cond_enter ::
  "nat \<Rightarrow> envr \<Rightarrow> wait_frame \<Rightarrow> nat \<Rightarrow> i32 \<Rightarrow> nptl \<Rightarrow> (i32 + condvar_cleanup_buffer \<times> u64, nptl) out" where
  "cond_enter n E w i pshared s =
     bnd (lll_lock n (cond_cell E) False pshared s) (\<lambda>_ s.
       bnd (unlock_usercnt n E False i s) (\<lambda>err s.
         if err \<noteq> 0 then Ret (Inl err) (lll_unlock (cond_cell E) False pshared s)
         else case cond_register E w i s of (x, s) \<Rightarrow> Ret (Inr x) s))"

text \<open>Lines 168 to 213: release the condition variable, sleep, lock it again.\<close>

definition cond_sleep :: "nat \<Rightarrow> envr \<Rightarrow> u64 \<Rightarrow> nat \<Rightarrow> i32 \<Rightarrow> nptl \<Rightarrow> (timeinfo, nptl) out" where
  "cond_sleep n E mi thd pshared s =
     (let futex_val = c_futex (cnd s);
          s = lll_unlock (cond_cell E) False pshared s;
          s = inc_cond_wait_count mi thd s;
          wait_start = start_timestamp E s;
          s = lll_futex_wait (cond_cell E) futex_val pshared s
      in bnd (lll_lock n (cond_cell E) False pshared s) (\<lambda>_ s. Ret wait_start s))"

text \<open>The loop: \<open>True\<close> when it is left for a broadcast. The first argument bounds the rounds.\<close>

fun wait_loop ::
  "nat \<Rightarrow> nat \<Rightarrow> envr \<Rightarrow> u64 \<Rightarrow> nat \<Rightarrow> i32 \<Rightarrow> u64 \<Rightarrow> u32 \<Rightarrow> nptl \<Rightarrow> (bool \<times> timeinfo, nptl) out" where
  "wait_loop 0 n E mi thd pshared seq bc s = Stuck"
| "wait_loop (Suc k) n E mi thd pshared seq bc s =
     bnd (cond_sleep n E mi thd pshared s) (\<lambda>wait_start s.
       if bc \<noteq> c_broadcast_seq (cnd s) then Ret (True, wait_start) s
       else let val = c_wakeup_seq (cnd s) in
         if val = seq \<or> c_woken_seq (cnd s) = val then wait_loop k n E mi thd pshared seq bc s
         else Ret (False, wait_start) s)"

text \<open>Lines 224 to 242.\<close>

definition cond_leave :: "envr \<Rightarrow> wait_frame \<Rightarrow> i32 \<Rightarrow> bool \<Rightarrow> nptl \<Rightarrow> (unit, nptl) out" where
  "cond_leave E w pshared bc_out s =
     (let s = (if bc_out then s else upd_cnd (\<lambda>v. v\<lparr>c_woken_seq := c_woken_seq v + 1\<rparr>) s);
          s = upd_cnd drop_waiter s;
          s = (if last_waiter (cnd s) then lll_futex_wake (cond_cell E) 1 pshared s else s);
          s = lll_unlock (cond_cell E) False pshared s
      in cleanup_pop (\<lambda>_ _ s. Ret () s) (w_buffer w) False s)"

definition pthread_cond_wait :: "nat \<Rightarrow> nat \<Rightarrow> envr \<Rightarrow> caller \<Rightarrow> wait_frame \<Rightarrow> u64 \<Rightarrow> nptl \<Rightarrow> (i32, nptl) out" where
  "pthread_cond_wait k n E c w p s =
     (let pshared = cond_pshared (cnd s) in
      bnd (get_mutex p s) (\<lambda>i s.
        bnd (cond_enter n E w i pshared s) (\<lambda>x s.
          case x of
            Inl err \<Rightarrow> Ret err s
          | Inr (cb, seq) \<Rightarrow>
              bnd (wait_loop k n E (entry_index (pool s i)) (thread_index c) pshared seq (cb_bc_seq cb) s) (\<lambda>(bc_out, wait_start) s.
                bnd (cond_leave E w pshared bc_out s) (\<lambda>_ s.
                  bnd (pthread_mutex_cond_lock n E c p s) (\<lambda>ret s.
                    Ret ret (add_cond_wait_time E (entry_index (pool s i)) (thread_index c) wait_start s)))))))"


section \<open>What the accesses of the condition variable keep\<close>

text \<open>A property that the other threads, writes of the condition variable's lock and recorded system
  calls keep.\<close>

definition cond_stable :: "envr \<Rightarrow> (nptl \<Rightarrow> bool) \<Rightarrow> bool" where
  "cond_stable E P \<longleftrightarrow> (\<forall>s. P s \<longrightarrow> P (c_tick (cond_cell E) s)) \<and>
     (\<forall>s v. P s \<longrightarrow> P (c_wr (cond_cell E) v s)) \<and> (\<forall>s f. P s \<longrightarrow> P (c_sys (cond_cell E) f s))"

lemma cond_stableD:
  assumes "cond_stable E P" and "P s"
  shows "P (c_tick (cond_cell E) s)" "P (c_wr (cond_cell E) v s)" "P (c_sys (cond_cell E) f s)"
  using assms unfolding cond_stable_def by blast+

lemma cond_lock_keeps:
  assumes "lll_lock n (cond_cell E) const pv s = Ret u t" and "cond_stable E P" and "P s"
  shows "P t \<and> c_lock (cnd t) \<noteq> 0"
proof -
  from cc.lock_post [OF assms(1)] obtain q v where t: "t = c_wr (cond_cell E) v (c_tick (cond_cell E) q)"
    and v: "v = 1 \<or> v = 2" and m: "moved (cond_cell E) s q" by blast
  from m assms(3) have "P q"
    by (rule moved_keeps) (blast intro: cond_stableD [OF assms(2)])+
  with t have "P t" by (blast intro: cond_stableD [OF assms(2)])
  moreover have "c_lock (cnd t) \<noteq> 0" using v t by auto
  ultimately show ?thesis ..
qed

lemma cond_unlock_keeps:
  assumes "cond_stable E P" and "P s"
  shows "P (lll_unlock (cond_cell E) const pv s)"
  unfolding lll_unlock_def decl_def Let_def lll_unlock_wake_def storel_def prod.case
  using assms(2) by (auto intro!: cond_stableD [OF assms(1)] simp del: cell_sels)

lemma futex_call_keeps:
  assumes "cond_stable E P" and "P s"
  shows "P (lll_futex_wait (cond_cell E) v pv s)" "P (lll_futex_wake (cond_cell E) v pv s)"
  unfolding lll_futex_wait_def lll_futex_wake_def by (blast intro: cond_stableD [OF assms(1)] assms(2))+

lemma cond_sleep_keeps:
  assumes "cond_sleep n E mi thd pv s = Ret ws t" and "cond_stable E P" and "P s"
    and "\<And>s. P s \<Longrightarrow> P (inc_cond_wait_count mi thd s)"
  shows "P t \<and> c_lock (cnd t) \<noteq> 0"
proof -
  let ?u = "inc_cond_wait_count mi thd (lll_unlock (cond_cell E) False pv s)"
  have "P ?u" by (rule assms(4), rule cond_unlock_keeps [OF assms(2,3)])
  then have "P (lll_futex_wait (cond_cell E) (c_futex (cnd s)) pv ?u)" by (rule futex_call_keeps [OF assms(2)])
  with assms(1) cond_lock_keeps [OF _ assms(2)] show ?thesis
    by (auto simp: cond_sleep_def Let_def bnd_eq_Ret)
qed

lemma wait_loop_keeps:
  assumes "cond_stable E P" and "\<And>s. P s \<Longrightarrow> P (inc_cond_wait_count mi thd s)"
  shows "wait_loop k n E mi thd pv seq bc s = Ret r t \<Longrightarrow> P s \<Longrightarrow> P t \<and> c_lock (cnd t) \<noteq> 0"
proof (induction k arbitrary: s)
  case 0
  then show ?case by simp
next
  case (Suc k)
  from Suc.prems(1) obtain ws s1 where w: "cond_sleep n E mi thd pv s = Ret ws s1"
    and r: "s1 = t \<or> wait_loop k n E mi thd pv seq bc s1 = Ret r t"
    by (auto simp: out_ret Let_def split: if_splits)
  from cond_sleep_keeps [OF w assms(1) Suc.prems(2) assms(2)] r Suc.IH show ?case by blast
qed

text \<open>Why the loop was left.\<close>

definition eligible :: "bool \<Rightarrow> u64 \<Rightarrow> u32 \<Rightarrow> condvar \<Rightarrow> bool" where
  "eligible bc_out seq bc c \<longleftrightarrow>
     (if bc_out then bc \<noteq> c_broadcast_seq c
      else bc = c_broadcast_seq c \<and> c_wakeup_seq c \<noteq> seq \<and> c_woken_seq c \<noteq> c_wakeup_seq c)"

lemma wait_loop_eligible:
  "wait_loop k n E mi thd pv seq bc s = Ret (b, ws) t \<Longrightarrow> eligible b seq bc (cnd t)"
proof (induction k arbitrary: s)
  case 0
  then show ?case by simp
next
  case (Suc k)
  then show ?case by (auto simp: eligible_def out_ret Let_def split: if_splits)
qed

text \<open>The mutex, its registration and who this thread is.\<close>

definition my_mutex :: "nat \<Rightarrow> u64 \<Rightarrow> i32 \<Rightarrow> nptl \<Rightarrow> bool" where
  "my_mutex i p me s \<longleftrightarrow> steady i PTHREAD_MUTEX_TIMED_NP s \<and> nominal s p = Some i \<and> p_tid (slf s) = me"

lemma my_mutex_frame [simp]:
  "my_mutex i p me (upd_cnd f s) = my_mutex i p me s" "my_mutex i p me (s\<lparr>calls := l\<rparr>) = my_mutex i p me s"
  "my_mutex i p me (inc_cond_wait_count mi thd s) = my_mutex i p me s"
  "my_mutex i p me (add_cond_wait_time E mi thd ws s) = my_mutex i p me s"
  "my_mutex i p me (s\<lparr>totalCondWaits := w\<rparr>) = my_mutex i p me s"
  by (simp_all add: my_mutex_def steady_def inc_cond_wait_count_def add_cond_wait_time_def upd_tsd_def)

lemma my_mutex_stable:
  assumes "fair_others E"
  shows "cond_stable E (my_mutex i p me)"
  unfolding cond_stable_def
  using steady_ticks [OF assms] fair_ticks [OF assms]
  by (auto simp: my_mutex_def simp del: ticks_frame) (simp_all add: steady_def)


lemma cond_leave_keeps:
  assumes "cond_stable E P" and "P s"
    and "\<And>s f. P s \<Longrightarrow> P (upd_cnd f s)" and "\<And>s b. P s \<Longrightarrow> P (s\<lparr>slf := (slf s)\<lparr>p_cleanup := b\<rparr>\<rparr>)"
  shows "\<exists>t. cond_leave E w pv b s = Ret () t \<and> P t"
proof -
  let ?a = "upd_cnd drop_waiter (if b then s else upd_cnd (\<lambda>v. v\<lparr>c_woken_seq := c_woken_seq v + 1\<rparr>) s)"
  let ?f = "if last_waiter (cnd ?a) then lll_futex_wake (cond_cell E) 1 pv ?a else ?a"
  have "P (if b then s else upd_cnd (\<lambda>v. v\<lparr>c_woken_seq := c_woken_seq v + 1\<rparr>) s)"
    using assms(2,3) by simp
  then have "P ?a" by (rule assms(3))
  then have "P ?f" using futex_call_keeps(2) [OF assms(1)] by simp
  then have "P (lll_unlock (cond_cell E) False pv ?f)" by (rule cond_unlock_keeps [OF assms(1)])
  from assms(4) [OF this] show ?thesis
    by (simp add: cond_leave_def cleanup_pop_def Let_def)
qed

lemma my_mutex_cleanup [simp]:
  "my_mutex i p me (s\<lparr>slf := (slf s)\<lparr>p_cleanup := b\<rparr>\<rparr>) = my_mutex i p me s"
  by (simp add: my_mutex_def steady_def)

text \<open>A call that returns has either not released the mutex or gone through all the phases.\<close>

lemma cond_wait_phases:
  assumes "pthread_cond_wait k n E c w p s = Ret r t" and "nominal s p = Some i"
  obtains (refused) "cond_enter n E w i (cond_pshared (cnd s)) s = Ret (Inl r) t"
    | (waited) cb seq s1 b ws s2 s3 s4 where
      "cond_enter n E w i (cond_pshared (cnd s)) s = Ret (Inr (cb, seq)) s1"
      "wait_loop k n E (entry_index (pool s1 i)) (thread_index c) (cond_pshared (cnd s)) seq (cb_bc_seq cb) s1 =
         Ret (b, ws) s2"
      "cond_leave E w (cond_pshared (cnd s)) b s2 = Ret () s3"
      "pthread_mutex_cond_lock n E c p s3 = Ret r s4"
      "t = add_cond_wait_time E (entry_index (pool s4 i)) (thread_index c) ws s4"
proof -
  from assms obtain x q where e: "cond_enter n E w i (cond_pshared (cnd s)) s = Ret x q"
    and k: "(case x of Inl err \<Rightarrow> Ret err q
      | Inr (cb, seq) \<Rightarrow>
          bnd (wait_loop k n E (entry_index (pool q i)) (thread_index c) (cond_pshared (cnd s)) seq (cb_bc_seq cb) q) (\<lambda>(bc_out, wait_start) s'.
            bnd (cond_leave E w (cond_pshared (cnd s)) bc_out s') (\<lambda>_ s'.
              bnd (pthread_mutex_cond_lock n E c p s') (\<lambda>ret s'.
                Ret ret (add_cond_wait_time E (entry_index (pool s' i)) (thread_index c) wait_start s'))))) = Ret r t"
    by (auto simp: pthread_cond_wait_def get_mutex_def bnd_eq_Ret [where f = "\<lambda>x s. case x of Inl err \<Rightarrow> _ err s | Inr b \<Rightarrow> _ b s"] Let_def)
  show thesis
  proof (cases x)
    case (Inl err)
    with e k refused show ?thesis by simp
  next
    case (Inr b)
    then obtain cb seq where "x = Inr (cb, seq)" by (cases b) simp
    with e k waited show ?thesis by (auto simp: bnd_eq_Ret)
  qed
qed

text \<open>
  C8 (a condition wait returns only when it may, and with the mutex). Let the mutex be a normal one
  and let the other threads not change its kind or leave it free with an owner. If
  \<open>pthread_cond_wait\<close> has released the mutex and later returns, then it returns 0 with the mutex
  taken again by the caller; and when it left the loop it held the condition variable's lock and
  saw either another broadcast number than at the start, or a wakeup count that has moved and is
  not used up by the threads woken before. The kernel may end the sleep at any time for any reason.
\<close>

theorem cond_wait_eligible:
  assumes "fair_others E" and "nominal s p = Some i"
    and "cond_enter n E w i (cond_pshared (cnd s)) s = Ret (Inr (cb, seq)) s1"
    and "my_mutex i p me s1" and "pthread_cond_wait k n E c w p s = Ret r t"
  shows "r = 0 \<and> (\<exists>m0. acquired True me m0 (mtx t i)) \<and>
    (\<exists>b ws q. wait_loop k n E (entry_index (pool s1 i)) (thread_index c) (cond_pshared (cnd s)) seq (cb_bc_seq cb) s1 =
        Ret (b, ws) q \<and> c_lock (cnd q) \<noteq> 0 \<and> eligible b seq (cb_bc_seq cb) (cnd q))"
  using assms(5,2)
proof (cases rule: cond_wait_phases)
  case refused
  with assms(3) show ?thesis by simp
next
  case (waited cb' seq' s1' b ws s2 s3 s4)
  with assms(3) have eq: "cb' = cb" "seq' = seq" "s1' = s1" by simp_all
  note loop = waited(2) [unfolded eq]
  have inc: "my_mutex i p me (inc_cond_wait_count mi thd u)" if "my_mutex i p me u" for mi thd u
    using that by simp
  have s2: "my_mutex i p me s2" "c_lock (cnd s2) \<noteq> 0"
    using wait_loop_keeps [OF my_mutex_stable [OF assms(1)] inc loop assms(4)] by simp_all
  have s3: "my_mutex i p me s3"
    using cond_leave_keeps [of E "my_mutex i p me" s2 w "cond_pshared (cnd s)" b]
      my_mutex_stable [OF assms(1)] s2(1) waited(3) by simp
  let ?s = "s3\<lparr>totalCondWaits := totalCondWaits s3 + 1\<rparr>"
  have l: "lock_real n E True i (entry_index (pool s3 i)) (thread_index c) ?s = Ret r s4"
    using waited(4) s3 by (simp add: pthread_mutex_cond_lock_def get_mutex_def my_mutex_def)
  have "r = 0 \<and> (\<exists>m0. acquired True (p_tid (slf ?s)) m0 (mtx s4 i) \<and> m_kind m0 = m_kind (mtx ?s i))"
    by (rule lock_real_acquires(2) [OF assms(1) _ _ l])
      (use s3 in \<open>simp_all add: my_mutex_def steady_def may_lock_def basic_kinds_def mutex_kinds\<close>)
  then have "r = 0" "\<exists>m0. acquired True me m0 (mtx t i)"
    using s3 waited(5) by (auto simp: my_mutex_def add_cond_wait_time_def upd_tsd_def)
  with loop s2(2) wait_loop_eligible [OF loop] show ?thesis by blast
qed

text \<open>A run in which another thread broadcasts before each access.\<close>

definition demo_bc :: envr where
  "demo_bc = calm\<lparr>e_cond := (\<lambda>c v. v\<lparr>c_broadcast_seq := c_broadcast_seq v + 1\<rparr>)\<rparr>"

definition demo_frame :: wait_frame where
  "demo_frame = \<lparr>w_buffer = 512, w_cbuffer = 544, w_handler = 9\<rparr>"

definition demo_holder :: nptl where
  "demo_holder = upd_mtx 0 (\<lambda>m. m\<lparr>m_lock := 1, m_owner := 7, m_nusers := 1\<rparr>) (fresh\<lparr>nominal := [8 \<mapsto> 0]\<rparr>)"

lemma demo_bc_ticks [simp]:
  "ticks demo_bc s = s\<lparr>cnd := (cnd s)\<lparr>c_broadcast_seq := c_broadcast_seq (cnd s) + 1\<rparr>, clk := Suc (clk s)\<rparr>"
  by (simp add: ticks_def demo_bc_def calm_def)

lemma demo_bc_fair: "fair_others demo_bc"
  by (simp add: fair_others_def demo_bc_def calm_def)

lemma upd_mtx_swap [simp]:
  "upd_mtx i f (s\<lparr>cnd := c\<rparr>) = (upd_mtx i f s)\<lparr>cnd := c\<rparr>" "upd_mtx i f (s\<lparr>clk := k\<rparr>) = (upd_mtx i f s)\<lparr>clk := k\<rparr>"
  "upd_mtx i f (s\<lparr>slf := p\<rparr>) = (upd_mtx i f s)\<lparr>slf := p\<rparr>" "upd_mtx i f (s\<lparr>bufs := b\<rparr>) = (upd_mtx i f s)\<lparr>bufs := b\<rparr>"
  "upd_mtx i f (s\<lparr>tsd := x\<rparr>) = (upd_mtx i f s)\<lparr>tsd := x\<rparr>" "upd_mtx i f (s\<lparr>calls := l\<rparr>) = (upd_mtx i f s)\<lparr>calls := l\<rparr>"
  by (simp_all add: upd_mtx_def upd_entry_def)

lemma demo_enter:
  "\<exists>cb seq s1. cond_enter 1 demo_bc demo_frame 0 0 demo_holder = Ret (Inr (cb, seq)) s1 \<and> my_mutex 0 8 7 s1 \<and>
     c_lock (cnd s1) = 1 \<and> c_broadcast_seq (cnd s1) = cb_bc_seq cb \<and> mtx s1 0 = zero_mutex\<lparr>m_nusers := 1\<rparr>"
  by (simp add: cond_enter_def demo_holder_def lll_lock_def cc.cmpxchg_cases fresh_def
      unlock_basic_cases basic_kinds_def mutex_kinds unlock_normal_def lll_unlock_def decl_def Let_def
      cond_register_def cleanup_push_def my_mutex_def steady_def free_unowned_def fresh_thread_def zero_mutex_def)

lemma demo_rest:
  assumes "c_lock (cnd s1) = 1" and "my_mutex 0 8 7 s1" and "mtx s1 0 = zero_mutex\<lparr>m_nusers := 1\<rparr>"
    and "bc = c_broadcast_seq (cnd s1)"
  shows "\<exists>b ws s2 s3 r s4. wait_loop 1 1 demo_bc mi 1 0 seq bc s1 = Ret (b, ws) s2 \<and>
    cond_leave demo_bc demo_frame 0 b s2 = Ret () s3 \<and>
    pthread_mutex_cond_lock 1 demo_bc demo_caller 8 s3 = Ret r s4"
proof -
  let ?P = "\<lambda>s. my_mutex 0 8 7 s \<and> mtx s 0 = zero_mutex\<lparr>m_nusers := 1\<rparr>"
  have st: "cond_stable demo_bc ?P"
    using my_mutex_stable [OF demo_bc_fair, of 0 8 7] by (simp add: cond_stable_def)
  have inc: "?P (inc_cond_wait_count mi 1 s)" if "?P s" for s
    using that by (auto simp: my_mutex_def steady_def inc_cond_wait_count_def upd_tsd_def)
  obtain ws s2 where w: "wait_loop 1 1 demo_bc mi 1 0 seq bc s1 = Ret (True, ws) s2"
    using assms(1,4)
    by (simp add: cond_sleep_def lll_unlock_def decl_def Let_def lll_lock_def cc.cmpxchg_cases
        inc_cond_wait_count_def upd_tsd_def lll_futex_wait_def)
  have "?P s2" using wait_loop_keeps [OF st inc w] assms(2,3) by blast
  then obtain s3 where s3: "cond_leave demo_bc demo_frame 0 True s2 = Ret () s3" "?P s3"
    using cond_leave_keeps [OF st, of s2 demo_frame 0 True] by auto
  have "\<exists>r s4. pthread_mutex_cond_lock 1 demo_bc demo_caller 8 s3 = Ret r s4"
    using s3(2)
    by (simp add: pthread_mutex_cond_lock_def get_mutex_def my_mutex_def lock_real_def lock_switch_def mutex_kinds
        lock_simple_def simple_enter_def simple_leave_def LLL_MUTEX_LOCK_def lll_cond_lock_def mc.cmpxchg_cases Let_def)
  with w s3(1) show ?thesis by blast
qed

theorem cond_wait_eligible_witness:
  "\<exists>r t m0. pthread_cond_wait 1 1 demo_bc demo_caller demo_frame 8 demo_holder = Ret r t \<and>
     r = 0 \<and> acquired True 7 m0 (mtx t 0)"
proof -
  obtain cb seq s1 where e: "cond_enter 1 demo_bc demo_frame 0 0 demo_holder = Ret (Inr (cb, seq)) s1"
    and s1: "my_mutex 0 8 7 s1" "c_lock (cnd s1) = 1" "c_broadcast_seq (cnd s1) = cb_bc_seq cb"
      "mtx s1 0 = zero_mutex\<lparr>m_nusers := 1\<rparr>" using demo_enter by blast
  have ps: "cond_pshared (cnd demo_holder) = 0" and nom: "nominal demo_holder 8 = Some 0"
    by (simp_all add: demo_holder_def cond_pshared_def futex_codes fresh_def)
  obtain b ws s2 s3 r s4 where
    "wait_loop 1 1 demo_bc (entry_index (pool s1 0)) 1 0 seq (cb_bc_seq cb) s1 = Ret (b, ws) s2"
    "cond_leave demo_bc demo_frame 0 b s2 = Ret () s3" "pthread_mutex_cond_lock 1 demo_bc demo_caller 8 s3 = Ret r s4"
    using demo_rest [OF s1(2,1,4) s1(3) [symmetric]] by blast
  then have "pthread_cond_wait 1 1 demo_bc demo_caller demo_frame 8 demo_holder =
      Ret r (add_cond_wait_time demo_bc (entry_index (pool s4 0)) 1 ws s4)" (is "_ = Ret r ?t")
    using e nom ps by (simp add: pthread_cond_wait_def get_mutex_def demo_caller_def Let_def del: wait_loop.simps)
  moreover from cond_wait_eligible [OF demo_bc_fair nom _ s1(1) this] e ps
  have "r = 0 \<and> (\<exists>m0. acquired True 7 m0 (mtx ?t 0))" by simp
  ultimately show ?thesis by blast
qed

section \<open>No spurious return\<close>

definition unsignalled :: "envr \<Rightarrow> bool" where
  "unsignalled E \<longleftrightarrow> (\<forall>c v. c_wakeup_seq (e_cond E c v) = c_wakeup_seq v \<and>
     c_broadcast_seq (e_cond E c v) = c_broadcast_seq v)"

lemma unsignalled_stable:
  "unsignalled E \<Longrightarrow> cond_stable E (\<lambda>s. c_wakeup_seq (cnd s) = seq \<and> c_broadcast_seq (cnd s) = bc)"
  by (simp add: cond_stable_def unsignalled_def)

lemma cond_register_eq:
  "cond_register E w i s = ((cb, seq), t) \<Longrightarrow> c_wakeup_seq (cnd t) = seq \<and> c_broadcast_seq (cnd t) = cb_bc_seq cb"
  by (auto simp: cond_register_def Let_def cleanup_push_def)

text \<open>
  No spurious return. If the other threads neither signal nor broadcast, that is, leave the
  wakeup count and the broadcast number alone, whatever else they do and however often the kernel
  ends the sleep, then \<open>pthread_cond_wait\<close> does not return, except with the error of the release
  of the mutex when that was refused.
\<close>

lemma cond_wait_no_spurious:
  assumes "unsignalled E" and "nominal s p = Some i" and "pthread_cond_wait k n E c w p s = Ret r t"
  shows "r \<noteq> 0 \<and> cond_enter n E w i (cond_pshared (cnd s)) s = Ret (Inl r) t"
  using assms(3,2)
proof (cases rule: cond_wait_phases)
  case refused
  then show ?thesis by (auto simp: cond_enter_def bnd_eq_Ret split: if_splits prod.splits)
next
  case (waited cb seq s1 b ws s2 s3 s4)
  let ?P = "\<lambda>s. c_wakeup_seq (cnd s) = seq \<and> c_broadcast_seq (cnd s) = cb_bc_seq cb"
  from waited(1) have "?P s1"
    by (auto simp: cond_enter_def bnd_eq_Ret split: if_splits prod.splits dest: cond_register_eq)
  moreover have "?P (inc_cond_wait_count mi thd u)" if "?P u" for mi thd u
    using that by (simp add: inc_cond_wait_count_def upd_tsd_def)
  ultimately have "?P s2"
    using wait_loop_keeps [OF unsignalled_stable [OF assms(1)] _ waited(2)] by blast
  with wait_loop_eligible [OF waited(2)] show ?thesis by (auto simp: eligible_def split: if_splits)
qed


section \<open>Accounting of the waits\<close>

lemma tsd_stable: "cond_stable E (\<lambda>s. tsd s = x)"
  by (simp add: cond_stable_def)

abbreviation add_waits :: "nat \<Rightarrow> nat \<Rightarrow> (nat \<Rightarrow> thread_mutex_t) \<Rightarrow> nat \<Rightarrow> thread_mutex_t" where
  "add_waits a j x \<equiv> x(a := (x a)\<lparr>cond_waits := cond_waits (x a) + word_of_nat j\<rparr>)"

lemma cond_sleep_counts:
  assumes "cond_sleep n E mi thd pv s = Ret ws t"
  shows "tsd t = add_waits (get_thread_mutex_data mi thd) 1 (tsd s)"
proof -
  let ?u = "lll_unlock (cond_cell E) False pv s"
  have "tsd ?u = tsd s" by (rule cond_unlock_keeps [OF tsd_stable]) simp
  then have "tsd (lll_futex_wait (cond_cell E) (c_futex (cnd s)) pv (inc_cond_wait_count mi thd ?u)) =
      add_waits (get_thread_mutex_data mi thd) 1 (tsd s)"
    by (simp add: lll_futex_wait_def inc_cond_wait_count_def upd_tsd_def)
  with assms cond_lock_keeps [OF _ tsd_stable] show ?thesis
    by (auto simp: cond_sleep_def Let_def bnd_eq_Ret)
qed

lemma wait_loop_counts:
  "wait_loop k n E mi thd pv seq bc s = Ret r t \<Longrightarrow>
     \<exists>j. 0 < j \<and> j \<le> k \<and> tsd t = add_waits (get_thread_mutex_data mi thd) j (tsd s)"
proof (induction k arbitrary: s)
  case 0
  then show ?case by simp
next
  case (Suc k)
  from Suc.prems obtain ws s1 where w: "cond_sleep n E mi thd pv s = Ret ws s1"
    and r: "s1 = t \<or> wait_loop k n E mi thd pv seq bc s1 = Ret r t"
    by (auto simp: out_ret Let_def split: if_splits)
  from r show ?case
  proof
    assume "s1 = t"
    with cond_sleep_counts [OF w] show ?thesis by (intro exI [of _ 1]) simp
  next
    assume "wait_loop k n E mi thd pv seq bc s1 = Ret r t"
    from Suc.IH [OF this] obtain j where
      j: "0 < j" "j \<le> k" "tsd t = add_waits (get_thread_mutex_data mi thd) j (tsd s1)" by blast
    show ?thesis
      by (rule exI [of _ "Suc j"]) (use j cond_sleep_counts [OF w] in \<open>simp add: add.assoc\<close>)
  qed
qed

lemma lock_real_no_incr:
  "lock_real n E True i mi thd s = bnd (lock_switch n E True i mi thd (p_tid (slf s)) s)
     (\<lambda>f q. case f of Return r \<Rightarrow> Ret r q | Break \<Rightarrow> Ret 0 (set_owner i (p_tid (slf s)) q))"
  unfolding lock_real_def Let_def if_True by (rule refl)

lemma cond_lock_tsd:
  assumes "pthread_mutex_cond_lock n E c p s = Ret r t" and "my_mutex i p me s" and "fair_others E"
  shows "tsd t = tsd s \<and> entry_index (pool t i) = entry_index (pool s i)"
proof -
  let ?s = "s\<lparr>totalCondWaits := totalCondWaits s + 1\<rparr>"
  have steady: "steady i PTHREAD_MUTEX_TIMED_NP ?s" using assms(2) by (simp add: my_mutex_def steady_def)
  have e: "pthread_mutex_cond_lock n E c p s =
      bnd (lock_simple n E True i (entry_index (pool s i)) (thread_index c) ?s)
        (\<lambda>f q. case f of Return r \<Rightarrow> Ret r q | Break \<Rightarrow> Ret 0 (set_owner i (p_tid (slf ?s)) q))"
    using assms(2)
    by (simp add: pthread_mutex_cond_lock_def get_mutex_def my_mutex_def lock_real_no_incr lock_switch_def
        steady_def mutex_kinds Let_def)
  from assms(1) [unfolded e bnd_eq_Ret] obtain f s1 where
    sw: "lock_simple n E True i (entry_index (pool s i)) (thread_index c) ?s = Ret f s1"
    and k: "(case f of Return r \<Rightarrow> Ret r s1 | Break \<Rightarrow> Ret 0 (set_owner i (p_tid (slf ?s)) s1)) = Ret r t"
    by blast
  have "f = Break" using lock_simple_found [OF sw assms(3) steady] by simp
  with k have t: "tsd t = tsd s1" "entry_index (pool t i) = entry_index (pool s1 i)" by auto
  from sw obtain u where l: "LLL_MUTEX_LOCK n E True i ?s = Ret u s1"
    by (auto simp: lock_simple_def simple_enter_def simple_leave_def out_ret)
  from MUTEX_LOCK_post [OF l] obtain q v where q: "s1 = set_lock i v (ticks E q)" "moved (mutex_cell E i) ?s q" by blast
  then show ?thesis
    using moved_same [OF q(2), of tsd] moved_same [OF q(2), of "\<lambda>s. entry_index (pool s i)"] t by simp
qed

lemma entry_stable: "cond_stable E (\<lambda>s. entry_index (pool s i) = x)"
  by (simp add: cond_stable_def)

text \<open>
  What a wait is charged. A wait that returns after having released the mutex has counted one
  wait of this thread on this mutex for each time it slept, at least one, and has added to the wait
  time the milliseconds from one time stamp, that of its last sleep, to the return of the mutex;
  no other counter and no other slot has changed.
\<close>

lemma cond_wait_accounts:
  assumes "fair_others E" and "nominal s p = Some i"
    and "cond_enter n E w i (cond_pshared (cnd s)) s = Ret (Inr (cb, seq)) s1"
    and "my_mutex i p me s1" and "pthread_cond_wait k n E c w p s = Ret r t"
  shows "\<exists>j ws now. 0 < j \<and> j \<le> k \<and>
    (let a = get_thread_mutex_data (entry_index (pool s1 i)) (thread_index c); d = tsd s1 a in
     tsd t = (tsd s1)(a := d\<lparr>cond_waits := cond_waits d + word_of_nat j,
       cond_futex_wait := cond_futex_wait d + get_elapsed2ms ws now\<rparr>))"
  using assms(5,2)
proof (cases rule: cond_wait_phases)
  case refused
  with assms(3) show ?thesis by simp
next
  case (waited cb' seq' s1' b ws s2 s3 s4)
  with assms(3) have eq: "cb' = cb" "seq' = seq" "s1' = s1" by simp_all
  let ?mi = "entry_index (pool s1 i)" and ?thd = "thread_index c"
  let ?a = "get_thread_mutex_data ?mi ?thd"
  note loop = waited(2) [unfolded eq]
  from wait_loop_counts [OF loop] obtain j where j: "0 < j" "j \<le> k" "tsd s2 = add_waits ?a j (tsd s1)" by blast
  have inc: "my_mutex i p me (inc_cond_wait_count mi thd u)" if "my_mutex i p me u" for mi thd u
    using that by simp
  have "my_mutex i p me s2"
    using wait_loop_keeps [OF my_mutex_stable [OF assms(1)] inc loop assms(4)] by simp
  then have "my_mutex i p me s3"
    using cond_leave_keeps [of E "my_mutex i p me" s2 w "cond_pshared (cnd s)" b]
      my_mutex_stable [OF assms(1)] waited(3) by simp
  from cond_lock_tsd [OF waited(4) this assms(1)]
  have e4: "tsd s4 = tsd s3" "entry_index (pool s4 i) = entry_index (pool s3 i)" by simp_all
  have "tsd s3 = tsd s2"
    using cond_leave_keeps [of E "\<lambda>u. tsd u = tsd s2" s2 w "cond_pshared (cnd s)" b] tsd_stable waited(3) by simp
  with e4 have s4: "tsd s4 = add_waits ?a j (tsd s1)" using j(3) by simp
  have "entry_index (pool s3 i) = entry_index (pool s2 i)"
    using cond_leave_keeps [of E "\<lambda>u. entry_index (pool u i) = entry_index (pool s2 i)" s2 w "cond_pshared (cnd s)" b]
      entry_stable waited(3)
    by simp
  moreover have "entry_index (pool s2 i) = ?mi"
    using wait_loop_keeps [where P = "\<lambda>u. entry_index (pool u i) = ?mi", OF entry_stable _ loop]
    by (simp add: inc_cond_wait_count_def upd_tsd_def)
  ultimately have mi: "entry_index (pool s4 i) = ?mi" using e4(2) by simp
  have "tsd t = (tsd s1)(?a := (tsd s1 ?a)\<lparr>cond_waits := cond_waits (tsd s1 ?a) + word_of_nat j,
       cond_futex_wait := cond_futex_wait (tsd s1 ?a) + get_elapsed2ms ws (e_tsc E (clk s4))\<rparr>)"
    by (simp add: waited(5) mi add_cond_wait_time_def upd_tsd_def s4)
  with j(1,2) show ?thesis by (auto simp: Let_def)
qed


section \<open>The sequence counters\<close>

text \<open>\<open>k\<close> threads wait that were registered since the last broadcast and have neither been let go nor
  cancelled, and \<open>b\<close> that a broadcast has let go and that have not yet left: there are at least \<open>k\<close> between the woken
  and all, and the waiters are counted in the bits of \<open>__nwaiters\<close> above the lowest.\<close>

definition counts_ok :: "nat \<Rightarrow> nat \<Rightarrow> condvar \<Rightarrow> bool" where
  "counts_ok k b c \<longleftrightarrow> c_woken_seq c \<le> c_wakeup_seq c \<and> c_wakeup_seq c \<le> c_total_seq c \<and>
     unat (c_woken_seq c) + k \<le> unat (c_total_seq c) \<and> unat (c_nwaiters c) div 2 = k + b"

text \<open>The others leave the counters alone; they may take and release the lock.\<close>

definition counters :: "condvar \<Rightarrow> u64 \<times> u64 \<times> u64 \<times> u32" where
  "counters c = (c_total_seq c, c_wakeup_seq c, c_woken_seq c, c_nwaiters c)"

definition others_wait :: "envr \<Rightarrow> bool" where
  "others_wait E \<longleftrightarrow> (\<forall>k c. counters (e_cond E k c) = counters c)"

lemma counts_ok_cong: "counters c = counters d \<Longrightarrow> counts_ok k b c = counts_ok k b d"
  by (simp add: counts_ok_def counters_def)

lemma counters_stable: "others_wait E \<Longrightarrow> cond_stable E (\<lambda>s. counters (cnd s) = x)"
  by (simp add: cond_stable_def others_wait_def) (simp add: counters_def)

lemma unat_inc: "x < y \<Longrightarrow> unat (x + 1) = unat x + 1" for x y :: "'a :: len word"
  using unat_plus_if' [of x 1] unsigned_less [of y, where ?'a = nat] by (simp add: word_less_nat_alt)

lemma drop_waiter_counts:
  assumes "unat (c_nwaiters c) div 2 = Suc m"
  shows "unat (c_nwaiters (drop_waiter c)) div 2 = m"
proof -
  have "(2 :: u32) \<le> c_nwaiters c" using assms by (simp add: word_le_nat_alt)
  then have "unat (c_nwaiters c - 2) = unat (c_nwaiters c) - 2" by (simp add: unat_sub)
  with assms show ?thesis by (simp add: drop_waiter_def COND_NWAITERS_SHIFT_def)
qed

lemma drop_waiter_frame [simp]:
  "c_total_seq (drop_waiter c) = c_total_seq c" "c_wakeup_seq (drop_waiter c) = c_wakeup_seq c"
  "c_woken_seq (drop_waiter c) = c_woken_seq c"
  by (simp_all add: drop_waiter_def)

lemma cond_leave_counts:
  assumes "others_wait E"
  shows "\<exists>t. cond_leave E w pv bc_out s = Ret () t \<and>
    counters (cnd t) = counters (drop_waiter (if bc_out then cnd s else (cnd s)\<lparr>c_woken_seq := c_woken_seq (cnd s) + 1\<rparr>))"
proof -
  define a where "a = upd_cnd drop_waiter (if bc_out then s else upd_cnd (\<lambda>v. v\<lparr>c_woken_seq := c_woken_seq v + 1\<rparr>) s)"
  define f where "f = (if last_waiter (cnd a) then lll_futex_wake (cond_cell E) 1 pv a else a)"
  note st = counters_stable [OF assms, of "counters (cnd a)"]
  have "counters (cnd f) = counters (cnd a)"
    using futex_call_keeps(2) [OF st refl] by (simp add: f_def)
  from cond_unlock_keeps [where P = "\<lambda>s. counters (cnd s) = counters (cnd a)" and s = f, OF st this]
  have u: "counters (cnd (lll_unlock (cond_cell E) False pv f)) = counters (cnd a)" .
  have "cnd a = drop_waiter (if bc_out then cnd s else (cnd s)\<lparr>c_woken_seq := c_woken_seq (cnd s) + 1\<rparr>)" by (simp add: a_def)
  moreover have "cond_leave E w pv bc_out s = cleanup_pop (\<lambda>_ _ s. Ret () s) (w_buffer w) False (lll_unlock (cond_cell E) False pv f)"
    by (simp only: cond_leave_def Let_def f_def a_def)
  ultimately show ?thesis using u by (simp add: cleanup_pop_def Let_def)
qed

lemma register_counts:
  assumes "counts_ok k b (cnd s)" and "c_total_seq (cnd s) \<noteq> - 1" and "unat (c_nwaiters (cnd s)) + 2 < 2 ^ 32"
  shows "counts_ok (Suc k) b (cnd (snd (cond_register E w i s)))"
proof -
  let ?c = "cnd s"
  note ok = assms(1) [unfolded counts_ok_def]
  have lt: "c_total_seq ?c < - 1" using assms(2) by (simp add: word_order.not_eq_extremum)
  have "c_total_seq ?c \<le> c_total_seq ?c + 1" using unat_inc [OF lt] by (simp add: word_le_nat_alt)
  with ok have "c_wakeup_seq ?c \<le> c_total_seq ?c + 1" by (blast intro: order_trans)
  moreover have "unat (c_nwaiters ?c + 2) = unat (c_nwaiters ?c) + 2"
    using assms(3) unat_plus_if' [of "c_nwaiters ?c" 2] by simp
  ultimately show ?thesis using ok unat_inc [OF lt]
    by (simp add: cond_register_def cleanup_push_def Let_def counts_ok_def COND_NWAITERS_SHIFT_def)
qed

lemma woken_counts:
  assumes "counts_ok (Suc k) b c" and "eligible False seq bc c"
  shows "counts_ok k b (drop_waiter (c\<lparr>c_woken_seq := c_woken_seq c + 1\<rparr>))"
proof -
  note ok = assms(1) [unfolded counts_ok_def]
  have lt: "c_woken_seq c < c_wakeup_seq c" using assms(2) ok by (simp add: eligible_def order_less_le)
  from unat_inc [OF lt] lt ok drop_waiter_counts [of "c\<lparr>c_woken_seq := c_woken_seq c + 1\<rparr>" "k + b"] show ?thesis
    by (simp add: counts_ok_def word_le_nat_alt word_less_nat_alt)
qed

lemma broadcast_counts: "counts_ok k (Suc b) c \<Longrightarrow> counts_ok k b (drop_waiter c)"
  using drop_waiter_counts [of c "k + b"] by (simp add: counts_ok_def)

lemma cancel_counts:
  assumes "counts_ok (Suc k) b c" and "bc = c_broadcast_seq c"
  shows "counts_ok k b (cleanup_counts bc c)"
proof -
  note ok = assms(1) [unfolded counts_ok_def]
  have n: "c_nwaiters (cleanup_adjust bc c) = c_nwaiters c" by (simp add: cleanup_adjust_def Let_def)
  then have "unat (c_nwaiters (cleanup_counts bc c)) div 2 = k + b"
    unfolding cleanup_counts_def using ok by (intro drop_waiter_counts) simp
  moreover have "c_woken_seq c < c_total_seq c" using ok by (simp add: word_less_nat_alt)
  note w = unat_inc [OF this] this
  ultimately show ?thesis
  proof (cases "c_wakeup_seq c < c_total_seq c")
    case True
    with unat_inc [OF True] w ok assms(2) \<open>unat (c_nwaiters (cleanup_counts bc c)) div 2 = k + b\<close> show ?thesis
      by (simp add: cleanup_counts_def cleanup_adjust_def Let_def counts_ok_def word_le_nat_alt word_less_nat_alt)
  next
    case False
    then have "c_wakeup_seq c = c_total_seq c" using ok by simp
    with False w ok assms(2) \<open>unat (c_nwaiters (cleanup_counts bc c)) div 2 = k + b\<close> show ?thesis
      by (simp add: cleanup_counts_def cleanup_adjust_def Let_def counts_ok_def word_le_nat_alt word_less_nat_alt)
  qed
qed

text \<open>
  C34 (the counters stay consistent). Let \<open>k\<close> threads wait for a signal and \<open>b\<close> more be on their way out after a
  broadcast, and let the others leave the counters alone during the step. Then the counters, \<open>woken \<le> wakeup \<le> total\<close> with
  room for the \<open>k\<close> between the first and the last, and the number of waiters \<open>k + b\<close> agree again after each step: one
  more thread registers; an eligible one leaves, with \<open>cond_leave\<close>; one that a broadcast let go leaves; and one of either sort
  is cancelled and the handler adjusts the counters.
\<close>

theorem cond_counts:
  assumes "counts_ok k b (cnd s)" and "others_wait E"
  shows "(c_total_seq (cnd s) \<noteq> - 1 \<longrightarrow> unat (c_nwaiters (cnd s)) + 2 < 2 ^ 32 \<longrightarrow>
      counts_ok (Suc k) b (cnd (snd (cond_register E w i s)))) \<and>
    (0 < k \<longrightarrow> eligible False seq bc (cnd s) \<longrightarrow> (\<exists>t. cond_leave E w pv False s = Ret () t \<and> counts_ok (k - 1) b (cnd t))) \<and>
    (0 < b \<longrightarrow> (\<exists>t. cond_leave E w pv True s = Ret () t \<and> counts_ok k (b - 1) (cnd t))) \<and>
    (0 < k \<longrightarrow> bc = c_broadcast_seq (cnd s) \<longrightarrow> counts_ok (k - 1) b (cleanup_counts bc (cnd s))) \<and>
    (0 < b \<longrightarrow> bc \<noteq> c_broadcast_seq (cnd s) \<longrightarrow> counts_ok k (b - 1) (cleanup_counts bc (cnd s)))"
proof (intro conjI impI)
  assume "c_total_seq (cnd s) \<noteq> - 1" "unat (c_nwaiters (cnd s)) + 2 < 2 ^ 32"
  then show "counts_ok (Suc k) b (cnd (snd (cond_register E w i s)))" by (rule register_counts [OF assms(1)])
next
  assume k: "0 < k" and e: "eligible False seq bc (cnd s)"
  obtain t where t: "cond_leave E w pv False s = Ret () t"
    "counters (cnd t) = counters (drop_waiter ((cnd s)\<lparr>c_woken_seq := c_woken_seq (cnd s) + 1\<rparr>))"
    using cond_leave_counts [OF assms(2), of w pv False s] by auto
  have "counts_ok (k - 1) b (cnd t)" unfolding counts_ok_cong [OF t(2)]
    by (rule woken_counts [OF _ e]) (use assms(1) k in simp)
  with t(1) show "\<exists>t. cond_leave E w pv False s = Ret () t \<and> counts_ok (k - 1) b (cnd t)" by blast
next
  assume b: "0 < b"
  obtain t where t: "cond_leave E w pv True s = Ret () t" "counters (cnd t) = counters (drop_waiter (cnd s))"
    using cond_leave_counts [OF assms(2), of w pv True s] by auto
  have "counts_ok k (b - 1) (cnd t)" unfolding counts_ok_cong [OF t(2)]
    by (rule broadcast_counts) (use assms(1) b in simp)
  with t(1) show "\<exists>t. cond_leave E w pv True s = Ret () t \<and> counts_ok k (b - 1) (cnd t)" by blast
next
  assume "0 < k" "bc = c_broadcast_seq (cnd s)"
  with cancel_counts [of "k - 1" b "cnd s" bc] assms(1) show "counts_ok (k - 1) b (cleanup_counts bc (cnd s))" by simp
next
  assume "0 < b" "bc \<noteq> c_broadcast_seq (cnd s)"
  with broadcast_counts [of k "b - 1" "cnd s"] assms(1) show "counts_ok k (b - 1) (cleanup_counts bc (cnd s))"
    by (simp add: cleanup_counts_def cleanup_adjust_def)
qed

text \<open>Three have registered and two have left; the third has been signalled and leaves.\<close>

theorem cond_counts_witness:
  "\<exists>t. cond_leave calm demo_frame 0 False (fresh\<lparr>cnd := (cnd fresh)\<lparr>c_total_seq := 3, c_wakeup_seq := 3, c_woken_seq := 2, c_nwaiters := 2\<rparr>\<rparr>) = Ret () t \<and>
     counts_ok 0 0 (cnd t)"
proof -
  let ?s = "fresh\<lparr>cnd := (cnd fresh)\<lparr>c_total_seq := 3, c_wakeup_seq := 3, c_woken_seq := 2, c_nwaiters := 2\<rparr>\<rparr>"
  have "counts_ok 1 0 (cnd ?s)" by (simp add: counts_ok_def)
  moreover have "others_wait calm" by (simp add: others_wait_def calm_def)
  moreover have "eligible False 2 0 (cnd ?s)" by (simp add: eligible_def fresh_def)
  ultimately show ?thesis using cond_counts [of 1 0 ?s calm demo_frame 0 2 0 0] by simp
qed

section \<open>The cleanup handler takes the wrong mutex\<close>

text \<open>The other threads bump no recursion count of a mutex that has none: it is not recursive.\<close>

definition keeps_count0 :: "envr \<Rightarrow> bool" where
  "keeps_count0 E \<longleftrightarrow> (\<forall>c i m. m_count m = 0 \<longrightarrow> m_count (e_mutex E c i m) = 0)"

lemma count0_stable: "keeps_count0 E \<Longrightarrow> cond_stable E (\<lambda>s. m_count (mtx s i) = 0)"
  by (simp add: cond_stable_def keeps_count0_def)

lemma get_mutex_of_real_fails:
  assumes "m_count (mtx s i) = 0" and "\<forall>j. 2 ^ 32 \<le> mutex_addr E j"
  shows "get_mutex_of_real E i s = Abort"
proof -
  have "unat (first_word (mtx s i)) < 2 ^ 32"
    using assms(1) unsigned_less [of "m_lock (mtx s i)", where ?'a = nat]
    by (simp add: first_word_def unsigned_ucast_eq le_less_trans [OF take_bit_nat_less_eq_self])
  then have "mutex_addr E j \<noteq> first_word (mtx s i)" for j
    using assms(2) [rule_format, of j] by (auto simp: word_le_nat_alt)
  then have "find (\<lambda>j. mutex_addr E j = first_word (mtx s i)) xs = None" for xs by (simp add: find_None_iff)
  then show ?thesis by (simp add: get_mutex_of_real_def)
qed

text \<open>
  C35 (the cleanup handler cannot take the mutex back). The handler passes the real mutex, not the
  program's, to \<open>__pthread_mutex_cond_lock\<close>, which looks for the entry in its first word, and
  that is the lock word and the count. So for a mutex whose count is 0, when the pool lies above
  the first 4 GB, the handler never returns to the unwinder: it ends in the assertion or follows a
  pointer to nowhere, and the cancelled thread never owns the mutex.
\<close>

theorem cleanup_never_returns:
  assumes "keeps_count0 E" and "m_count (mtx s i) = 0" and "\<forall>j. 2 ^ 32 \<le> mutex_addr E j"
  shows "\<nexists>r t. condvar_cleanup n E c \<lparr>cb_mutex = i, cb_bc_seq = bc\<rparr> s = Ret r t"
proof
  assume "\<exists>r t. condvar_cleanup n E c \<lparr>cb_mutex = i, cb_bc_seq = bc\<rparr> s = Ret r t"
  then obtain r t where run: "condvar_cleanup n E c \<lparr>cb_mutex = i, cb_bc_seq = bc\<rparr> s = Ret r t" by blast
  define pv where "pv = cond_pshared (cnd s)"
  note st = count0_stable [OF assms(1), of i]
  obtain s1 where l: "lll_lock n (cond_cell E) False pv s = Ret () s1"
    using run by (auto simp: condvar_cleanup_def bnd_eq_Ret pv_def Let_def)
  have s1: "m_count (mtx s1 i) = 0" using cond_lock_keeps [OF l st assms(2)] by simp
  define s2 where "s2 = upd_cnd (cleanup_counts bc) s1"
  define d where "d = last_waiter (cnd s2)"
  define s3 where "s3 = (if d then lll_futex_wake (cond_cell E) 1 pv s2 else s2)"
  define s4 where "s4 = lll_unlock (cond_cell E) False pv s3"
  define s5 where "s5 = (if \<not> d then lll_futex_wake (cond_cell E) 0x7fffffff pv s4 else s4)"
  have "m_count (mtx s2 i) = 0" using s1 by (simp add: s2_def)
  then have "m_count (mtx s3 i) = 0" using futex_call_keeps(2) [OF st] by (simp add: s3_def)
  then have "m_count (mtx s4 i) = 0" unfolding s4_def by (rule cond_unlock_keeps [OF st])
  then have "m_count (mtx s5 i) = 0" using futex_call_keeps(2) [OF st] by (simp add: s5_def)
  then have "get_mutex_of_real E i (s5\<lparr>totalCondWaits := totalCondWaits s5 + 1\<rparr>) = Abort"
    by (intro get_mutex_of_real_fails [OF _ assms(3)]) simp
  moreover have "condvar_cleanup n E c \<lparr>cb_mutex = i, cb_bc_seq = bc\<rparr> s =
      bnd (get_mutex_of_real E i (s5\<lparr>totalCondWaits := totalCondWaits s5 + 1\<rparr>))
        (\<lambda>j s. lock_real n E True j (entry_index (pool s j)) (thread_index c) s)"
    by (simp add: condvar_cleanup_def USE_REQUEUE_PI_def Let_def l [unfolded pv_def] s5_def s4_def s3_def d_def s2_def pv_def)
  ultimately show False using run by simp
qed

theorem cleanup_never_returns_witness:
  "\<nexists>r t. condvar_cleanup 1 (calm\<lparr>e_list_at := (\<lambda>i. 0x100000000000 + 64 * (word_of_nat i AND 0xffff))\<rparr>) demo_caller
     \<lparr>cb_mutex = 0, cb_bc_seq = 0\<rparr> fresh = Ret r t"
proof -
  let ?E = "calm\<lparr>e_list_at := (\<lambda>i. 0x100000000000 + 64 * (word_of_nat i AND 0xffff))\<rparr>"
  have "keeps_count0 ?E" by (simp add: keeps_count0_def calm_def)
  moreover have "\<forall>j. 2 ^ 32 \<le> mutex_addr ?E j"
  proof
    fix j
    let ?y = "word_of_nat j AND 0xffff :: u64"
    have "unat ?y \<le> 65535" using word_and_le1 [of "word_of_nat j" "0xffff :: u64"] by (simp add: word_le_nat_alt)
    moreover have "mutex_addr ?E j = 0xFFFFFFFFFE0 + 64 * ?y" by (simp add: mutex_addr_def)
    ultimately show "2 ^ 32 \<le> mutex_addr ?E j" by (simp add: word_le_nat_alt unat_word_ariths)
  qed
  ultimately show ?thesis using cleanup_never_returns [of ?E fresh 0 1 demo_caller 0] by simp
qed

end
