(* ===== verification/EntryRace.thy ===== *)
theory EntryRace
  imports RecordEntries
begin

unbundle bit_operations_syntax

text \<open>
  The first part of \<open>pthread_mutex_lock\<close> between threads: any number of them come to one mutex of the program
  at the same time, find or create its entry (\<open>source/mutex_lock.c\<close> lines 68 to 76, with
  \<open>create_mutex\<close>, \<open>is_my_mutex\<close>, \<open>get_mutex\<close> and \<open>setSyncEntry\<close> of \<open>source/mutex_manager.cpp\<close>) and
  record the context they come from (\<open>add_new_context\<close>), all before they have the lock. A step is
  one access to shared memory by one thread; a schedule is the list of the threads that take the
  steps. Shown: all threads leave with the same entry, the one that was published; and the
  contexts, which nothing protects, can be lost.
\<close>

section \<open>States and steps\<close>

datatype epc =
    Start                     \<comment> \<open>\<open>is_my_mutex\<close> of \<open>pthread_mutex_lock\<close>\<close>
  | Create                    \<comment> \<open>\<open>create_mutex\<close>\<close>
  | Expect nat                \<comment> \<open>\<open>setSyncEntry\<close> with this entry: reading \<open>expected\<close>\<close>
  | Recheck nat "nat option"  \<comment> \<open>its second check, \<open>expected\<close> read\<close>
  | Publish nat "nat option"  \<comment> \<open>its compare-and-swap\<close>
  | Get                       \<comment> \<open>\<open>get_mutex\<close>\<close>
  | Scan nat nat              \<comment> \<open>\<open>add_new_context\<close> of this entry: the loop, at this index\<close>
  | Room nat                  \<comment> \<open>the assertion\<close>
  | PutStack nat
  | PutEip nat
  | PutOff nat
  | IncLoad nat
  | IncStore nat nat          \<comment> \<open>\<open>stack_count++\<close>, the old value read\<close>
  | Finished nat
  | Died

record contexts =
  x_count :: nat
  x_eip :: "nat \<Rightarrow> u64"
  x_off :: "nat \<Rightarrow> u64"
  x_stack :: "nat \<Rightarrow> u64 list"

record esys =
  e_word :: "nat option"
  e_pool :: "unit record_entries"
  e_ctx :: "nat \<Rightarrow> contexts"
  e_pc :: "nat \<Rightarrow> epc"

text \<open>What a thread brings along: its return address, stack offset and backtrace.\<close>

record visitor =
  v_ret :: u64
  v_off :: u64
  v_stack :: "u64 list"

definition upd_ctx :: "nat \<Rightarrow> (contexts \<Rightarrow> contexts) \<Rightarrow> esys \<Rightarrow> esys" where
  "upd_ctx e f s = s\<lparr>e_ctx := (e_ctx s)(e := f (e_ctx s e))\<rparr>"

definition goto_pc :: "nat \<Rightarrow> epc \<Rightarrow> esys \<Rightarrow> esys" where
  "goto_pc i p s = s\<lparr>e_pc := (e_pc s)(i := p)\<rparr>"

definition estep :: "(nat \<Rightarrow> visitor) \<Rightarrow> nat \<Rightarrow> esys \<Rightarrow> esys" where
  "estep V i s = (case e_pc s i of
     Start \<Rightarrow> goto_pc i (if e_word s \<noteq> None then Get else Create) s
   | Create \<Rightarrow> (case get_next_index (e_pool s) of
        Ret idx r \<Rightarrow> goto_pc i (Expect (getEntry idx)) (upd_ctx (getEntry idx) (\<lambda>x. x\<lparr>x_count := 0\<rparr>) (s\<lparr>e_pool := r\<rparr>))
      | _ \<Rightarrow> goto_pc i Died s)
   | Expect e \<Rightarrow> goto_pc i (Recheck e (e_word s)) s
   | Recheck e expected \<Rightarrow> goto_pc i (if e_word s = None then Publish e expected else Get) s
   | Publish e expected \<Rightarrow> goto_pc i Get (if e_word s = expected then s\<lparr>e_word := Some e\<rparr> else s)
   | Get \<Rightarrow> (case e_word s of Some e \<Rightarrow> goto_pc i (Scan e 0) s | None \<Rightarrow> goto_pc i Died s)
   | Scan e k \<Rightarrow> goto_pc i (if k < x_count (e_ctx s e)
        then if x_eip (e_ctx s e) k = v_ret (V i) then Finished e else Scan e (k + 1)
        else Room e) s
   | Room e \<Rightarrow> goto_pc i (if x_count (e_ctx s e) < 100 then PutStack e else Died) s
   | PutStack e \<Rightarrow> goto_pc i (PutEip e) (upd_ctx e (\<lambda>x. x\<lparr>x_stack := (x_stack x)(x_count x := v_stack (V i))\<rparr>) s)
   | PutEip e \<Rightarrow> goto_pc i (PutOff e) (upd_ctx e (\<lambda>x. x\<lparr>x_eip := (x_eip x)(x_count x := v_ret (V i))\<rparr>) s)
   | PutOff e \<Rightarrow> goto_pc i (IncLoad e) (upd_ctx e (\<lambda>x. x\<lparr>x_off := (x_off x)(x_count x := v_off (V i))\<rparr>) s)
   | IncLoad e \<Rightarrow> goto_pc i (IncStore e (x_count (e_ctx s e))) s
   | IncStore e k \<Rightarrow> goto_pc i (Finished e) (upd_ctx e (\<lambda>x. x\<lparr>x_count := k + 1\<rparr>) s)
   | Finished e \<Rightarrow> s
   | Died \<Rightarrow> s)"

fun erun :: "(nat \<Rightarrow> visitor) \<Rightarrow> nat list \<Rightarrow> esys \<Rightarrow> esys" where
  "erun V [] s = s"
| "erun V (i # sched) s = erun V sched (estep V i s)"

definition no_ctx :: contexts where
  "no_ctx = \<lparr>x_count = 0, x_eip = (\<lambda>_. 0), x_off = (\<lambda>_. 0), x_stack = (\<lambda>_. [])\<rparr>"

text \<open>A mutex nobody has locked yet, with \<open>entries\<close> entries in the pool, \<open>used\<close> of them taken by other mutexes.\<close>

definition esys_init :: "u64 \<Rightarrow> u64 \<Rightarrow> esys" where
  "esys_init entries used = \<lparr>e_word = None, e_pool = \<lparr>re_start = (\<lambda>_. ()), re_total = entries, re_cur = used\<rparr>,
     e_ctx = (\<lambda>_. no_ctx), e_pc = (\<lambda>_. Start)\<rparr>"

section \<open>Publication\<close>

text \<open>The entry a thread works on once it has passed \<open>get_mutex\<close>.\<close>

fun using_entry :: "epc \<Rightarrow> nat option" where
  "using_entry (Scan e k) = Some e"
| "using_entry (Room e) = Some e"
| "using_entry (PutStack e) = Some e"
| "using_entry (PutEip e) = Some e"
| "using_entry (PutOff e) = Some e"
| "using_entry (IncLoad e) = Some e"
| "using_entry (IncStore e k) = Some e"
| "using_entry (Finished e) = Some e"
| "using_entry _ = None"

fun pc_ok :: "nat option \<Rightarrow> epc \<Rightarrow> bool" where
  "pc_ok w Get \<longleftrightarrow> w \<noteq> None"
| "pc_ok w (Recheck e x) \<longleftrightarrow> (x \<noteq> None \<longrightarrow> w \<noteq> None)"
| "pc_ok w (Publish e x) \<longleftrightarrow> x = None"
| "pc_ok w p \<longleftrightarrow> (\<forall>e. using_entry p = Some e \<longrightarrow> w = Some e)"

definition published_inv :: "esys \<Rightarrow> bool" where
  "published_inv s \<longleftrightarrow> (\<forall>i. pc_ok (e_word s) (e_pc s i))"

lemma step_fields [simp]:
  "e_word (goto_pc i p s) = e_word s" "e_pc (goto_pc i p s) = (e_pc s)(i := p)" "e_ctx (goto_pc i p s) = e_ctx s"
  "e_word (upd_ctx e f s) = e_word s" "e_pc (upd_ctx e f s) = e_pc s"
  "e_ctx (upd_ctx e f s) = (e_ctx s)(e := f (e_ctx s e))"
  by (simp_all add: goto_pc_def upd_ctx_def)

lemma word_stays: "published_inv s \<Longrightarrow> e_word s = Some e \<Longrightarrow> e_word (estep V i s) = Some e"
  unfolding published_inv_def
  by (drule spec [of _ i]) (auto simp: estep_def split: epc.split out.split option.split)

lemma pc_ok_using: "pc_ok w p \<Longrightarrow> using_entry p = Some e \<Longrightarrow> w = Some e"
  by (cases p) auto

lemma pc_ok_mono: "pc_ok w p \<Longrightarrow> w = None \<or> w' = w \<Longrightarrow> pc_ok w' p"
  by (cases "(w, p)" rule: pc_ok.cases) auto

lemma own_step: "pc_ok (e_word s) (e_pc s i) \<Longrightarrow> pc_ok (e_word (estep V i s)) (e_pc (estep V i s) i)"
  by (auto simp: estep_def split: epc.split out.split option.split if_splits)

lemma other_pc: "j \<noteq> i \<Longrightarrow> e_pc (estep V i s) j = e_pc s j"
  by (auto simp: estep_def split: epc.split out.split option.split)

lemma published_step: "published_inv s \<Longrightarrow> published_inv (estep V i s)"
proof -
  assume inv: "published_inv s"
  have w: "e_word s = None \<or> e_word (estep V i s) = e_word s" using word_stays [OF inv] by (cases "e_word s") auto
  show ?thesis unfolding published_inv_def
  proof
    fix j
    show "pc_ok (e_word (estep V i s)) (e_pc (estep V i s) j)"
      using inv own_step [of s i V] pc_ok_mono [OF _ w] other_pc [of j i V s]
      by (cases "j = i") (auto simp: published_inv_def)
  qed
qed

lemma published_run:
  "published_inv s \<Longrightarrow> published_inv (erun V sched s) \<and> (\<forall>e. e_word s = Some e \<longrightarrow> e_word (erun V sched s) = Some e)"
proof (induction sched arbitrary: s)
  case (Cons i sched)
  from Cons.IH [OF published_step [OF Cons.prems]] word_stays [OF Cons.prems] show ?case by auto
qed simp

lemma published_init: "published_inv (esys_init entries used)"
  by (simp add: published_inv_def esys_init_def)

lemma erun_append: "erun V (xs @ ys) s = erun V ys (erun V xs s)"
  by (induction xs arbitrary: s) simp_all

text \<open>
  C15 (one entry for all). Whatever threads come to a mutex at its first use, in whatever order their steps fall, a
  thread that has found the mutex's entry has the one in the mutex's first word, so two of them have
  the same; and it stays there, whatever the threads do afterwards.
\<close>

theorem one_entry:
  assumes "s = erun V sched (esys_init entries used)" and "using_entry (e_pc s i) = Some e"
    and "t = erun V rest s"
  shows "e_word s = Some e \<and> e_word t = Some e \<and>
    (\<forall>j e'. using_entry (e_pc t j) = Some e' \<longrightarrow> e' = e)"
proof -
  have s: "published_inv s" using published_run [OF published_init] assms(1) by blast
  have w: "e_word s = Some e"
    using s assms(2) pc_ok_using by (auto simp: published_inv_def)
  have t: "published_inv t" "e_word t = Some e" using published_run [OF s] w assms(3) by auto
  have "e' = e" if "using_entry (e_pc t j) = Some e'" for j e'
    using t that pc_ok_using [of "e_word t" "e_pc t j" e'] by (auto simp: published_inv_def)
  with w t show ?thesis by blast
qed

text \<open>For the witness: both threads find the mutex unset and create an entry each; the second publishes first.\<close>

definition demo_visitor :: "nat \<Rightarrow> visitor" where
  "demo_visitor i = \<lparr>v_ret = word_of_nat (100 + i), v_off = 16, v_stack = [word_of_nat (100 + i), 0]\<rparr>"

lemma demo_take: "get_next_index \<lparr>re_start = (\<lambda>_. ()), re_total = 1000000, re_cur = 0\<rparr> =
    Ret 0 \<lparr>re_start = (\<lambda>_. ()), re_total = 1000000, re_cur = 1\<rparr>"
  "get_next_index \<lparr>re_start = (\<lambda>_. ()), re_total = 1000000, re_cur = 1\<rparr> =
    Ret 1 \<lparr>re_start = (\<lambda>_. ()), re_total = 1000000, re_cur = 2\<rparr>"
  by (simp_all add: get_next_index_def Let_def)

theorem one_entry_witness:
  "e_word (erun demo_visitor [0, 1, 0, 1, 1, 1, 0, 0, 1, 1, 0, 0] (esys_init 1000000 0)) = Some 1 \<and>
   (let t = erun demo_visitor [0, 1] (erun demo_visitor [0, 1, 0, 1, 1, 1, 0, 0, 1, 1, 0, 0] (esys_init 1000000 0)) in
    \<forall>j e'. using_entry (e_pc t j) = Some e' \<longrightarrow> e' = 1)"
proof -
  have "using_entry (e_pc (erun demo_visitor [0, 1, 0, 1, 1, 1, 0, 0, 1, 1, 0, 0] (esys_init 1000000 0)) 1) = Some 1"
    by (simp add: esys_init_def estep_def goto_pc_def upd_ctx_def demo_take getEntry_def no_ctx_def)
  from one_entry [OF refl this refl, where rest = "[0, 1]"] show ?thesis
    unfolding Let_def by blast
qed

section \<open>Lost contexts\<close>

text \<open>
  Contexts can be lost. The comment in \<open>add_new_context\<close> says that the count is incremented
  atomically, but nothing orders the stores of two threads: if two threads come to a mutex for the first time from
  different places and both pass the assertion before either counts, then the second overwrites
  the context of the first, and the count then covers an entry that nobody wrote: two contexts are
  counted, and that of the first thread is not among them.
\<close>

lemma contexts_lost:
  assumes "used < entries" and "used < 2 ^ 31" and "v_ret (V 0) \<noteq> v_ret (V 1)" and "v_ret (V 0) \<noteq> 0"
  shows "\<exists>sched. let s = erun V sched (esys_init entries used); e = getEntry used in
    e_pc s 0 = Finished e \<and> e_pc s 1 = Finished e \<and> x_count (e_ctx s e) = 2 \<and>
    (\<forall>k<2. x_eip (e_ctx s e) k \<noteq> v_ret (V 0)) \<and> x_stack (e_ctx s e) 1 = []"
proof -
  let ?sched = "[0, 0, 0, 0, 0, 0, 0, 0, 1, 1, 1, 1, 0, 0, 0, 1, 1, 1, 0, 0, 1, 1]"
  have t: "get_next_index \<lparr>re_start = (\<lambda>_. ()), re_total = entries, re_cur = used\<rparr> =
      Ret used \<lparr>re_start = (\<lambda>_. ()), re_total = entries, re_cur = used + 1\<rparr>"
    using get_next_index_below [of "\<lparr>re_start = (\<lambda>_. ()), re_total = entries, re_cur = used\<rparr>"] assms(1,2) by simp
  show ?thesis
    by (rule exI [of _ ?sched])
      (use assms(3,4) in \<open>simp add: esys_init_def estep_def goto_pc_def upd_ctx_def t no_ctx_def Let_def less_2_cases_iff\<close>)
qed

end
