(* ===== verification/PPMutex.thy ===== *)
theory PPMutex
  imports MutexUnlock
begin

unbundle bit_operations_syntax

text \<open>
  Priority protected mutexes (\<open>mutex_lock.c\<close>, \<open>mutex_unlock.c\<close> and \<open>tpp.c\<close> together): the lock word holds the ceiling
  of the mutex, the thread's data the multiset of the ceilings it holds.
  Shown: taking and releasing such a mutex adds its ceiling and takes it away again, and a thread whose own
  priority lies above the ceiling is refused.
\<close>

section \<open>The lock word\<close>

lemma ceiling_mask: "PTHREAD_MUTEX_PRIO_CEILING_MASK = NOT (Bit_Operations.mask 19)"
  by (simp add: PTHREAD_MUTEX_PRIO_CEILING_MASK_def mask_eq_exp_minus_1 not_eq_complement)

lemma ceilval_uint: "0 \<le> c \<Longrightarrow> c < 8192 \<Longrightarrow> uint (ceilval_of c) = c * 2 ^ 19"
  by (simp add: ceilval_of_def PTHREAD_MUTEX_PRIO_CEILING_SHIFT_def push_bit_eq_mult uint_word_ariths uint_word_of_int_eq
      take_bit_int_eq_self)

lemma ceiling_ceilval: "0 \<le> c \<Longrightarrow> c < 8192 \<Longrightarrow> ceiling_of (ceilval_of c) = c"
proof -
  assume c: "0 \<le> c" "c < 8192"
  have "drop_bit 19 (v AND NOT (Bit_Operations.mask 19)) = drop_bit 19 v" for v :: i32
    by (rule bit_word_eqI) (auto simp: bit_simps dest: bit_imp_le_length)
  then show ?thesis
    using ceilval_uint [OF c] by (simp add: ceiling_of_def ceiling_mask PTHREAD_MUTEX_PRIO_CEILING_SHIFT_def drop_bit_eq_div uint_div_distrib)
qed

lemma ceilval_bits:
  "(ceilval_of c OR 1) AND PTHREAD_MUTEX_PRIO_CEILING_MASK = ceilval_of c"
  "(ceilval_of c OR 1) AND NOT PTHREAD_MUTEX_PRIO_CEILING_MASK = 1"
  "ceilval_of c \<noteq> ceilval_of c OR 1"
  by (auto intro!: bit_word_eqI dest!: arg_cong [where f = "\<lambda>v. bit v 0"]
      simp: ceilval_of_def ceiling_mask PTHREAD_MUTEX_PRIO_CEILING_SHIFT_def bit_simps)

lemma ceilval_sint: "0 \<le> c \<Longrightarrow> c < 4096 \<Longrightarrow> sint (ceilval_of c) div 2 ^ 19 = c"
proof -
  assume c: "0 \<le> c" "c < 4096"
  then have u: "uint (ceilval_of c) = c * 2 ^ 19" by (simp add: ceilval_uint)
  have "sint (ceilval_of c) = uint (ceilval_of c)"
    using c by (simp add: sint_uint u signed_take_bit_int_eq_self)
  with u show ?thesis by simp
qed

lemma pp_kinds: "k \<in> kinds_pp \<longleftrightarrow> k = 64 \<or> k = 65 \<or> k = 66 \<or> k = 67"
  by (auto simp: kinds_pp_def PTHREAD_MUTEX_PRIO_PROTECT_NP_def)

section \<open>A thread that is ready\<close>

definition pp_ready :: "envr \<Rightarrow> nat \<Rightarrow> int \<Rightarrow> int multiset \<Rightarrow> nptl \<Rightarrow> bool" where
  "pp_ready E i c M s \<longleftrightarrow> quiet E \<and> (\<forall>t p. e_setscheduler E t p = None) \<and> tpp_state s M \<and> sched_known s \<and>
     p_lock (slf s) = 0 \<and> 0 \<le> fifo_min_prio s \<and> fifo_min_prio s \<le> c \<and> c \<le> fifo_max_prio s \<and> c < 4096 \<and>
     m_kind (mtx s i) \<in> kinds_pp \<and> p_tid (slf s) \<noteq> 0"

text \<open>Two states with the same mutexes and the same thread but for its ceilings.\<close>

definition same_but_tpp :: "nptl \<Rightarrow> nptl \<Rightarrow> bool" where
  "same_but_tpp s s' \<longleftrightarrow> sync_vars s' = sync_vars s \<and> (\<exists>t. slf s' = (slf s)\<lparr>p_tpp := Some t\<rparr>) \<and>
     fifo_min_prio s' = fifo_min_prio s \<and> fifo_max_prio s' = fifo_max_prio s"

lemma ready_change:
  assumes "pp_ready E i c M s" and "prio_ok s new" and "prev = -1 \<or> prev \<in># M" and "new \<noteq> -1 \<Longrightarrow> count M new + 1 < 2 ^ 32"
  shows "\<exists>s'. tpp_change_priority n E prev new s = Ret 0 s' \<and> same_but_tpp s s' \<and> tpp_state s' (after_change prev new M)"
proof -
  from assms(1) obtain t where r: "quiet E" "p_lock (slf s) = 0" "sched_known s" "\<forall>c p. e_setscheduler E c p = None"
    "tpp_state s M" "0 \<le> fifo_min_prio s" "p_tpp (slf s) = Some t"
    by (auto simp: pp_ready_def tpp_state_def)
  from tpp_change_quiet [OF r(1-6) assms(2,3,4)] obtain s' where s': "tpp_change_priority n E prev new s = Ret 0 s'" by blast
  from tpp_change_frame [OF r(1-3,7) s'] tpp_change_state [OF quiet_fair [OF r(1)] r(5,6) assms(2,3,4) s'] s'
  show ?thesis by (simp add: same_but_tpp_def)
qed

lemma known_flags:
  assumes "sched_known s"
  shows "p_flags (slf s) AND (ATTR_FLAG_POLICY_SET OR ATTR_FLAG_SCHED_SET) = ATTR_FLAG_POLICY_SET OR ATTR_FLAG_SCHED_SET"
proof -
  have one: "x AND 2 ^ k \<noteq> 0 \<Longrightarrow> x AND 2 ^ k = 2 ^ k" for x :: i32 and k
    by (auto simp: and_exp_eq_0_iff_not_bit bit_simps intro!: bit_word_eqI)
  have "p_flags (slf s) AND 2 ^ 5 = 2 ^ 5" "p_flags (slf s) AND 2 ^ 6 = 2 ^ 6"
    using assms one [of _ 5] one [of _ 6] by (simp_all add: sched_known_def ATTR_FLAG_SCHED_SET_def ATTR_FLAG_POLICY_SET_def)
  then have "p_flags (slf s) AND (2 ^ 6 OR 2 ^ 5) = 2 ^ 6 OR 2 ^ 5" by (simp only: bit.conj_disj_distrib)
  then show ?thesis by (simp add: ATTR_FLAG_SCHED_SET_def ATTR_FLAG_POLICY_SET_def)
qed

lemma known_priority: "sched_known s \<Longrightarrow> current_priority n E s = Ret (p_prio (slf s)) s"
  by (simp add: current_priority_def known_flags)

section \<open>Taking the mutex\<close>

lemma pp_loop_takes:
  assumes "pp_ready E i c M s" and "p_prio (slf s) \<le> c" and "count M c + 1 < 2 ^ 32" and "m_lock (mtx s i) = ceilval_of c"
  shows "\<exists>s1. pp_loop (Suc n) E False i (-1) (ceilval_of c) s = Ret Break s1 \<and> tpp_state s1 (add_mset c M) \<and>
    same_but_tpp (set_lock i (ceilval_of c OR 1) s) s1"
proof -
  have c: "0 \<le> c" "c < 8192" "prio_ok s c" "c \<noteq> -1" using assms(1) by (auto simp: pp_ready_def prio_ok_def)
  from ready_change [OF assms(1) c(3), of "-1"] assms(3) obtain s1 where
    s1: "tpp_change_priority (Suc n) E (-1) c s = Ret 0 s1" "same_but_tpp s s1" "tpp_state s1 (after_change (-1) c M)" by auto
  have q: "quiet E" "sched_known s" using assms(1) by (simp_all add: pp_ready_def)
  have sv: "sync_vars s1 = sync_vars s" using s1(2) by (simp add: same_but_tpp_def)
  let ?s2 = "set_lock i (ceilval_of c OR 1) (ticks E s1)"
  have "pp_loop (Suc n) E False i (-1) (ceilval_of c) s = Ret Break ?s2"
    using assms(2,4) s1(1) q sv c
    by (simp add: ceiling_ceilval known_priority mc.cmpxchg_cases Let_def)
  moreover have "tpp_state ?s2 (add_mset c M)"
    using s1(3) c(4) q(1) by (simp add: after_change_def tpp_state_def quiet_ticks)
  moreover have "same_but_tpp (set_lock i (ceilval_of c OR 1) s) ?s2"
    using s1(2) q(1) by (auto simp: same_but_tpp_def quiet_ticks upd_mtx_def upd_entry_def)
  ultimately show ?thesis by blast
qed

lemma lock_pp_takes:
  assumes "pp_ready E i c M s" and "p_prio (slf s) \<le> c" and "count M c + 1 < 2 ^ 32" and "m_lock (mtx s i) = ceilval_of c"
    and "m_owner (mtx s i) = 0"
  shows "\<exists>s1. lock_real (Suc n) E False i mi thd s = Ret 0 s1 \<and> tpp_state s1 (add_mset c M) \<and>
    same_but_tpp (upd_mtx i (\<lambda>m. m\<lparr>m_lock := ceilval_of c OR 1, m_count := 1, m_owner := p_tid (slf s), m_nusers := m_nusers m + 1\<rparr>) s) s1"
proof -
  let ?s0 = "ticks E s"
  have q: "quiet E" "p_tid (slf s) \<noteq> 0" "m_kind (mtx s i) \<in> kinds_pp" using assms(1) by (simp_all add: pp_ready_def)
  have r0: "pp_ready E i c M ?s0" using assms(1) q(1) by (simp add: pp_ready_def quiet_ticks tpp_state_def sched_known_def)
  obtain s1 where s1: "pp_loop (Suc n) E False i (-1) (ceilval_of c) ?s0 = Ret Break s1" "tpp_state s1 (add_mset c M)"
    "same_but_tpp (set_lock i (ceilval_of c OR 1) ?s0) s1"
    using pp_loop_takes [OF r0, of n] assms(2-4) q(1) by auto
  have o: "m_owner (mtx s1 i) = 0" using s1(3) assms(5) q(1) by (simp add: same_but_tpp_def)
  have "lock_pp (Suc n) E False i (p_tid (slf s)) s = Ret Break (set_count i 1 s1)"
    using assms(4,5) q s1(1) o by (simp add: lock_pp_def loadl_def Let_def)
  moreover have "lock_switch (Suc n) E False i mi thd (p_tid (slf s)) s = lock_pp (Suc n) E False i (p_tid (slf s)) s"
    using q(3) by (auto simp: lock_switch_def pp_kinds mutex_kinds Let_def)
  ultimately have l: "lock_real (Suc n) E False i mi thd s = Ret 0 (add_nusers i 1 (set_owner i (p_tid (slf s)) (set_count i 1 s1)))"
    by (simp add: lock_real_def Let_def)
  let ?t = "add_nusers i 1 (set_owner i (p_tid (slf s)) (set_count i 1 s1))"
  have "tpp_state ?t (add_mset c M)" using s1(2) by (simp add: tpp_state_def)
  moreover have "same_but_tpp (upd_mtx i (\<lambda>m. m\<lparr>m_lock := ceilval_of c OR 1, m_count := 1, m_owner := p_tid (slf s), m_nusers := m_nusers m + 1\<rparr>) s) ?t"
    using s1(3) q(1) by (auto simp: same_but_tpp_def quiet_ticks upd_mtx_def upd_entry_def)
  ultimately show ?thesis using l by blast
qed

text \<open>A thread whose own priority is above the ceiling is refused before anything is changed.\<close>

lemma lock_pp_refuses:
  assumes "pp_ready E i c M s" and "c < p_prio (slf s)" and "m_lock (mtx s i) = ceilval_of c" and "m_owner (mtx s i) = 0"
  shows "lock_real (Suc n) E False i mi thd s = Ret EINVAL (ticks E s)"
proof -
  have q: "quiet E" "p_tid (slf s) \<noteq> 0" "m_kind (mtx s i) \<in> kinds_pp" "0 \<le> c" "c < 8192" using assms(1) by (auto simp: pp_ready_def)
  have k: "sched_known (ticks E s)" using assms(1) q(1) by (simp add: pp_ready_def sched_known_def)
  have "lock_pp (Suc n) E False i (p_tid (slf s)) s = Ret (Return EINVAL) (ticks E s)"
    using assms(2-4) q k by (simp add: lock_pp_def loadl_def Let_def ceiling_ceilval known_priority)
  moreover have "lock_switch (Suc n) E False i mi thd (p_tid (slf s)) s = lock_pp (Suc n) E False i (p_tid (slf s)) s"
    using q(3) by (auto simp: lock_switch_def pp_kinds mutex_kinds Let_def)
  ultimately show ?thesis by (simp add: lock_real_def Let_def)
qed

section \<open>Releasing it\<close>

lemma unlock_pp_releases:
  assumes "pp_ready E i c M s" and "c \<in># M" and "m_lock (mtx s i) = ceilval_of c OR 1"
  shows "\<exists>s1. unlock_pp (Suc n) E True i s = Ret 0 s1 \<and> tpp_state s1 (M - {#c#}) \<and>
    same_but_tpp (upd_mtx i (\<lambda>m. m\<lparr>m_owner := 0, m_nusers := m_nusers m - 1, m_lock := ceilval_of c\<rparr>) s) s1"
proof -
  have q: "quiet E" "0 \<le> c" "c < 4096" "c \<noteq> -1" using assms(1) by (auto simp: pp_ready_def)
  let ?s0 = "add_nusers i (-1) (set_owner i 0 s)"
  let ?s1 = "set_lock i (ceilval_of c) (ticks E (ticks E ?s0))"
  have pr: "pp_release (Suc n) E i ?s0 = Ret (ceilval_of c OR 1) ?s1"
    using assms(3) q(1) by (simp add: loadl_def mc.cmpxchg_cases ceilval_bits Let_def)
  have r1: "pp_ready E i c M ?s1"
    using assms(1) q(1) by (simp add: pp_ready_def tpp_state_def sched_known_def)
  have "prio_ok ?s1 (-1)" by (simp add: prio_ok_def)
  from ready_change [OF r1 this, of c "Suc n"] assms(2) obtain s2 where
    s2: "tpp_change_priority (Suc n) E c (-1) ?s1 = Ret 0 s2" "same_but_tpp ?s1 s2" "tpp_state s2 (after_change c (-1) M)" by auto
  have "unlock_pp (Suc n) E True i s = Ret 0 s2"
    using pr s2(1) q by (simp add: unlock_pp_def Let_def ceilval_bits ceilval_sint [simplified] PTHREAD_MUTEX_PRIO_CEILING_SHIFT_def)
  moreover have "tpp_state s2 (M - {#c#})" using s2(3) q(4) by (simp add: after_change_def)
  moreover have "same_but_tpp (upd_mtx i (\<lambda>m. m\<lparr>m_owner := 0, m_nusers := m_nusers m - 1, m_lock := ceilval_of c\<rparr>) s) s2"
    using s2(2) q(1) by (auto simp: same_but_tpp_def quiet_ticks upd_mtx_def upd_entry_def)
  ultimately show ?thesis by blast
qed

lemma unlock_full_releases:
  assumes "pp_ready E i c M s" and "c \<in># M" and "m_lock (mtx s i) = ceilval_of c OR 1"
    and "m_owner (mtx s i) = p_tid (slf s)" and "m_count (mtx s i) = 1"
  shows "\<exists>s1. unlock_usercnt (Suc n) E True i s = Ret 0 s1 \<and> tpp_state s1 (M - {#c#}) \<and>
    m_lock (mtx s1 i) = ceilval_of c \<and> m_owner (mtx s1 i) = 0 \<and> m_nusers (mtx s1 i) = m_nusers (mtx s i) - 1 \<and>
    m_kind (mtx s1 i) = m_kind (mtx s i) \<and> (\<forall>j. j \<noteq> i \<longrightarrow> mtx s1 j = mtx s j) \<and> p_tid (slf s1) = p_tid (slf s)"
proof -
  have q: "quiet E" "m_kind (mtx s i) \<in> kinds_pp" using assms(1) by (simp_all add: pp_ready_def)
  have fin: ?thesis
    if eq: "unlock_usercnt (Suc n) E True i s = unlock_pp (Suc n) E True i s'" and r: "pp_ready E i c M s'"
      and m: "\<forall>j. mtx s' j = (if j = i then (mtx s i)\<lparr>m_count := k\<rparr> else mtx s j)" "slf s' = slf s" for s' k
  proof -
    have "m_lock (mtx s' i) = ceilval_of c OR 1" using m(1) assms(3) by simp
    from unlock_pp_releases [OF r assms(2) this, of n] obtain s1 where
      "unlock_pp (Suc n) E True i s' = Ret 0 s1" "tpp_state s1 (M - {#c#})"
      "same_but_tpp (upd_mtx i (\<lambda>m. m\<lparr>m_owner := 0, m_nusers := m_nusers m - 1, m_lock := ceilval_of c\<rparr>) s') s1" by blast
    with m eq show ?thesis by (auto simp: same_but_tpp_def)
  qed
  have same: "\<forall>j. mtx s j = (if j = i then (mtx s i)\<lparr>m_count := m_count (mtx s i)\<rparr> else mtx s j)" by simp
  show ?thesis
  proof (cases "m_kind (mtx s i) = 65")
    case True
    then have "unlock_usercnt (Suc n) E True i s = unlock_pp (Suc n) E True i (add_count i (-1) s)"
      using assms(4,5) by (simp add: unlock_usercnt_def unlock_full_def unlock_pp_recursive_def mutex_macros mutex_kinds Let_def)
    moreover have "pp_ready E i c M (add_count i (-1) s)" using assms(1) by (simp add: pp_ready_def tpp_state_def sched_known_def)
    ultimately show ?thesis by (rule fin [where k = 0]) (simp_all add: assms(5))
  next
    case False
    then consider "m_kind (mtx s i) = 64 \<or> m_kind (mtx s i) = 67" | "m_kind (mtx s i) = 66"
      using q(2) by (auto simp: pp_kinds)
    then show ?thesis
    proof cases
      case 1
      then have "unlock_usercnt (Suc n) E True i s = unlock_pp (Suc n) E True i s"
        by (elim disjE; simp add: unlock_usercnt_def unlock_full_def mutex_macros mutex_kinds Let_def)
      then show ?thesis using assms(1) same by (rule fin) (rule refl)
    next
      case 2
      then have "unlock_usercnt (Suc n) E True i s = unlock_pp (Suc n) E True i (ticks E s)"
        using assms(3,4) q(1)
        by (simp add: unlock_usercnt_def unlock_full_def mutex_macros mutex_kinds Let_def loadl_def)
          (simp add: PTHREAD_MUTEX_PRIO_CEILING_MASK_def ceilval_bits(2) [unfolded PTHREAD_MUTEX_PRIO_CEILING_MASK_def, simplified])
      moreover have "pp_ready E i c M (ticks E s)" using assms(1) q(1) by (simp add: pp_ready_def tpp_state_def sched_known_def)
      ultimately show ?thesis by (rule fin [where k = "m_count (mtx s i)"]) (use q(1) in simp_all)
    qed
  qed
qed

section \<open>Property\<close>

text \<open>
  C32 (a priority protected mutex). For a free mutex of one of the four priority protected kinds, with nobody
  else at it and a scheduler that accepts every priority: a thread whose own priority is at most the ceiling takes it,
  the word shows the ceiling and a holder, the thread is the owner and its ceilings are one more; its unlock
  returns 0 and restores word, owner, users and ceilings. A thread with a greater priority of its
  own gets \<open>EINVAL\<close> and nothing is changed.
\<close>

theorem pp_round_trip:
  assumes "pp_ready E i c M s" and "m_lock (mtx s i) = ceilval_of c" and "m_owner (mtx s i) = 0" and "count M c + 1 < 2 ^ 32"
  shows "if p_prio (slf s) \<le> c then
      \<exists>s1 s2. lock_real (Suc n) E False i mi thd s = Ret 0 s1 \<and> m_lock (mtx s1 i) = ceilval_of c OR 1 \<and>
        m_owner (mtx s1 i) = p_tid (slf s) \<and> tpp_state s1 (add_mset c M) \<and>
        unlock_usercnt (Suc n) E True i s1 = Ret 0 s2 \<and> m_lock (mtx s2 i) = ceilval_of c \<and> m_owner (mtx s2 i) = 0 \<and>
        m_nusers (mtx s2 i) = m_nusers (mtx s i) \<and> (\<forall>j. j \<noteq> i \<longrightarrow> mtx s2 j = mtx s j) \<and> tpp_state s2 M
    else lock_real (Suc n) E False i mi thd s = Ret EINVAL (s\<lparr>clk := Suc (clk s)\<rparr>)"
proof (cases "p_prio (slf s) \<le> c")
  case True
  from lock_pp_takes [OF assms(1) True assms(4,2,3)] obtain s1 where
    s1: "lock_real (Suc n) E False i mi thd s = Ret 0 s1" "tpp_state s1 (add_mset c M)" and
    same: "same_but_tpp (upd_mtx i (\<lambda>m. m\<lparr>m_lock := ceilval_of c OR 1, m_count := 1, m_owner := p_tid (slf s), m_nusers := m_nusers m + 1\<rparr>) s) s1"
    by blast
  have r1: "pp_ready E i c (add_mset c M) s1"
    using assms(1) s1(2) same by (auto simp: pp_ready_def same_but_tpp_def sched_known_def)
  have m: "m_lock (mtx s1 i) = ceilval_of c OR 1" "m_owner (mtx s1 i) = p_tid (slf s1)" "m_count (mtx s1 i) = 1"
    "m_nusers (mtx s1 i) = m_nusers (mtx s i) + 1" "p_tid (slf s1) = p_tid (slf s)" "\<forall>j. j \<noteq> i \<longrightarrow> mtx s1 j = mtx s j"
    using same by (auto simp: same_but_tpp_def)
  from unlock_full_releases [OF r1 _ m(1-3), of n] obtain s2 where
    s2: "unlock_usercnt (Suc n) E True i s1 = Ret 0 s2" "tpp_state s2 M" "m_lock (mtx s2 i) = ceilval_of c"
      "m_owner (mtx s2 i) = 0" "m_nusers (mtx s2 i) = m_nusers (mtx s1 i) - 1" "\<forall>j. j \<noteq> i \<longrightarrow> mtx s2 j = mtx s1 j"
    by auto
  have "m_nusers (mtx s2 i) = m_nusers (mtx s i)" "\<forall>j. j \<noteq> i \<longrightarrow> mtx s2 j = mtx s j"
    using s2(5,6) m(4,6) by simp_all
  with True s1 s2 m(1,2,5) show ?thesis by auto
next
  case False
  then have "c < p_prio (slf s)" by simp
  from lock_pp_refuses [OF assms(1) this assms(2,3)] False show ?thesis
    using assms(1) by (simp add: pp_ready_def quiet_ticks)
qed

definition demo_pp :: nptl where
  "demo_pp = upd_mtx 0 (\<lambda>m. m\<lparr>m_kind := 64, m_lock := ceilval_of 3\<rparr>) demo_tpp"

theorem pp_round_trip_witness:
  "\<exists>s1 s2. lock_real 1 calm False 0 0 0 demo_pp = Ret 0 s1 \<and> tpp_state s1 {#2, 3#} \<and>
    unlock_usercnt 1 calm True 0 s1 = Ret 0 s2 \<and> tpp_state s2 {#2#}"
proof -
  have k: "real_mutex (pool demo_tpp 0) = zero_mutex" "slf demo_tpp = slf demo_pp" by (simp_all add: demo_tpp_def demo_pp_def)
  have "tpp_state demo_pp {#2#}" using demo_tpp_state by (simp add: demo_pp_def tpp_state_def)
  moreover have "sched_known demo_pp" "p_lock (slf demo_pp) = 0" "p_prio (slf demo_pp) = 0" "p_tid (slf demo_pp) \<noteq> 0"
    using demo_tpp_facts(1,2,8) by (simp_all add: demo_pp_def sched_known_def) (simp add: demo_tpp_def fresh_thread_def)
  moreover have "\<forall>t p. e_setscheduler calm t p = None" by (simp add: calm_def)
  ultimately have r: "pp_ready calm 0 3 {#2#} demo_pp" and p: "p_prio (slf demo_pp) = 0"
    using demo_tpp_facts(5,6) k(1) by (simp_all add: pp_ready_def demo_pp_def pp_kinds)
  have "m_lock (mtx demo_pp 0) = ceilval_of 3" "m_owner (mtx demo_pp 0) = 0" by (simp_all add: demo_pp_def k(1))
  from pp_round_trip [OF r this, of 0 0 0] p show ?thesis by (auto simp: add_mset_commute)
qed

end
