(* ===== verification/XThread.thy ===== *)
theory XThread
  imports FineTime Xdefines
begin

unbundle bit_operations_syntax

text \<open>
  The thread table of \<open>source/xthread.h\<close>: thread slots, the count of threads alive, and the levels
  (phases) of the program, which change between serial and parallel. \<open>_lock\<close> is the real
  \<open>pthread_mutex_lock\<close> around \<open>allocThreadIndex\<close> and \<open>markThreadExit\<close>, so each is one step here.
  The time stamp counter, the numbers the kernel gives to threads and the results of
  \<open>pthread_create\<close> and \<open>pthread_join\<close> are arguments. Writing to \<open>_threadLevelInfo\<close> beyond its end
  is \<open>Abort\<close>.
\<close>

section \<open>Data\<close>

record thread_t =
  t_index :: int
  t_tid :: i32
  t_pindex :: int
  t_ptid :: i32
  childBeginIndex :: int
  childEndIndex :: int
  t_self :: u64
  startRoutine :: u64
  startArg :: u64
  startTime :: timeinfo
  actualRuntime :: real
  parentRuntime :: real
  levelIndex :: nat
  stackTop :: u64

record threadLevelInfo =
  beginIndex :: int
  endIndex :: int
  l_startTime :: timeinfo
  elapse :: real

record xthread =
  threadIndex :: nat
  aliveThreads :: u64
  threads :: "nat \<Rightarrow> thread_t"
  threadLevel :: nat
  levelInfo :: "nat \<Rightarrow> threadLevelInfo"
  isMultithreading :: bool

definition zero_thread :: thread_t where
  "zero_thread = \<lparr>t_index = 0, t_tid = 0, t_pindex = 0, t_ptid = 0, childBeginIndex = 0, childEndIndex = 0,
     t_self = 0, startRoutine = 0, startArg = 0, startTime = \<lparr>low = 0, high = 0\<rparr>, actualRuntime = 0,
     parentRuntime = 0, levelIndex = 0, stackTop = 0\<rparr>"

definition zero_level :: threadLevelInfo where
  "zero_level = \<lparr>beginIndex = 0, endIndex = 0, l_startTime = \<lparr>low = 0, high = 0\<rparr>, elapse = 0\<rparr>"

definition upd_thread :: "nat \<Rightarrow> (thread_t \<Rightarrow> thread_t) \<Rightarrow> xthread \<Rightarrow> xthread" where
  "upd_thread i f s = s\<lparr>threads := (threads s)(i := f (threads s i))\<rparr>"

section \<open>Levels\<close>

definition upd_level :: "(threadLevelInfo \<Rightarrow> threadLevelInfo) \<Rightarrow> xthread \<Rightarrow> (unit, xthread) out" where
  "upd_level f s =
     (let k = threadLevel s in
      if k < MAX_THREAD_LEVELS then Ret () (s\<lparr>levelInfo := (levelInfo s)(k := f (levelInfo s k))\<rparr>) else Abort)"

definition updateThreadLevelInfo :: "int \<Rightarrow> xthread \<Rightarrow> (unit, xthread) out" where
  "updateThreadLevelInfo threadindex =
     upd_level (\<lambda>l. if endIndex l < threadindex then l\<lparr>endIndex := threadindex\<rparr> else l)"

definition startThreadLevelInfo :: "u64 \<Rightarrow> int \<Rightarrow> xthread \<Rightarrow> (unit, xthread) out" where
  "startThreadLevelInfo now i =
     upd_level (\<lambda>l. l\<lparr>l_startTime := start now, beginIndex := i, endIndex := i\<rparr>)"

definition stopThreadLevelInfo :: "u64 \<Rightarrow> xthread \<Rightarrow> (unit, xthread) out" where
  "stopThreadLevelInfo now = upd_level (\<lambda>l. l\<lparr>elapse := get_elapsed2ms (l_startTime l) now\<rparr>)"

section \<open>Threads\<close>

definition getThreadInfoByIndex :: "int \<Rightarrow> xthread \<Rightarrow> (nat, xthread) out" where
  "getThreadInfoByIndex i s = assrt (i < int MAX_THREADS) (Ret (nat i) s)"

text \<open>The runtime, a \<open>double\<close>, is returned as an \<open>unsigned long\<close>.\<close>

definition getParentRuntime :: "int \<Rightarrow> xthread \<Rightarrow> (real, xthread) out" where
  "getParentRuntime i s = bnd (getThreadInfoByIndex i s) (\<lambda>t s. Ret (real (nat \<lfloor>actualRuntime (threads s t)\<rfloor>)) s)"

text \<open>\<open>current\<close> is the slot of the calling thread, \<open>tsc\<close> the stamps of the up to three clock
  reads, \<open>gtid\<close> the result of \<open>gettid\<close>.\<close>

definition new_phase :: "(nat \<Rightarrow> u64) \<Rightarrow> int \<Rightarrow> xthread \<Rightarrow> (unit, xthread) out" where
  "new_phase tsc index s =
     bnd (stopThreadLevelInfo (tsc 1) s) (\<lambda>_ s.
       startThreadLevelInfo (tsc 2) index (s\<lparr>threadLevel := threadLevel s + 1\<rparr>))"

definition allocThreadIndex :: "(nat \<Rightarrow> u64) \<Rightarrow> i32 \<Rightarrow> nat \<Rightarrow> xthread \<Rightarrow> (nat, xthread) out" where
  "allocThreadIndex tsc gtid current s =
     (let index = int (threadIndex s);
          alivethreads = sint (ucast (aliveThreads s) :: i32);
          s = s\<lparr>threadIndex := threadIndex s + 1, aliveThreads := aliveThreads s + 1\<rparr>
      in if index \<ge> int MAX_THREADS \<or> alivethreads \<ge> int MAX_ALIVE_THREADS then Abort
         else bnd (getThreadInfoByIndex index s) (\<lambda>i s.
           let s = upd_thread i (\<lambda>t. t\<lparr>t_ptid := gtid, t_index := index, levelIndex := threadLevel s,
                     startTime := start (tsc 0)\<rparr>) s
           in bnd (if alivethreads = 0 then startThreadLevelInfo (tsc 1) index s
                   else if alivethreads = 1 then
                     let s = s\<lparr>isMultithreading := True\<rparr>;
                         s = upd_thread current (\<lambda>t. t\<lparr>childBeginIndex := index, childEndIndex := index\<rparr>) s
                     in new_phase tsc index s
                   else if alivethreads > 1 then
                     bnd (updateThreadLevelInfo index s) (\<lambda>_ s.
                       Ret () (if index > childEndIndex (threads s current)
                               then upd_thread current (\<lambda>t. t\<lparr>childEndIndex := index\<rparr>) s else s))
                   else Ret () s)
                (\<lambda>_ s.
              bnd (if alivethreads = 0 then Ret () (upd_thread i (\<lambda>t. t\<lparr>t_pindex := 0, parentRuntime := 0\<rparr>) s)
                   else bnd (getParentRuntime (t_pindex (threads s i)) s) (\<lambda>r s.
                     Ret () (upd_thread i (\<lambda>t. t\<lparr>parentRuntime := r, t_pindex := t_index (threads s current)\<rparr>) s)))
                (\<lambda>_ s. Ret i s))))"

definition setPrivateStackTop :: "nat \<Rightarrow> xthread \<Rightarrow> xthread" where
  "setPrivateStackTop current s =
     upd_thread current (\<lambda>t. t\<lparr>stackTop := (t_self t + PageSize) AND NOT (PageSize - 1)\<rparr>) s"

definition initInitialThread :: "(nat \<Rightarrow> u64) \<Rightarrow> i32 \<Rightarrow> u64 \<Rightarrow> xthread \<Rightarrow> (unit, xthread) out" where
  "initInitialThread tsc gtid self s =
     bnd (allocThreadIndex tsc gtid 0 s) (\<lambda>tindex s.
       assrt (tindex = 0)
         (bnd (getThreadInfoByIndex (int tindex) s) (\<lambda>current s.
           Ret () (setPrivateStackTop current (upd_thread current (\<lambda>t. t\<lparr>t_self := self, t_tid := gtid\<rparr>) s)))))"

definition initialize_threads :: "(nat \<Rightarrow> u64) \<Rightarrow> i32 \<Rightarrow> u64 \<Rightarrow> xthread \<Rightarrow> (unit, xthread) out" where
  "initialize_threads tsc gtid self s =
     initInitialThread tsc gtid self
       (s\<lparr>aliveThreads := 0, threadIndex := 0, threads := (\<lambda>_. zero_thread), levelInfo := (\<lambda>_. zero_level)\<rparr>)"

text \<open>\<open>result\<close> is what \<open>pthread_create\<close> returns.\<close>

definition thread_create ::
  "(nat \<Rightarrow> u64) \<Rightarrow> i32 \<Rightarrow> nat \<Rightarrow> u64 \<Rightarrow> u64 \<Rightarrow> i32 \<Rightarrow> xthread \<Rightarrow> (i32, xthread) out" where
  "thread_create tsc gtid current fn arg result s =
     bnd (allocThreadIndex tsc gtid current s) (\<lambda>tindex s.
       Ret result (upd_thread tindex (\<lambda>t. t\<lparr>startRoutine := fn, startArg := arg\<rparr>) s))"

text \<open>The body of a new thread up to its routine, and after it.\<close>

definition startThread_begin :: "nat \<Rightarrow> u64 \<Rightarrow> i32 \<Rightarrow> xthread \<Rightarrow> xthread" where
  "startThread_begin current self gtid s =
     setPrivateStackTop current (upd_thread current (\<lambda>t. t\<lparr>t_self := self, t_tid := gtid\<rparr>) s)"

definition startThread_end :: "nat \<Rightarrow> u64 \<Rightarrow> xthread \<Rightarrow> xthread" where
  "startThread_end current now s =
     upd_thread current (\<lambda>t. t\<lparr>actualRuntime := get_elapsed2ms (startTime t) now\<rparr>) s"

text \<open>The argument of \<open>markThreadExit\<close> is not used, which is as well: \<open>thread_join\<close> passes a
  variable it never sets.\<close>

definition markThreadExit :: "(nat \<Rightarrow> u64) \<Rightarrow> xthread \<Rightarrow> (unit, xthread) out" where
  "markThreadExit tsc s =
     (let s = s\<lparr>aliveThreads := aliveThreads s - 1\<rparr> in
      if aliveThreads s = 1 then new_phase tsc (int (threadIndex s)) (s\<lparr>isMultithreading := False\<rparr>)
      else Ret () s)"

definition thread_join :: "(nat \<Rightarrow> u64) \<Rightarrow> i32 \<Rightarrow> xthread \<Rightarrow> (i32, xthread) out" where
  "thread_join tsc ret s =
     (if ret = 0 then bnd (markThreadExit tsc s) (\<lambda>_ s. Ret ret s) else Ret ret s)"

definition finalize_threads :: "u64 \<Rightarrow> xthread \<Rightarrow> (unit, xthread) out" where
  "finalize_threads now = stopThreadLevelInfo now"

text \<open>The search for the slot of a child, between the limits the parent keeps (the search ends in
  \<open>abort()\<close>).\<close>

function child_search :: "int \<Rightarrow> int \<Rightarrow> u64 \<Rightarrow> xthread \<Rightarrow> (nat, xthread) out" where
  "child_search i lst self s =
     (if t_self (threads s (nat i)) = self then Ret (nat i) s
      else if i + 1 \<le> lst then child_search (i + 1) lst self s else Abort)"
  by pat_completeness auto
termination by (relation "measure (\<lambda>(i, lst, self, s). nat (lst - i))") auto

definition getChildThreadStruct :: "nat \<Rightarrow> u64 \<Rightarrow> xthread \<Rightarrow> (nat, xthread) out" where
  "getChildThreadStruct current self s =
     child_search (childBeginIndex (threads s current)) (childEndIndex (threads s current)) self s"


declare child_search.simps [simp del]

section \<open>Single operations\<close>

lemma upd_level_Ret [out_ret]:
  "upd_level f s = Ret u t \<longleftrightarrow> threadLevel s < MAX_THREAD_LEVELS \<and>
     t = s\<lparr>levelInfo := (levelInfo s)(threadLevel s := f (levelInfo s (threadLevel s)))\<rparr>"
  by (auto simp: upd_level_def Let_def)

lemma upd_thread_frame [simp]:
  "threadIndex (upd_thread i f s) = threadIndex s" "aliveThreads (upd_thread i f s) = aliveThreads s"
  "threadLevel (upd_thread i f s) = threadLevel s" "levelInfo (upd_thread i f s) = levelInfo s"
  "isMultithreading (upd_thread i f s) = isMultithreading s"
  "threads (upd_thread i f s) j = (if j = i then f (threads s i) else threads s j)"
  by (simp_all add: upd_thread_def)

lemma alive_int: "unat a < 2 ^ 31 \<Longrightarrow> sint (ucast a :: i32) = int (unat a)" for a :: u64
proof -
  assume a: "unat a < 2 ^ 31"
  then have lt: "uint a < 2 ^ 31" by (metis of_nat_less_iff uint_nat of_nat_numeral of_nat_power)
  then have "signed_take_bit 31 (uint a) = uint a"
    by (intro signed_take_bit_int_eq_self) (simp_all add: order_trans [OF _ unsigned_greater_eq])
  then show ?thesis using lt
    by (simp add: sint_uint unsigned_ucast_eq signed_take_bit_int_eq_self take_bit_int_eq_self)
qed

text \<open>The level that \<open>allocThreadIndex\<close> ends in, and that level's limits.\<close>

definition level_after :: "nat \<Rightarrow> xthread \<Rightarrow> nat" where
  "level_after k s = (if k = 1 then threadLevel s + 1 else threadLevel s)"

definition span_after :: "nat \<Rightarrow> xthread \<Rightarrow> int \<times> int" where
  "span_after k s =
     (let l = levelInfo s (threadLevel s); i = int (threadIndex s) in
      if k \<le> 1 then (i, i) else (beginIndex l, max (endIndex l) i))"

definition span :: "xthread \<Rightarrow> int \<times> int" where
  "span s = (beginIndex (levelInfo s (threadLevel s)), endIndex (levelInfo s (threadLevel s)))"

text \<open>The slot of the new thread as the first half of the function fills it.\<close>

definition fill_slot :: "(nat \<Rightarrow> u64) \<Rightarrow> i32 \<Rightarrow> xthread \<Rightarrow> xthread" where
  "fill_slot tsc gtid s =
     upd_thread (threadIndex s) (\<lambda>t. t\<lparr>t_ptid := gtid, t_index := int (threadIndex s), levelIndex := threadLevel s,
       startTime := start (tsc 0)\<rparr>) (s\<lparr>threadIndex := threadIndex s + 1, aliveThreads := aliveThreads s + 1\<rparr>)"

definition set_parent :: "nat \<Rightarrow> nat \<Rightarrow> xthread \<Rightarrow> (nat, xthread) out" where
  "set_parent i current s =
     bnd (getParentRuntime (t_pindex (threads s i)) s) (\<lambda>r s.
       Ret i (upd_thread i (\<lambda>t. t\<lparr>parentRuntime := r, t_pindex := t_index (threads s current)\<rparr>) s))"

lemma fill_slot_frame [simp]:
  "threadIndex (fill_slot tsc gtid s) = threadIndex s + 1" "aliveThreads (fill_slot tsc gtid s) = aliveThreads s + 1"
  "threadLevel (fill_slot tsc gtid s) = threadLevel s" "levelInfo (fill_slot tsc gtid s) = levelInfo s"
  "isMultithreading (fill_slot tsc gtid s) = isMultithreading s"
  "threads (fill_slot tsc gtid s) j = (if j = threadIndex s then (threads s j)\<lparr>t_ptid := gtid,
     t_index := int (threadIndex s), levelIndex := threadLevel s, startTime := start (tsc 0)\<rparr> else threads s j)"
  by (simp_all add: fill_slot_def)

lemma alloc_eq:
  assumes "unat (aliveThreads s) = k" and "k \<le> 128"
  shows "allocThreadIndex tsc gtid current s =
    (let i = threadIndex s; index = int i; u = fill_slot tsc gtid s in
     if i \<ge> MAX_THREADS \<or> k \<ge> MAX_ALIVE_THREADS then Abort
     else if k = 0 then bnd (startThreadLevelInfo (tsc 1) index u) (\<lambda>_ s.
       Ret i (upd_thread i (\<lambda>t. t\<lparr>t_pindex := 0, parentRuntime := 0\<rparr>) s))
     else if k = 1 then bnd (new_phase tsc index (upd_thread current (\<lambda>t. t\<lparr>childBeginIndex := index, childEndIndex := index\<rparr>)
       (u\<lparr>isMultithreading := True\<rparr>))) (\<lambda>_ s. set_parent i current s)
     else bnd (updateThreadLevelInfo index u) (\<lambda>_ s. set_parent i current
       (if index > childEndIndex (threads s current) then upd_thread current (\<lambda>t. t\<lparr>childEndIndex := index\<rparr>) s else s)))"
proof -
  have al: "sint (ucast (aliveThreads s) :: i32) = int k" using alive_int [of "aliveThreads s"] assms by simp
  have lim: "int k \<ge> int MAX_ALIVE_THREADS \<longleftrightarrow> k \<ge> MAX_ALIVE_THREADS" by simp
  have "i < MAX_THREADS \<Longrightarrow> getThreadInfoByIndex (int i) u = Ret i u" for i u
    by (simp add: getThreadInfoByIndex_def)
  then show ?thesis
    unfolding allocThreadIndex_def Let_def al lim
    by (simp add: set_parent_def [abs_def] bnd_assoc fill_slot_def)
qed


lemma set_parent_Ret:
  "set_parent i current s = Ret j t \<longleftrightarrow> t_pindex (threads s i) < int MAX_THREADS \<and> j = i \<and>
     t = upd_thread i (\<lambda>t. t\<lparr>parentRuntime := real (nat \<lfloor>actualRuntime (threads s (nat (t_pindex (threads s i))))\<rfloor>),
       t_pindex := t_index (threads s current)\<rparr>) s"
  by (auto simp: set_parent_def getParentRuntime_def getThreadInfoByIndex_def out_ret)

lemma new_phase_Ret:
  "new_phase tsc i s = Ret u t \<longleftrightarrow> threadLevel s + 1 < MAX_THREAD_LEVELS \<and>
     t = s\<lparr>threadLevel := threadLevel s + 1, levelInfo := (levelInfo s)
       (threadLevel s := (levelInfo s (threadLevel s))\<lparr>elapse := get_elapsed2ms (l_startTime (levelInfo s (threadLevel s))) (tsc 1)\<rparr>,
        threadLevel s + 1 := (levelInfo s (threadLevel s + 1))\<lparr>l_startTime := start (tsc 2), beginIndex := i, endIndex := i\<rparr>)\<rparr>"
  by (auto simp: new_phase_def stopThreadLevelInfo_def startThreadLevelInfo_def out_ret)

lemma alloc_post:
  assumes "allocThreadIndex tsc gtid current s = Ret i t" and "unat (aliveThreads s) = k" and "k \<le> 128"
  shows "i = threadIndex s \<and> threadIndex s < MAX_THREADS \<and> k < MAX_ALIVE_THREADS \<and>
    threadIndex t = threadIndex s + 1 \<and> aliveThreads t = aliveThreads s + 1 \<and>
    threadLevel t = level_after k s \<and> threadLevel t < MAX_THREAD_LEVELS \<and> span t = span_after k s \<and>
    isMultithreading t = (k = 1 \<or> isMultithreading s)"
proof -
  note e = assms(1) [unfolded alloc_eq [OF assms(2,3)] Let_def]
  have lim: "threadIndex s < MAX_THREADS" "k < MAX_ALIVE_THREADS" using e by (auto split: if_splits)
  consider "k = 0" | "k = 1" | "1 < k" by linarith
  then show ?thesis
  proof cases
    case 1
    with e lim show ?thesis
      by (simp add: bnd_eq_Ret startThreadLevelInfo_def upd_level_Ret level_after_def span_after_def span_def Let_def)
        auto
  next
    case 2
    with e lim show ?thesis
      by (simp add: bnd_eq_Ret new_phase_Ret set_parent_Ret level_after_def span_after_def span_def Let_def)
  next
    case 3
    with e lim show ?thesis
      by (auto simp: bnd_eq_Ret updateThreadLevelInfo_def upd_level_Ret set_parent_Ret level_after_def span_after_def
          span_def Let_def max_def)
  qed
qed

text \<open>The slots: the new one, the caller's, and the others.\<close>

lemma alloc_slots:
  assumes "allocThreadIndex tsc gtid current s = Ret i t" and "unat (aliveThreads s) = k" and "0 < k" "k \<le> 128"
    and "current < threadIndex s" and "threads s i = zero_thread"
  shows "t_index (threads t i) = int i \<and> levelIndex (threads t i) = threadLevel s \<and>
    t_pindex (threads t i) = t_index (threads s current) \<and> actualRuntime (threads t i) = 0 \<and>
    parentRuntime (threads t i) = real (nat \<lfloor>actualRuntime (threads s 0)\<rfloor>) \<and>
    (\<forall>j. j \<noteq> i \<longrightarrow> threads t j = (threads s j)\<lparr>childBeginIndex := childBeginIndex (threads t j),
      childEndIndex := childEndIndex (threads t j)\<rparr>) \<and> (\<forall>j. j \<noteq> i \<longrightarrow> j \<noteq> current \<longrightarrow> threads t j = threads s j)"
proof -
  note e = assms(1) [unfolded alloc_eq [OF assms(2,4)] Let_def]
  have i: "i = threadIndex s" using alloc_post [OF assms(1,2,4)] by simp
  have z: "t_pindex (threads s i) = 0" "actualRuntime (threads s i) = 0" using assms(6) by (simp_all add: zero_thread_def)
  have lim: "threadIndex s < MAX_THREADS" "k < MAX_ALIVE_THREADS" using e by (auto split: if_splits)
  have c0: "0 < threadIndex s" using assms(5) by simp
  show ?thesis
  proof (cases "k = 1")
    case True
    with e lim i z c0 assms(5) show ?thesis
      by (simp add: bnd_eq_Ret new_phase_Ret set_parent_Ret)
  next
    case False
    with e lim i z c0 assms(3,5) show ?thesis
      by (auto simp: bnd_eq_Ret updateThreadLevelInfo_def upd_level_Ret set_parent_Ret split: if_splits)
  qed
qed

lemma exit_post:
  assumes "markThreadExit tsc s = Ret u t" and "unat (aliveThreads s) = Suc k" and "0 < k"
  shows "unat (aliveThreads t) = k \<and> threadIndex t = threadIndex s \<and> threads t = threads s \<and>
    threadLevel t = (if k = 1 then threadLevel s + 1 else threadLevel s) \<and>
    (threadLevel s < MAX_THREAD_LEVELS \<longrightarrow> threadLevel t < MAX_THREAD_LEVELS) \<and>
    span t = (if k = 1 then (int (threadIndex s), int (threadIndex s)) else span s) \<and>
    isMultithreading t = (k \<noteq> 1 \<and> isMultithreading s)"
proof -
  have "aliveThreads s \<noteq> 0" using assms(2) by auto
  then have k: "unat (aliveThreads s - 1) = k" using assms(2) by (simp add: unat_minus_one)
  then have "aliveThreads s - 1 = 1 \<longleftrightarrow> k = 1" by (auto simp: word_unat_eq_iff)
  with assms(1) k show ?thesis
    by (auto simp: markThreadExit_def Let_def new_phase_Ret span_def split: if_splits)
qed


section \<open>A running program\<close>

text \<open>The table with the number of threads created and not joined yet, and of creations that failed.
  Threads create and join in any order; a join succeeds only for a thread that was created, as
  \<open>pthread_join\<close> documents.\<close>

record process =
  tbl :: xthread
  unjoined :: nat
  leaked :: nat

inductive xstep :: "process \<Rightarrow> process \<Rightarrow> bool" where
  create: "current < threadIndex (tbl p) \<Longrightarrow> thread_create tsc gtid current fn arg 0 (tbl p) = Ret r t \<Longrightarrow>
     xstep p (p\<lparr>tbl := t, unjoined := unjoined p + 1\<rparr>)"
| create_fails: "current < threadIndex (tbl p) \<Longrightarrow> res \<noteq> 0 \<Longrightarrow>
     thread_create tsc gtid current fn arg res (tbl p) = Ret r t \<Longrightarrow>
     xstep p (p\<lparr>tbl := t, leaked := leaked p + 1\<rparr>)"
| begins: "0 < current \<Longrightarrow> current < threadIndex (tbl p) \<Longrightarrow>
     xstep p (p\<lparr>tbl := startThread_begin current self gtid (tbl p)\<rparr>)"
| ends: "0 < current \<Longrightarrow> current < threadIndex (tbl p) \<Longrightarrow>
     xstep p (p\<lparr>tbl := startThread_end current now (tbl p)\<rparr>)"
| join: "0 < unjoined p \<Longrightarrow> thread_join tsc 0 (tbl p) = Ret r t \<Longrightarrow>
     xstep p (p\<lparr>tbl := t, unjoined := unjoined p - 1\<rparr>)"
| join_fails: "res \<noteq> 0 \<Longrightarrow> thread_join tsc res (tbl p) = Ret r t \<Longrightarrow> xstep p (p\<lparr>tbl := t\<rparr>)"

inductive_cases xstepE: "xstep p q"

definition table_ok :: "nat \<Rightarrow> xthread \<Rightarrow> bool" where
  "table_ok k s \<longleftrightarrow> unat (aliveThreads s) = k \<and> 0 < k \<and> k \<le> MAX_ALIVE_THREADS \<and>
     0 < threadIndex s \<and> threadIndex s \<le> MAX_THREADS \<and> threadLevel s < MAX_THREAD_LEVELS \<and>
     isMultithreading s = (1 < k) \<and> even (threadLevel s) = (k = 1) \<and>
     (if 1 < k then fst (span s) \<le> snd (span s) \<and> snd (span s) = int (threadIndex s) - 1
      else threadLevel s = 0 \<or> span s = (int (threadIndex s), int (threadIndex s)))"

definition slots_ok :: "xthread \<Rightarrow> bool" where
  "slots_ok s \<longleftrightarrow> actualRuntime (threads s 0) = 0 \<and>
     (\<forall>i<threadIndex s. t_index (threads s i) = int i \<and> parentRuntime (threads s i) = 0) \<and>
     (\<forall>i\<ge>threadIndex s. threads s i = zero_thread)"

lemma table_create:
  assumes "table_ok k s" and "slots_ok s" and "current < threadIndex s"
    and "thread_create tsc gtid current fn arg res s = Ret r t"
  shows "table_ok (Suc k) t \<and> slots_ok t"
proof -
  from assms(4) obtain i u where a: "allocThreadIndex tsc gtid current s = Ret i u"
    and t: "t = upd_thread i (\<lambda>t. t\<lparr>startRoutine := fn, startArg := arg\<rparr>) u"
    by (auto simp: thread_create_def bnd_eq_Ret)
  have k: "unat (aliveThreads s) = k" "k \<le> 128" "0 < k"
    using assms(1) by (simp_all add: table_ok_def MAX_ALIVE_THREADS_def NUM_HEAPS_def)
  note p = alloc_post [OF a k(1,2)]
  have z: "threads s i = zero_thread" using assms(2) p by (simp add: slots_ok_def)
  note sl = alloc_slots [OF a k(1,3,2) assms(3) z]
  have "unat (aliveThreads s + 1) = Suc k"
    using unat_plus_if' [of "aliveThreads s" 1] k by simp
  moreover have "span t = span u" by (simp add: t span_def)
  ultimately have tab: "table_ok (Suc k) t"
    using assms(1) p k(3)
    by (auto simp: table_ok_def t level_after_def span_after_def span_def Let_def split: if_splits)
  have old: "t_index (threads t j) = t_index (threads s j) \<and> parentRuntime (threads t j) = parentRuntime (threads s j) \<and>
      actualRuntime (threads t j) = actualRuntime (threads s j)" if "j \<noteq> i" for j
  proof -
    have "threads u j = (threads s j)\<lparr>childBeginIndex := childBeginIndex (threads u j),
      childEndIndex := childEndIndex (threads u j)\<rparr>" using sl that by blast
    note eq = this
    have "t_index (threads u j) = t_index (threads s j)" by (subst eq) simp
    moreover have "parentRuntime (threads u j) = parentRuntime (threads s j)" by (subst eq) simp
    moreover have "actualRuntime (threads u j) = actualRuntime (threads s j)" by (subst eq) simp
    ultimately show ?thesis using that by (simp add: t)
  qed
  have other: "threads t j = threads s j" if "j \<noteq> i" "j \<noteq> current" for j
    using sl that by (simp add: t)
  have i: "i = threadIndex s" "threadIndex t = Suc i" using p by (simp_all add: t)
  have new: "t_index (threads t i) = int i" "parentRuntime (threads t i) = 0"
    using sl assms(2) by (simp_all add: t slots_ok_def)
  have "slots_ok t" unfolding slots_ok_def
  proof (intro conjI allI impI)
    show "actualRuntime (threads t 0) = 0" using old [of 0] i(1) assms(2,3) by (simp add: slots_ok_def)
    show "t_index (threads t j) = int j" "parentRuntime (threads t j) = 0" if "j < threadIndex t" for j
      using that i new old [of j] assms(2) by (cases "j = i"; simp add: slots_ok_def)+
    show "threads t j = zero_thread" if "threadIndex t \<le> j" for j
      using that i other [of j] assms(2,3) by (simp add: slots_ok_def)
  qed
  with tab show ?thesis ..
qed

lemma table_exit:
  assumes "table_ok (Suc k) s" and "slots_ok s" and "0 < k" and "thread_join tsc 0 s = Ret r t"
  shows "table_ok k t \<and> slots_ok t"
proof -
  obtain u where m: "markThreadExit tsc s = Ret u t" using assms(4) by (auto simp: thread_join_def bnd_eq_Ret)
  from exit_post [OF m _ assms(3)] assms(1) have p: "unat (aliveThreads t) = k \<and> threadIndex t = threadIndex s \<and>
    threads t = threads s \<and> threadLevel t = (if k = 1 then threadLevel s + 1 else threadLevel s) \<and>
    (threadLevel s < MAX_THREAD_LEVELS \<longrightarrow> threadLevel t < MAX_THREAD_LEVELS) \<and>
    span t = (if k = 1 then (int (threadIndex s), int (threadIndex s)) else span s) \<and>
    isMultithreading t = (k \<noteq> 1 \<and> isMultithreading s)" by (simp add: table_ok_def)
  with assms(1-3) show ?thesis by (auto simp: table_ok_def slots_ok_def split: if_splits)
qed

lemma run_ok:
  assumes "xstep\<^sup>*\<^sup>* p q" and "table_ok (1 + unjoined p + leaked p) (tbl p)" and "slots_ok (tbl p)"
  shows "table_ok (1 + unjoined q + leaked q) (tbl q) \<and> slots_ok (tbl q)"
  using assms(1)
proof (induction rule: rtranclp_induct)
  case base
  show ?case using assms(2,3) by blast
next
  case (step q r)
  from step.hyps(2) show ?case
  proof (cases rule: xstep.cases)
    case (create current tsc gtid fn arg r t)
    with table_create [of "1 + unjoined q + leaked q" "tbl q"] step.IH show ?thesis by simp
  next
    case (create_fails current res tsc gtid fn arg r t)
    with table_create [of "1 + unjoined q + leaked q" "tbl q"] step.IH show ?thesis by simp
  next
    case (begins current self gtid)
    with step.IH show ?thesis
      by (auto simp: table_ok_def slots_ok_def startThread_begin_def setPrivateStackTop_def span_def)
  next
    case (ends current now)
    with step.IH show ?thesis
      by (auto simp: table_ok_def slots_ok_def startThread_end_def span_def)
  next
    case (join tsc r t)
    with table_exit [of "unjoined q + leaked q" "tbl q"] step.IH show ?thesis by simp
  next
    case (join_fails res tsc r t)
    with step.IH show ?thesis by (simp add: thread_join_def)
  qed
qed

section \<open>From the start of the program\<close>

text \<open>The static object before \<open>initialize\<close>: the loader has zeroed it.\<close>

definition loaded :: xthread where
  "loaded = \<lparr>threadIndex = 0, aliveThreads = 0, threads = (\<lambda>_. zero_thread), threadLevel = 0,
     levelInfo = (\<lambda>_. zero_level), isMultithreading = False\<rparr>"

definition booted :: "(nat \<Rightarrow> u64) \<Rightarrow> i32 \<Rightarrow> u64 \<Rightarrow> process \<Rightarrow> bool" where
  "booted tsc gtid self p \<longleftrightarrow>
     initialize_threads tsc gtid self loaded = Ret () (tbl p) \<and> unjoined p = 0 \<and> leaked p = 0"

lemma limits [simp]: "MAX_THREADS = 2048" "MAX_ALIVE_THREADS = 128" "MAX_THREAD_LEVELS = 256"
  by (simp_all add: MAX_THREADS_def MAX_ALIVE_THREADS_def NUM_HEAPS_def MAX_THREAD_LEVELS_def)

definition first_table :: "(nat \<Rightarrow> u64) \<Rightarrow> i32 \<Rightarrow> u64 \<Rightarrow> xthread" where
  "first_table tsc gtid self =
     loaded\<lparr>threadIndex := 1, aliveThreads := 1,
       threads := (\<lambda>_. zero_thread)(0 := zero_thread\<lparr>t_tid := gtid, t_ptid := gtid, t_self := self,
         startTime := start (tsc 0), stackTop := (self + PageSize) AND NOT (PageSize - 1)\<rparr>),
       levelInfo := (\<lambda>_. zero_level)(0 := zero_level\<lparr>l_startTime := start (tsc 1)\<rparr>)\<rparr>"

lemma initialize_Ret: "initialize_threads tsc gtid self loaded = Ret () (first_table tsc gtid self)"
  by (simp add: initialize_threads_def initInitialThread_def getThreadInfoByIndex_def alloc_eq [where k = 0] Let_def startThreadLevelInfo_def upd_level_def
      loaded_def first_table_def setPrivateStackTop_def upd_thread_def fill_slot_def zero_thread_def zero_level_def)

lemma booted_table: "booted tsc gtid self p \<longleftrightarrow> p = \<lparr>tbl = first_table tsc gtid self, unjoined = 0, leaked = 0\<rparr>"
  by (cases p) (auto simp: booted_def initialize_Ret)

lemma booted_ok: "booted tsc gtid self p \<Longrightarrow> table_ok 1 (tbl p) \<and> slots_ok (tbl p)"
  by (simp add: booted_table table_ok_def slots_ok_def first_table_def loaded_def zero_thread_def)

lemma booted_run:
  assumes "booted tsc gtid self p" and "xstep\<^sup>*\<^sup>* p q"
  shows "table_ok (1 + unjoined q + leaked q) (tbl q) \<and> slots_ok (tbl q)"
  using run_ok [OF assms(2)] booted_ok [OF assms(1)] assms(1) by (simp add: booted_def)

definition create_full :: "nat \<Rightarrow> xthread \<Rightarrow> bool" where
  "create_full k s \<longleftrightarrow>
     threadIndex s = MAX_THREADS \<or> k = MAX_ALIVE_THREADS \<or> k = 1 \<and> threadLevel s = MAX_THREAD_LEVELS - 1"

definition join_full :: "nat \<Rightarrow> xthread \<Rightarrow> bool" where
  "join_full k s \<longleftrightarrow> k = 2 \<and> threadLevel s = MAX_THREAD_LEVELS - 1"

lemma table_create_returns:
  assumes "table_ok k s" and "slots_ok s" and "current < threadIndex s"
  shows "thread_create tsc gtid current fn arg res s = Abort \<longleftrightarrow> create_full k s"
    and "\<not> create_full k s \<Longrightarrow> \<exists>t. thread_create tsc gtid current fn arg res s = Ret res t"
proof -
  have k: "unat (aliveThreads s) = k" "k \<le> 128" "0 < k" using assms(1) by (simp_all add: table_ok_def)
  have c: "k = 1 \<or> 1 < k" using k(3) by linarith
  have z: "t_pindex (threads s (threadIndex s)) = 0" using assms(2) by (simp add: slots_ok_def zero_thread_def)
  note e = thread_create_def alloc_eq [OF k(1,2)] Let_def new_phase_def stopThreadLevelInfo_def startThreadLevelInfo_def
    updateThreadLevelInfo_def upd_level_def set_parent_def getParentRuntime_def getThreadInfoByIndex_def
  show "thread_create tsc gtid current fn arg res s = Abort \<longleftrightarrow> create_full k s"
    using c assms(1,3) z by (auto simp: e table_ok_def create_full_def split: if_splits)
  show "\<not> create_full k s \<Longrightarrow> \<exists>t. thread_create tsc gtid current fn arg res s = Ret res t"
    using c assms(1,3) z by (auto simp: e table_ok_def create_full_def split: if_splits)
qed

lemma table_join_returns:
  assumes "table_ok (Suc k) s" and "0 < k"
  shows "thread_join tsc 0 s = Abort \<longleftrightarrow> join_full (Suc k) s"
    and "\<not> join_full (Suc k) s \<Longrightarrow> \<exists>t. thread_join tsc 0 s = Ret 0 t"
proof -
  have "aliveThreads s \<noteq> 0" using assms by (auto simp: table_ok_def)
  then have "unat (aliveThreads s - 1) = k" using assms by (simp add: unat_minus_one table_ok_def)
  then have one: "aliveThreads s - 1 = 1 \<longleftrightarrow> k = 1" by (auto simp: word_unat_eq_iff)
  note e = thread_join_def markThreadExit_def new_phase_def stopThreadLevelInfo_def startThreadLevelInfo_def
    upd_level_def Let_def
  show "thread_join tsc 0 s = Abort \<longleftrightarrow> join_full (Suc k) s"
    using assms one by (auto simp: e table_ok_def join_full_def)
  show "\<not> join_full (Suc k) s \<Longrightarrow> \<exists>t. thread_join tsc 0 s = Ret 0 t"
    using assms one by (auto simp: e table_ok_def join_full_def)
qed

section \<open>Rounds\<close>

text \<open>The main thread creates a thread and joins it, \<open>n\<close> times; and it joins the \<open>n\<close> threads that are
  left.\<close>

fun rounds :: "(nat \<Rightarrow> u64) \<Rightarrow> i32 \<Rightarrow> u64 \<Rightarrow> u64 \<Rightarrow> nat \<Rightarrow> xthread \<Rightarrow> (unit, xthread) out" where
  "rounds tsc gtid fn arg 0 s = Ret () s"
| "rounds tsc gtid fn arg (Suc n) s =
     bnd (rounds tsc gtid fn arg n s) (\<lambda>_ s.
       bnd (thread_create tsc gtid 0 fn arg 0 s) (\<lambda>_ s. bnd (thread_join tsc 0 s) (\<lambda>_ s. Ret () s)))"

fun join_all :: "(nat \<Rightarrow> u64) \<Rightarrow> nat \<Rightarrow> xthread \<Rightarrow> (unit, xthread) out" where
  "join_all tsc 0 s = Ret () s"
| "join_all tsc (Suc n) s = bnd (thread_join tsc 0 s) (\<lambda>_ s. join_all tsc n s)"

lemma create_level:
  assumes "table_ok k s" and "thread_create tsc gtid current fn arg res s = Ret r t"
  shows "threadLevel t = (if k = 1 then threadLevel s + 1 else threadLevel s) \<and> threadIndex t = threadIndex s + 1"
proof -
  from assms(2) obtain i u where a: "allocThreadIndex tsc gtid current s = Ret i u"
    and t: "t = upd_thread i (\<lambda>t. t\<lparr>startRoutine := fn, startArg := arg\<rparr>) u"
    by (auto simp: thread_create_def bnd_eq_Ret)
  show ?thesis using alloc_post [OF a] assms(1) t by (simp add: table_ok_def level_after_def)
qed

lemma join_level:
  assumes "table_ok (Suc k) s" and "0 < k" and "thread_join tsc 0 s = Ret r t"
  shows "threadLevel t = (if k = 1 then threadLevel s + 1 else threadLevel s) \<and> threadIndex t = threadIndex s"
proof -
  obtain u where m: "markThreadExit tsc s = Ret u t" using assms(3) by (auto simp: thread_join_def bnd_eq_Ret)
  show ?thesis using exit_post [OF m] assms(1,2) by (simp add: table_ok_def)
qed

lemma one_round:
  assumes "table_ok 1 s" and "slots_ok s" and "threadLevel s + 2 < MAX_THREAD_LEVELS" and "threadIndex s < MAX_THREADS"
  shows "\<exists>t. bnd (thread_create tsc gtid 0 fn arg 0 s) (\<lambda>_ s. bnd (thread_join tsc 0 s) (\<lambda>_ s. Ret () s)) = Ret () t \<and>
    table_ok 1 t \<and> slots_ok t \<and> threadLevel t = threadLevel s + 2 \<and> threadIndex t = threadIndex s + 1"
proof -
  have c0: "0 < threadIndex s" using assms(1) by (simp add: table_ok_def)
  have "\<not> create_full 1 s" using assms(3,4) by (simp add: create_full_def)
  then obtain t where t: "thread_create tsc gtid 0 fn arg 0 s = Ret 0 t"
    using table_create_returns(2) [OF assms(1,2) c0] by blast
  have ok: "table_ok (Suc 1) t" "slots_ok t" using table_create [OF assms(1,2) c0 t] by simp_all
  have l: "threadLevel t = threadLevel s + 1" "threadIndex t = threadIndex s + 1"
    using create_level [OF assms(1) t] by simp_all
  obtain v where v: "thread_join tsc 0 t = Ret 0 v"
    using table_join_returns(2) [OF ok(1)] l assms(3) by (auto simp: join_full_def)
  show ?thesis
    using t v table_exit [OF ok(1,2) _ v] join_level [OF ok(1) _ v] l by simp
qed

lemma rounds_below:
  assumes "table_ok 1 s" and "slots_ok s" and "threadLevel s = 0" and "threadIndex s = 1" and "n \<le> 127"
  shows "\<exists>t. rounds tsc gtid fn arg n s = Ret () t \<and> table_ok 1 t \<and> slots_ok t \<and>
    threadLevel t = 2 * n \<and> threadIndex t = n + 1"
  using assms(5)
proof (induction n)
  case 0
  then show ?case using assms by simp
next
  case (Suc n)
  then obtain t where "rounds tsc gtid fn arg n s = Ret () t" "table_ok 1 t" "slots_ok t"
    "threadLevel t = 2 * n" "threadIndex t = n + 1" by auto
  with one_round [of t tsc gtid fn arg] Suc.prems show ?case by fastforce
qed

lemma join_all_serial:
  assumes "table_ok (Suc n) s" and "slots_ok s" and "0 < n" and "threadLevel s + 1 < MAX_THREAD_LEVELS"
  shows "\<exists>t. join_all tsc n s = Ret () t \<and> table_ok 1 t \<and> threadLevel t = threadLevel s + 1"
  using assms
proof (induction n arbitrary: s)
  case (Suc n)
  obtain t where t: "thread_join tsc 0 s = Ret 0 t"
    using table_join_returns(2) [OF Suc.prems(1)] Suc.prems(4) by (auto simp: join_full_def)
  have ok: "table_ok (Suc n) t" "slots_ok t" using table_exit [OF Suc.prems(1,2) _ t] by simp_all
  note l = join_level [OF Suc.prems(1) _ t]
  show ?case
  proof (cases "n = 0")
    case True
    then show ?thesis using t ok l by simp
  next
    case False
    then show ?thesis using Suc.IH [OF ok] Suc.prems(4) l t by simp
  qed
qed simp

lemma leaked_mono: "xstep\<^sup>*\<^sup>* p q \<Longrightarrow> leaked p \<le> leaked q"
  by (induction rule: rtranclp_induct) (auto elim!: xstepE)

end
