(* ===== verification/Rounding.thy ===== *)
theory Rounding
  imports Prelude
begin

text \<open>
  The floating point numbers the report is computed in (\<open>source/report.h\<close>), as far as their
  rounding decides what is reported: a real number rounded to the nearest number with a significand
  of 24 bits (\<open>float\<close>) or 53 bits (\<open>double\<close>), a tie to the even one, as the conversions and the
  subtractions of the SSE unit do it. The exponent is not bounded: a rate is 0 or lies between
  \<open>2 powi (-32)\<close> and \<open>2 powi 39\<close>, and so do the differences of two of them that the code compares,
  far inside the range of both formats. The lemmas show that rounding is monotone, keeps the numbers
  of the format, and never moves a number by more than half of a unit in the last place.
\<close>

section \<open>Rounding to an integer\<close>

definition rint :: "real \<Rightarrow> int" where
  "rint x = (let f = \<lfloor>x\<rfloor>; d = x - of_int f in if d < 1 / 2 \<or> (d = 1 / 2 \<and> even f) then f else f + 1)"

lemma rint_of_int [simp]: "rint (of_int i) = i"
  by (simp add: rint_def)

lemma rint_bounds: "\<lfloor>x\<rfloor> \<le> rint x" "rint x \<le> \<lfloor>x\<rfloor> + 1"
  by (simp_all add: rint_def Let_def)

lemma rint_near: "\<bar>of_int (rint x) - x\<bar> \<le> 1 / 2"
proof -
  have "of_int \<lfloor>x\<rfloor> \<le> x" "x < of_int \<lfloor>x\<rfloor> + 1" by linarith+
  then show ?thesis by (auto simp: rint_def Let_def)
qed

lemma rint_mono:
  assumes "x \<le> y"
  shows "rint x \<le> rint y"
proof (cases "\<lfloor>x\<rfloor> = \<lfloor>y\<rfloor>")
  case True
  with assms show ?thesis by (auto simp: rint_def Let_def)
next
  case False
  with floor_mono [OF assms] have "\<lfloor>x\<rfloor> + 1 \<le> \<lfloor>y\<rfloor>" by linarith
  with rint_bounds [of x] rint_bounds [of y] show ?thesis by linarith
qed

lemma rint_minus: "rint (- x) = - rint x"
proof (cases "x = of_int \<lfloor>x\<rfloor>")
  case True
  then show ?thesis by (metis of_int_minus rint_of_int)
next
  case False
  then have "\<lfloor>- x\<rfloor> = - \<lfloor>x\<rfloor> - 1" by linarith
  then show ?thesis by (auto simp: rint_def Let_def)
qed

section \<open>Rounding to a number of bits\<close>

text \<open>The exponent of the leading bit.\<close>

definition binade :: "real \<Rightarrow> int" where
  "binade x = \<lfloor>log 2 \<bar>x\<bar>\<rfloor>"

definition round_to :: "nat \<Rightarrow> real \<Rightarrow> real" where
  "round_to n x = (let u = 2 powi (binade x - (int n - 1)) in of_int (rint (x / u)) * u)"

definition to_float :: "real \<Rightarrow> real" where "to_float = round_to 24"
definition to_double :: "real \<Rightarrow> real" where "to_double = round_to 53"

lemma two_powi_mono: "i \<le> j \<Longrightarrow> (2 :: real) powi i \<le> 2 powi j"
  by (simp add: power_int_increasing)

lemma two_powi_less: "(2 :: real) powi i < 2 powi j \<Longrightarrow> i < j"
  using two_powi_mono [of j i] by (meson not_less)

lemma powr_powi: "(2 :: real) powr of_int i = 2 powi i"
  by (simp add: powr_real_of_int')

lemma two_powi_split: "(2 :: real) powi (k + 1) = 2 ^ n * 2 powi (k - (int n - 1))"
proof -
  have "k + 1 = int n + (k - (int n - 1))" by simp
  then show ?thesis by (metis power_int_add power_int_of_nat zero_neq_numeral)
qed

lemma binade_bounds:
  assumes "x \<noteq> 0"
  shows "2 powi (binade x) \<le> \<bar>x\<bar>" and "\<bar>x\<bar> < 2 powi (binade x + 1)"
proof -
  have p: "0 < \<bar>x\<bar>" using assms by simp
  have "of_int (binade x) \<le> log 2 \<bar>x\<bar>" by (simp add: binade_def)
  then show "2 powi (binade x) \<le> \<bar>x\<bar>" using p by (simp add: le_log_iff powr_powi)
  have "log 2 \<bar>x\<bar> < of_int (binade x + 1)" by (simp add: binade_def)
  then have "\<bar>x\<bar> < 2 powr of_int (binade x + 1)" using p by (simp only: log_less_iff [of 2])
  then show "\<bar>x\<bar> < 2 powi (binade x + 1)" by (simp only: powr_powi)
qed

lemma binade_eq:
  assumes a: "2 powi k \<le> \<bar>x\<bar>" and b: "\<bar>x\<bar> < 2 powi (k + 1)"
  shows "binade x = k"
proof -
  have "0 < \<bar>x\<bar>" using a by (rule less_le_trans [rotated]) simp
  then have x: "x \<noteq> 0" by simp
  have "(2 :: real) powi k < 2 powi (binade x + 1)" "(2 :: real) powi (binade x) < 2 powi (k + 1)"
    using binade_bounds [OF x] a b by linarith+
  then have "k < binade x + 1" "binade x < k + 1" by (auto dest: two_powi_less)
  then show ?thesis by simp
qed

lemma binade_mono:
  assumes "x \<noteq> 0" and "\<bar>x\<bar> \<le> \<bar>y\<bar>"
  shows "binade x \<le> binade y"
proof -
  have "y \<noteq> 0" using assms by auto
  then have "(2 :: real) powi (binade x) < 2 powi (binade y + 1)"
    using binade_bounds(1) [OF assms(1)] binade_bounds(2) [of y] assms(2) by linarith
  then show ?thesis by (auto dest: two_powi_less)
qed

lemma round_to_0 [simp]: "round_to n 0 = 0"
  by (simp add: round_to_def rint_def)

lemma round_to_minus: "round_to n (- x) = - round_to n x"
  by (simp add: round_to_def rint_minus binade_def Let_def)

lemma round_to_binade:
  assumes "binade x = k"
  shows "round_to n x = of_int (rint (x / 2 powi (k - (int n - 1)))) * 2 powi (k - (int n - 1))"
  using assms by (simp add: round_to_def Let_def)

text \<open>A number with a significand of the width is kept.\<close>

lemma round_to_grid:
  assumes "x = of_int m * 2 powi (binade x - (int n - 1) + int j)"
  shows "round_to n x = x"
proof -
  have "x / 2 powi (binade x - (int n - 1)) = of_int (m * 2 ^ j)"
    by (subst (1) assms) (simp add: power_int_add)
  then have "round_to n x = of_int (m * 2 ^ j) * 2 powi (binade x - (int n - 1))"
    by (simp only: round_to_def Let_def rint_of_int)
  also have "\<dots> = x" by (subst (2) assms) (simp add: power_int_add)
  finally show ?thesis .
qed

lemma round_to_exact:
  assumes "\<bar>m\<bar> \<le> 2 ^ n" and "0 < n"
  shows "round_to n (of_int m * 2 powi k) = of_int m * 2 powi k"
proof (cases "m = 0 \<or> \<bar>m\<bar> = 2 ^ n")
  case False
  let ?x = "of_int m * 2 powi k :: real"
  have x: "?x \<noteq> 0" using False by simp
  have "\<bar>m\<bar> < 2 ^ n" using False assms(1) by simp
  then have "real_of_int \<bar>m\<bar> < 2 powi int n" by (simp flip: of_int_less_iff [where 'a = real])
  then have "\<bar>?x\<bar> < 2 powi int n * 2 powi k" by (simp add: abs_mult)
  then have "2 powi (binade ?x) < (2 powi (int n + k) :: real)"
    using binade_bounds(1) [OF x] by (simp add: power_int_add)
  then have "binade ?x < int n + k" by (rule two_powi_less)
  then have k: "k = binade ?x - (int n - 1) + int (nat (k - binade ?x + (int n - 1)))" by simp
  show ?thesis by (rule round_to_grid [of ?x m n "nat (k - binade ?x + (int n - 1))"]) (subst k [symmetric], rule refl)
next
  case True
  show ?thesis
  proof (cases "m = 0")
    case m: False
    let ?x = "of_int m * 2 powi k :: real"
    have s: "m = sgn m * 2 ^ n" using True m by (metis abs_mult_sgn mult.commute)
    have "\<bar>real_of_int m\<bar> = 2 powi int n" using True m by (simp flip: of_int_abs)
    then have "\<bar>?x\<bar> = 2 powi (int n + k)" by (simp add: abs_mult power_int_add)
    then have b: "binade ?x = int n + k" by (intro binade_eq) (simp_all add: power_int_add)
    have "?x = of_int (sgn m) * 2 powi (int n + k)" by (subst s) (simp add: power_int_add)
    moreover have "binade ?x - (int n - 1) + int (n - 1) = int n + k" using b assms(2) by simp
    ultimately show ?thesis by (intro round_to_grid [where m = "sgn m" and j = "n - 1"]) (simp only:)
  qed simp
qed

text \<open>What is rounded is such a number.\<close>

lemma round_to_sig:
  assumes "0 < n"
  obtains m where "round_to n x = of_int m * 2 powi (binade x - (int n - 1))" and "\<bar>m\<bar> \<le> 2 ^ n"
    and "0 < x \<Longrightarrow> 2 ^ (n - 1) \<le> m"
proof (cases "x = 0")
  case True
  then show thesis using that [of 0] by simp
next
  case False
  let ?u = "2 powi (binade x - (int n - 1)) :: real"
  have n: "int (n - 1) = int n - 1" using assms by simp
  have "binade x = int (n - 1) + (binade x - (int n - 1))" using assms by linarith
  then have lo: "2 powi (binade x) = 2 ^ (n - 1) * ?u"
    by (metis power_int_add power_int_of_nat zero_neq_numeral)
  have hi: "2 powi (binade x + 1) = 2 ^ n * ?u" by (rule two_powi_split)
  have u: "0 < ?u" by simp
  have b: "2 ^ (n - 1) \<le> \<bar>x\<bar> / ?u" "\<bar>x\<bar> / ?u \<le> 2 ^ n"
    using binade_bounds [OF False] u by (simp_all only: lo hi pos_le_divide_eq pos_divide_le_eq)
  have r: "rint (of_int (2 ^ n)) = 2 ^ n" "rint (of_int (- (2 ^ n))) = - (2 ^ n)" "rint (of_int (2 ^ (n - 1))) = 2 ^ (n - 1)"
    by (simp_all only: rint_of_int)
  have "- (2 ^ n) \<le> x / ?u" "x / ?u \<le> 2 ^ n" using b(2) u by (auto simp: abs_le_iff pos_divide_le_eq pos_le_divide_eq)
  then have "- (2 ^ n) \<le> rint (x / ?u)" "rint (x / ?u) \<le> 2 ^ n"
    using rint_mono [of "of_int (- (2 ^ n))" "x / ?u"] rint_mono [of "x / ?u" "of_int (2 ^ n)"] r by simp_all
  moreover have "2 ^ (n - 1) \<le> rint (x / ?u)" if "0 < x"
    using rint_mono [of "of_int (2 ^ (n - 1))" "x / ?u"] r b(1) that by simp
  ultimately show thesis by (intro that) (auto simp: round_to_def Let_def)
qed

lemma round_to_idem:
  assumes "0 < n"
  shows "round_to n (round_to n x) = round_to n x"
  using round_to_sig [OF assms, of x] round_to_exact [OF _ assms] by metis

lemma round_to_nonneg: "0 \<le> x \<Longrightarrow> 0 \<le> round_to n x"
  using rint_mono [of 0 "x / 2 powi (binade x - (int n - 1))"] rint_of_int [of 0] by (simp add: round_to_def Let_def)

lemma round_to_mono_pos:
  assumes "0 < n" and "0 < x" and "x \<le> y"
  shows "round_to n x \<le> round_to n y"
proof (cases "binade x = binade y")
  case True
  have "x / 2 powi (binade x - (int n - 1)) \<le> y / 2 powi (binade x - (int n - 1))"
    using assms(3) by (simp add: divide_right_mono)
  from rint_mono [OF this] show ?thesis by (simp add: round_to_def Let_def True)
next
  case False
  then have b: "binade x + 1 \<le> binade y" using binade_mono [of x y] assms by simp
  obtain i where i: "round_to n x = of_int i * 2 powi (binade x - (int n - 1))" "\<bar>i\<bar> \<le> 2 ^ n"
    using round_to_sig [OF assms(1)] by blast
  obtain j where j: "round_to n y = of_int j * 2 powi (binade y - (int n - 1))" "2 ^ (n - 1) \<le> j"
    using round_to_sig [OF assms(1), of y] assms(2,3) by (metis less_le_trans)
  then have "real_of_int (2 ^ (n - 1)) \<le> real_of_int j" by (simp only: of_int_le_iff)
  then have j': "2 powi int (n - 1) \<le> real_of_int j" by simp
  have "i \<le> 2 ^ n" using i(2) by linarith
  then have "real_of_int i \<le> real_of_int (2 ^ n)" by (simp only: of_int_le_iff)
  then have "real_of_int i \<le> 2 powi int n" by simp
  then have "round_to n x \<le> 2 powi int n * 2 powi (binade x - (int n - 1))"
    unfolding i(1) by (intro mult_right_mono) simp_all
  also have "\<dots> = 2 powi (binade x + 1)" by (simp only: two_powi_split [of _ n] power_int_of_nat)
  also have "\<dots> \<le> 2 powi (binade y)" using b by (rule two_powi_mono)
  also have "binade y = int (n - 1) + (binade y - (int n - 1))" using assms(1) by linarith
  also have "2 powi \<dots> = 2 powi int (n - 1) * (2 powi (binade y - (int n - 1)) :: real)" by (rule power_int_add) simp
  also have "\<dots> \<le> round_to n y"
    unfolding j(1) using j' by (intro mult_right_mono) simp_all
  finally show ?thesis .
qed

lemma round_to_mono:
  assumes "0 < n" and "x \<le> y"
  shows "round_to n x \<le> round_to n y"
proof -
  consider "0 < x" | "x \<le> 0" "0 \<le> y" | "y < 0" by linarith
  then show ?thesis
  proof cases
    case 1
    then show ?thesis by (rule round_to_mono_pos [OF assms(1) _ assms(2)])
  next
    case 2
    have "0 \<le> round_to n (- x)" using 2 by (intro round_to_nonneg) simp
    moreover have "0 \<le> round_to n y" using 2 by (intro round_to_nonneg)
    ultimately show ?thesis by (simp add: round_to_minus)
  next
    case 3
    have "round_to n (- y) \<le> round_to n (- x)"
      using 3 assms by (intro round_to_mono_pos) simp_all
    then show ?thesis by (simp add: round_to_minus)
  qed
qed

text \<open>The error is at most half of the last place.\<close>

lemma round_to_near: "\<bar>round_to n x - x\<bar> \<le> 2 powi (binade x - int n)"
proof -
  let ?u = "2 powi (binade x - (int n - 1)) :: real"
  have u: "0 < ?u" by simp
  have "?u = 2 powi (1 + (binade x - int n))" by (simp add: algebra_simps)
  also have "\<dots> = 2 * 2 powi (binade x - int n)" by (simp add: power_int_add)
  finally have h: "?u = 2 * 2 powi (binade x - int n)" .
  have "round_to n x - x = (of_int (rint (x / ?u)) - x / ?u) * ?u" using u by (simp add: round_to_def Let_def field_simps)
  then have "\<bar>round_to n x - x\<bar> = \<bar>of_int (rint (x / ?u)) - x / ?u\<bar> * ?u" by (simp add: abs_mult)
  also have "\<dots> \<le> 1 / 2 * ?u" using rint_near u by (intro mult_right_mono) simp_all
  finally show ?thesis by (simp add: h)
qed

section \<open>Floats and doubles\<close>

lemmas to_float_mono = round_to_mono [of 24, folded to_float_def, simplified]
lemmas to_double_mono = round_to_mono [of 53, folded to_double_def, simplified]
lemmas to_float_idem = round_to_idem [of 24, folded to_float_def, simplified]
lemmas to_float_exact = round_to_exact [of _ 24, folded to_float_def, OF _ zero_less_numeral]
lemmas to_float_0 = round_to_0 [of 24, folded to_float_def]

text \<open>A rate as it is kept in a \<open>float\<close>: rounded to a \<open>double\<close> by the division and to a \<open>float\<close> by the
  assignment.\<close>

definition narrow :: "real \<Rightarrow> real" where
  "narrow x = to_float (to_double x)"

lemma narrow_mono: "x \<le> y \<Longrightarrow> narrow x \<le> narrow y"
  unfolding narrow_def by (intro to_float_mono to_double_mono)

lemma to_float_narrow [simp]: "to_float (narrow x) = narrow x"
  by (simp add: narrow_def to_float_idem)

text \<open>Evaluation at a number of a known binade.\<close>

lemma round_to_eq:
  assumes "2 powi k \<le> \<bar>x\<bar>" and "\<bar>x\<bar> < 2 powi (k + 1)"
    and "\<bar>of_int m - x * 2 powi (int n - 1 - k)\<bar> < 1 / 2"
  shows "round_to n x = of_int m * 2 powi (k - (int n - 1))"
proof -
  have e: "(2 :: real) powi (int n - 1 - k) = 1 / 2 powi (k - (int n - 1))"
    by (metis inverse_eq_divide minus_diff_eq power_int_minus)
  have near: "rint y = m" if "\<bar>of_int m - y\<bar> < 1 / 2" for y
    using rint_near [of y] that by linarith
  show ?thesis unfolding round_to_binade [OF binade_eq [OF assms(1,2)]] using near assms(3) by (simp add: e)
qed

end
