(* ===== verification/Report.thy ===== *)
theory Report
  imports MutexManager XThread Rounding "HOL-Library.List_Lexorder" "HOL-Library.Char_ord"
begin

unbundle bit_operations_syntax

text \<open>
  The report at the end of the program (\<open>source/report.h\<close>), as the Makefile builds it, with
  \<open>COMBINED_REPORT\<close> and \<open>REPORT_LINE_INFO\<close>: adding up the counters of all threads for each mutex,
  the rates, the text of the contexts, the three lists of the report, and the call stacks whose
  locks are unlike each other. What \<open>addr2line\<close> prints for an address is an argument. A waiting time, a
  rate and a frequency, all of type \<open>double\<close>, are real numbers; where a rate is narrowed to a \<open>float\<close> and
  compared as one, the rounding decides the result and is modelled (theory \<open>Rounding\<close>). \<open>std::map\<close> is a list sorted by key, the order it is iterated in.
\<close>

section \<open>Data\<close>

text \<open>\<open>line_info\<close> is one block of memory, a row of \<open>LINE_LEN\<close> characters after the other.\<close>

definition LINE_LEN :: nat where "LINE_LEN = MAX_CALL_STACK_DEPTH * 50"

record sync_perf_t =
  line_info :: "nat \<Rightarrow> char"
  conflict_rate :: real
  frequency :: real
  line_count :: nat

definition THRESHOLD_CONFLICT :: real where "THRESHOLD_CONFLICT = 5"
definition THRESHOLD_FREQUENCY :: real where "THRESHOLD_FREQUENCY = 1"

type_synonym call_map = "(string \<times> real list) list"

record totals =
  total_access_count :: u32
  total_fail_count :: u32
  total_cond_wait :: u32
  total_trylock_fails :: u32
  total_wait_time :: real
  total_lock_wait :: real

record report =
  high_conflict_high_freq :: "sync_perf_t list"
  high_conflict_low_freq :: "sync_perf_t list"
  low_conflict_high_freq :: "sync_perf_t list"
  call_stack_map :: call_map
  thread_waits :: "nat \<Rightarrow> real"
  lock_id :: nat

definition zero_totals :: totals where
  "zero_totals = \<lparr>total_access_count = 0, total_fail_count = 0, total_cond_wait = 0, total_trylock_fails = 0,
     total_wait_time = 0, total_lock_wait = 0\<rparr>"

definition new_report :: report where
  "new_report = \<lparr>high_conflict_high_freq = [], high_conflict_low_freq = [], low_conflict_high_freq = [],
     call_stack_map = [], thread_waits = (\<lambda>_. 0), lock_id = 0\<rparr>"

section \<open>Call stacks as text\<close>

text \<open>The file name after the last slash of either kind. Erasing the last character of an empty
  string throws, which nothing catches. \<open>addr2line c\<close> is the line that is read for an address, \<open>None\<close> if
  the command for it does not fit in its buffer.\<close>

definition source_name :: "string \<Rightarrow> string" where
  "source_name line = rev (takeWhile (\<lambda>c. c \<noteq> CHR ''/'' \<and> c \<noteq> CHR 0x5C) (rev line))"

fun get_call_stack_string :: "(u64 \<Rightarrow> string option) \<Rightarrow> u64 list \<Rightarrow> string option" where
  "get_call_stack_string addr2line [] = None"
| "get_call_stack_string addr2line (c # cs) =
     (if c = 0 then Some []
      else case addr2line c of None \<Rightarrow> None
      | Some line \<Rightarrow>
          if line = [] \<or> hd line \<noteq> CHR ''?'' then
            let name = source_name line in
            if name = [] then None
            else map_option (\<lambda>rest. butlast name @ '' '' @ rest) (get_call_stack_string addr2line cs)
          else get_call_stack_string addr2line cs)"

definition nul :: char where "nul = CHR 0x00"

definition c_str :: "string \<Rightarrow> string" where
  "c_str str = takeWhile (\<lambda>c. c \<noteq> nul) str"

definition strcpy_line :: "nat \<Rightarrow> string \<Rightarrow> sync_perf_t \<Rightarrow> (unit, sync_perf_t) out" where
  "strcpy_line con str e =
     (let p = con * LINE_LEN; n = length (c_str str) in
      assrt (p + n < MAX_NUM_STACKS * LINE_LEN)
        (Ret () (e\<lparr>line_info := (\<lambda>k. if p \<le> k \<and> k < p + n then str ! (k - p)
                                     else if k = p + n then nul else line_info e k)\<rparr>)))"

text \<open>Reading a row as a C string; \<open>n\<close> is what is left of the block.\<close>

fun c_string :: "nat \<Rightarrow> (nat \<Rightarrow> char) \<Rightarrow> nat \<Rightarrow> string" where
  "c_string 0 b k = []"
| "c_string (Suc n) b k = (if b k = nul then [] else b k # c_string n b (Suc k))"

definition line_at :: "sync_perf_t \<Rightarrow> nat \<Rightarrow> string" where
  "line_at e con = c_string (MAX_NUM_STACKS * LINE_LEN - con * LINE_LEN) (line_info e) (con * LINE_LEN)"

section \<open>Asymmetric locks\<close>

fun updateCallStackMap :: "string \<Rightarrow> real \<Rightarrow> call_map \<Rightarrow> call_map" where
  "updateCallStackMap k r [] = [(k, [r])]"
| "updateCallStackMap k r ((k', rs) # m) =
     (if k = k' then (k', rs @ [r]) # m
      else if k < k' then (k, [r]) # (k', rs) # m
      else (k', rs) # updateCallStackMap k r m)"

text \<open>An element of the vector is the \<open>double\<close> nearest to the rate; \<open>min\<close> and \<open>max\<close> are of type \<open>float\<close>.
  A comparison promotes the \<open>float\<close>, an assignment narrows the \<open>double\<close>, and the difference is taken
  in \<open>float\<close>.\<close>

fun min_max :: "real \<Rightarrow> real \<Rightarrow> real list \<Rightarrow> real \<times> real" where
  "min_max mn mx [] = (mn, mx)"
| "min_max mn mx (x # xs) =
     (let d = to_double x in
      min_max (if mn > d then to_float d else mn) (if mx < d then to_float d else mx) xs)"

fun findAsymmetricLock :: "call_map \<Rightarrow> string list \<Rightarrow> string list" where
  "findAsymmetricLock [] results = results"
| "findAsymmetricLock ((k, rs) # m) results =
     findAsymmetricLock m
       (if length rs > 1
        then (let first = to_float (to_double (hd rs)) in
              case min_max first first rs of (mn, mx) \<Rightarrow> if to_float (mx - mn) > 10 then results @ [k] else results)
        else results)"

section \<open>One mutex\<close>

definition sum_thread :: "nptl \<Rightarrow> u64 \<Rightarrow> nat \<Rightarrow> totals \<times> (nat \<Rightarrow> real) \<Rightarrow> totals \<times> (nat \<Rightarrow> real)" where
  "sum_thread s ei idx tw =
     (let (t, w) = tw; d = tsd s (get_thread_mutex_data ei idx) in
      (\<lparr>total_access_count = total_access_count t + access_count d, total_fail_count = total_fail_count t + fail_count d,
        total_cond_wait = total_cond_wait t + cond_waits d,
        total_trylock_fails = total_trylock_fails t + trylock_fail_count d,
        total_wait_time = total_wait_time t + cond_futex_wait d, total_lock_wait = total_lock_wait t + futex_wait d\<rparr>,
       w(idx := w idx + (cond_futex_wait d + futex_wait d))))"

fun report_contexts ::
  "(u64 \<Rightarrow> string option) \<Rightarrow> mutex_t \<Rightarrow> nat list \<Rightarrow> sync_perf_t \<Rightarrow> call_map \<Rightarrow> (sync_perf_t, call_map) out" where
  "report_contexts addr2line m [] e cm = Ret e cm"
| "report_contexts addr2line m (con # cons) e cm =
     (case get_call_stack_string addr2line (stacks m ! con) of
        None \<Rightarrow> Abort
      | Some str \<Rightarrow>
          let cm = updateCallStackMap str (conflict_rate e) cm in
          assrt (length str \<le> LINE_LEN)
            (bnd (strcpy_line con str e) (\<lambda>_ e.
               report_contexts addr2line m cons (e\<lparr>line_count := line_count e + 1\<rparr>) cm)))"

definition classify :: "sync_perf_t \<Rightarrow> report \<Rightarrow> report" where
  "classify e r =
     (if conflict_rate e > THRESHOLD_CONFLICT then
        if frequency e > THRESHOLD_FREQUENCY
        then r\<lparr>high_conflict_high_freq := high_conflict_high_freq r @ [e]\<rparr>
        else r\<lparr>high_conflict_low_freq := high_conflict_low_freq r @ [e]\<rparr>
      else if frequency e > THRESHOLD_FREQUENCY
        then r\<lparr>low_conflict_high_freq := low_conflict_high_freq r @ [e]\<rparr>
        else r)"

text \<open>\<open>raw\<close> is the stack memory the local \<open>sync_perf_entry\<close> is found in.\<close>

definition report_mutex ::
  "(u64 \<Rightarrow> string option) \<Rightarrow> sync_perf_t \<Rightarrow> real \<Rightarrow> nat \<Rightarrow> nptl \<Rightarrow> nat \<Rightarrow> report \<Rightarrow> (unit, report) out" where
  "report_mutex addr2line raw elapsed total_threads s i r =
     (let m = pool s i in
      assrt (entry_index m = word_of_nat i)
        (let (t, w) = fold (sum_thread s (entry_index m)) [0..<total_threads] (zero_totals, thread_waits r);
             r = r\<lparr>thread_waits := w\<rparr>;
             e = raw\<lparr>line_count := 0\<rparr>
         in if total_access_count t > 0 then
              let r = r\<lparr>lock_id := lock_id r + 1\<rparr>;
                  e = e\<lparr>conflict_rate := real (unat (100 * total_fail_count t)) / real (unat (total_access_count t))\<rparr>;
                  e = e\<lparr>frequency := real (unat (total_access_count t)) / elapsed\<rparr>
              in bnd (report_contexts addr2line m [0..<stack_count m] e (call_stack_map r)) (\<lambda>e cm.
                   Ret () (classify e (r\<lparr>call_stack_map := cm\<rparr>)))
            else Ret () r))"

fun report_all ::
  "(u64 \<Rightarrow> string option) \<Rightarrow> (nat \<Rightarrow> sync_perf_t) \<Rightarrow> real \<Rightarrow> nat \<Rightarrow> nptl \<Rightarrow> nat list \<Rightarrow> report \<Rightarrow> (unit, report) out" where
  "report_all addr2line raw elapsed n s [] r = Ret () r"
| "report_all addr2line raw elapsed n s (i # is) r =
     bnd (report_mutex addr2line (raw i) elapsed n s i r) (\<lambda>_ r. report_all addr2line raw elapsed n s is r)"

definition elapsed_time_for_freq :: "xthread \<Rightarrow> real" where
  "elapsed_time_for_freq x =
     (let e = elapse (levelInfo x (threadLevel x)) in if e < 1000 then 1000 else e)"

text \<open>The whole: the report, and as its value the asymmetric locks.\<close>

definition print_report ::
  "(u64 \<Rightarrow> string option) \<Rightarrow> (nat \<Rightarrow> sync_perf_t) \<Rightarrow> xthread \<Rightarrow> nptl \<Rightarrow> (string list, report) out" where
  "print_report addr2line raw x s =
     (let total_threads = threadIndex x;
          total_sync_vars = nat (sint (ucast (getEntriesNumb (sync_vars s)) :: i32))
      in bnd (report_all addr2line raw (elapsed_time_for_freq x) total_threads s [0..<total_sync_vars] new_report)
           (\<lambda>_ r. Ret (findAsymmetricLock (call_stack_map r) []) r))"

section \<open>Adding up\<close>

definition accesses_of :: "nptl \<Rightarrow> nat \<Rightarrow> nat \<Rightarrow> u32" where
  "accesses_of s n i = (\<Sum>idx\<leftarrow>[0..<n]. access_count (tsd s (get_thread_mutex_data (word_of_nat i) idx)))"

definition fails_of :: "nptl \<Rightarrow> nat \<Rightarrow> nat \<Rightarrow> u32" where
  "fails_of s n i = (\<Sum>idx\<leftarrow>[0..<n]. fail_count (tsd s (get_thread_mutex_data (word_of_nat i) idx)))"

definition waits_of :: "nptl \<Rightarrow> nat \<Rightarrow> nat \<Rightarrow> real" where
  "waits_of s i idx = (let d = tsd s (get_thread_mutex_data (word_of_nat i) idx) in cond_futex_wait d + futex_wait d)"

definition rate_of :: "nptl \<Rightarrow> nat \<Rightarrow> nat \<Rightarrow> real" where
  "rate_of s n i = real (unat (100 * fails_of s n i)) / real (unat (accesses_of s n i))"

definition freq_of :: "nptl \<Rightarrow> nat \<Rightarrow> real \<Rightarrow> nat \<Rightarrow> real" where
  "freq_of s n el i = real (unat (accesses_of s n i)) / el"

lemma fold_sum_thread:
  "total_access_count (fst (fold (sum_thread s (word_of_nat i)) [0..<n] (t, w))) = total_access_count t + accesses_of s n i"
  "total_fail_count (fst (fold (sum_thread s (word_of_nat i)) [0..<n] (t, w))) = total_fail_count t + fails_of s n i"
  "snd (fold (sum_thread s (word_of_nat i)) [0..<n] (t, w)) = (\<lambda>k. if k < n then w k + waits_of s i k else w k)"
  by (induction n) (auto simp: sum_thread_def accesses_of_def fails_of_def waits_of_def Let_def split_beta fun_eq_iff)

section \<open>The map of call stacks\<close>

definition rates :: "string \<Rightarrow> call_map \<Rightarrow> real list" where
  "rates k m = (case map_of m k of None \<Rightarrow> [] | Some rs \<Rightarrow> rs)"

definition map_ok :: "call_map \<Rightarrow> bool" where
  "map_ok m \<longleftrightarrow> sorted_wrt (<) (map fst m) \<and> (\<forall>x\<in>set m. snd x \<noteq> [])"

lemma update_keys: "set (map fst (updateCallStackMap k r m)) = insert k (set (map fst m))"
  by (induction k r m rule: updateCallStackMap.induct) auto

lemma update_ok: "map_ok m \<Longrightarrow> map_ok (updateCallStackMap k r m)"
  unfolding map_ok_def
proof (induction k r m rule: updateCallStackMap.induct)
  case (2 k r k' rs m)
  then show ?case using update_keys [of k r m] by (auto simp del: set_map)
qed simp

lemma update_rates:
  "map_ok m \<Longrightarrow> rates k' (updateCallStackMap k r m) = (if k' = k then rates k m @ [r] else rates k' m)"
proof (induction k r m rule: updateCallStackMap.induct)
  case (1 k r)
  then show ?case by (simp add: rates_def)
next
  case (2 k r k1 rs m)
  have "map_ok m" using "2.prems" by (simp add: map_ok_def)
  moreover have "k < k1 \<Longrightarrow> map_of m k = None"
    using "2.prems" by (auto simp: map_ok_def map_of_eq_None_iff)
  ultimately show ?case using 2 by (auto simp: rates_def)
qed

text \<open>The interface the contexts use: a map from keys to lists of values, that puts a value behind the
  others of its key.\<close>

locale multimap =
  fixes look :: "'k \<Rightarrow> 'm \<Rightarrow> 'v list" and put :: "'k \<Rightarrow> 'v \<Rightarrow> 'm \<Rightarrow> 'm" and ok :: "'m \<Rightarrow> bool"
  assumes ok_put: "ok m \<Longrightarrow> ok (put k v m)"
    and look_put: "ok m \<Longrightarrow> look k' (put k v m) = (if k' = k then look k m @ [v] else look k' m)"
begin

lemma put_all:
  "ok m \<Longrightarrow> ok (fold (\<lambda>k. put k v) ks m) \<and>
    look k' (fold (\<lambda>k. put k v) ks m) = look k' m @ replicate (length (filter (\<lambda>k. k = k') ks)) v"
  by (induction ks arbitrary: m) (auto simp: ok_put look_put)

end

interpretation cm: multimap rates updateCallStackMap map_ok
  by unfold_locales (simp_all add: update_ok update_rates)

text \<open>Rates are unlike each other if, narrowed to \<open>float\<close>, the greatest exceeds the least by more than 10, as
  far as a \<open>float\<close> can tell.\<close>

definition unlike :: "real list \<Rightarrow> bool" where
  "unlike rs \<longleftrightarrow> length rs > 1 \<and> to_float (Max (narrow ` set rs) - Min (narrow ` set rs)) > 10"

lemma less_double: "narrow y > to_double x \<Longrightarrow> narrow x \<le> narrow y"
  using to_float_mono [of "to_double x" "narrow y"] by (simp add: narrow_def [of x])

lemma not_less_double: "\<not> narrow y > to_double x \<Longrightarrow> narrow y \<le> narrow x"
  using to_float_mono [of "narrow y" "to_double x"] by (simp add: narrow_def [of x])

lemma greater_double: "narrow y < to_double x \<Longrightarrow> narrow y \<le> narrow x"
  using to_float_mono [of "narrow y" "to_double x"] by (simp add: narrow_def [of x])

lemma not_greater_double: "\<not> narrow y < to_double x \<Longrightarrow> narrow x \<le> narrow y"
  using to_float_mono [of "to_double x" "narrow y"] by (simp add: narrow_def [of x])

lemma min_max_eq:
  "min_max (narrow a) (narrow b) xs = (Min (narrow ` set (a # xs)), Max (narrow ` set (b # xs)))"
proof (induction xs arbitrary: a b)
  case (Cons x xs)
  let ?a = "if narrow a > to_double x then x else a" and ?b = "if narrow b < to_double x then x else b"
  have mn: "Min (narrow ` insert ?a (set xs)) = Min (narrow ` insert a (insert x (set xs)))"
    using less_double [of x a] not_less_double [of x a] by (cases "set xs = {}") (auto simp: min_def)
  have mx: "Max (narrow ` insert ?b (set xs)) = Max (narrow ` insert b (insert x (set xs)))"
    using greater_double [of b x] not_greater_double [of b x] by (cases "set xs = {}") (auto simp: max_def)
  have "min_max (narrow a) (narrow b) (x # xs) = min_max (narrow ?a) (narrow ?b) xs"
    by (simp add: Let_def narrow_def)
  also have "\<dots> = (Min (narrow ` insert ?a (set xs)), Max (narrow ` insert ?b (set xs)))"
    using Cons.IH [of ?a ?b] by (simp only: list.set)
  finally show ?case by (simp only: mn mx list.set)
qed simp

lemma find_eq: "findAsymmetricLock m res = res @ map fst (filter (\<lambda>x. unlike (snd x)) m)"
proof (induction m res rule: findAsymmetricLock.induct)
  case (2 k rs m res)
  have "set (hd rs # rs) = set rs" if "length rs > 1" using that by (cases rs) auto
  moreover have "min_max (to_float (to_double (hd rs))) (to_float (to_double (hd rs))) rs =
      (Min (narrow ` set (hd rs # rs)), Max (narrow ` set (hd rs # rs)))"
    using min_max_eq [of "hd rs" "hd rs" rs] by (simp only: narrow_def)
  ultimately have "length rs > 1 \<Longrightarrow> min_max (to_float (to_double (hd rs))) (to_float (to_double (hd rs))) rs =
      (Min (narrow ` set rs), Max (narrow ` set rs))" by simp
  then show ?case using 2 by (auto simp: unlike_def Let_def)
qed simp

text \<open>The keys found are those of the map whose rates are unlike each other, in order.\<close>

lemma find_exact:
  assumes "map_ok m"
  shows "sorted_wrt (<) (findAsymmetricLock m [])" and "set (findAsymmetricLock m []) = {k. unlike (rates k m)}"
proof -
  have s: "sorted_wrt (<) (map fst m)" using assms by (simp add: map_ok_def)
  then have d: "distinct (map fst m)" by (simp add: strict_sorted_iff)
  show "sorted_wrt (<) (findAsymmetricLock m [])" using s by (simp add: find_eq sorted_wrt_map sorted_wrt_filter)
  have "(k, rs) \<in> set m \<Longrightarrow> rates k m = rs" for k rs using d by (simp add: rates_def)
  moreover have "unlike (rates k m) \<Longrightarrow> (k, rates k m) \<in> set m" for k
    by (auto simp: rates_def unlike_def map_of_SomeD split: option.splits)
  ultimately show "set (findAsymmetricLock m []) = {k. unlike (rates k m)}"
    by (force simp: find_eq image_iff)
qed

section \<open>Contexts\<close>

definition context_string :: "(u64 \<Rightarrow> string option) \<Rightarrow> nptl \<Rightarrow> nat \<Rightarrow> nat \<Rightarrow> string" where
  "context_string addr2line s i con = the (get_call_stack_string addr2line (stacks (pool s i) ! con))"

definition context_rates :: "(u64 \<Rightarrow> string option) \<Rightarrow> nptl \<Rightarrow> nat \<Rightarrow> nat \<Rightarrow> string \<Rightarrow> real list" where
  "context_rates addr2line s n i k =
     (if accesses_of s n i = 0 then []
      else replicate (length (filter (\<lambda>con. context_string addr2line s i con = k) [0..<stack_count (pool s i)])) (rate_of s n i))"

lemma strcpy_line_frame:
  "strcpy_line con str e = Ret u e' \<Longrightarrow> conflict_rate e' = conflict_rate e \<and> frequency e' = frequency e \<and> line_count e' = line_count e"
  by (auto simp: strcpy_line_def Let_def assrt_eq_Ret)

lemma report_contexts_fold:
  assumes "report_contexts addr2line m cons e cm = Ret e' cm'"
  shows "conflict_rate e' = conflict_rate e \<and> frequency e' = frequency e \<and> line_count e' = line_count e + length cons \<and>
    cm' = fold (\<lambda>k. updateCallStackMap k (conflict_rate e))
      (map (\<lambda>con. the (get_call_stack_string addr2line (stacks m ! con))) cons) cm"
  using assms
proof (induction cons arbitrary: e cm)
  case (Cons con cons)
  then obtain str e1 where str: "get_call_stack_string addr2line (stacks m ! con) = Some str"
    and e1: "strcpy_line con str e = Ret () e1"
    and r: "report_contexts addr2line m cons (e1\<lparr>line_count := line_count e1 + 1\<rparr>)
      (updateCallStackMap str (conflict_rate e) cm) = Ret e' cm'"
    by (auto simp: assrt_eq_Ret bnd_eq_Ret split: option.splits)
  from Cons.IH [OF r] strcpy_line_frame [OF e1] str show ?case by simp
qed simp

lemma report_contexts_Ret:
  assumes "report_contexts addr2line m cons e cm = Ret e' cm'" and "map_ok cm"
  shows "conflict_rate e' = conflict_rate e \<and> frequency e' = frequency e \<and> line_count e' = line_count e + length cons \<and>
    map_ok cm' \<and> (\<forall>k. rates k cm' = rates k cm @ replicate (length (filter (\<lambda>con.
      the (get_call_stack_string addr2line (stacks m ! con)) = k) cons)) (conflict_rate e))"
  using report_contexts_fold [OF assms(1)] cm.put_all [OF assms(2)] by (simp add: filter_map comp_def)

section \<open>The three lists\<close>

text \<open>What an entry of a list says: its rate, its frequency and its number of lines.\<close>

definition view :: "sync_perf_t \<Rightarrow> real \<times> real \<times> nat" where
  "view e = (conflict_rate e, frequency e, line_count e)"

definition perf_of :: "nptl \<Rightarrow> nat \<Rightarrow> real \<Rightarrow> nat \<Rightarrow> real \<times> real \<times> nat" where
  "perf_of s n el i = (rate_of s n i, freq_of s n el i, stack_count (pool s i))"

definition chosen :: "nptl \<Rightarrow> nat \<Rightarrow> real \<Rightarrow> bool \<Rightarrow> bool \<Rightarrow> nat list \<Rightarrow> nat list" where
  "chosen s n el conflict frequent is = filter (\<lambda>i. accesses_of s n i \<noteq> 0 \<and>
     (rate_of s n i > 5) = conflict \<and> (freq_of s n el i > 1) = frequent) is"

lemma classify_view:
  "map view (high_conflict_high_freq (classify e r)) = map view (high_conflict_high_freq r) @
     (if conflict_rate e > 5 \<and> frequency e > 1 then [view e] else [])"
  "map view (high_conflict_low_freq (classify e r)) = map view (high_conflict_low_freq r) @
     (if conflict_rate e > 5 \<and> \<not> frequency e > 1 then [view e] else [])"
  "map view (low_conflict_high_freq (classify e r)) = map view (low_conflict_high_freq r) @
     (if \<not> conflict_rate e > 5 \<and> frequency e > 1 then [view e] else [])"
  "call_stack_map (classify e r) = call_stack_map r" "thread_waits (classify e r) = thread_waits r"
  "lock_id (classify e r) = lock_id r"
  by (simp_all add: classify_def THRESHOLD_CONFLICT_def THRESHOLD_FREQUENCY_def)

lemma report_mutex_cases:
  assumes "report_mutex addr2line raw el n s i r = Ret u r'"
  defines "w \<equiv> (\<lambda>k. if k < n then thread_waits r k + waits_of s i k else thread_waits r k)"
  obtains (unused) "accesses_of s n i = 0" and "r' = r\<lparr>thread_waits := w\<rparr>"
    | (used) e cm where "accesses_of s n i \<noteq> 0" and
        "report_contexts addr2line (pool s i) [0..<stack_count (pool s i)]
           (raw\<lparr>line_count := 0, conflict_rate := rate_of s n i, frequency := freq_of s n el i\<rparr>) (call_stack_map r) = Ret e cm" and
        "r' = classify e (r\<lparr>thread_waits := w, lock_id := lock_id r + 1, call_stack_map := cm\<rparr>)"
proof -
  obtain t w' where tw: "fold (sum_thread s (word_of_nat i)) [0..<n] (zero_totals, thread_waits r) = (t, w')" by fastforce
  have t: "total_access_count t = accesses_of s n i" "total_fail_count t = fails_of s n i" and w: "w' = w"
    using fold_sum_thread [of s i n zero_totals "thread_waits r"] tw by (simp_all add: zero_totals_def w_def)
  have ei: "entry_index (pool s i) = word_of_nat i" using assms(1) by (simp add: report_mutex_def assrt_eq_Ret Let_def)
  show thesis
  proof (cases "accesses_of s n i = 0")
    case True
    with assms(1) tw t w ei have "r' = r\<lparr>thread_waits := w\<rparr>" by (auto simp: report_mutex_def Let_def)
    with True show thesis by (rule unused)
  next
    case False
    with assms(1) tw t w ei show thesis
      by (auto simp: report_mutex_def Let_def bnd_eq_Ret rate_of_def freq_of_def word_greater_zero_iff intro: used)
  qed
qed

lemma report_mutex_Ret:
  assumes "report_mutex addr2line raw el n s i r = Ret u r'" and "map_ok (call_stack_map r)"
  shows "map view (high_conflict_high_freq r') = map view (high_conflict_high_freq r) @ map (perf_of s n el) (chosen s n el True True [i]) \<and>
    map view (high_conflict_low_freq r') = map view (high_conflict_low_freq r) @ map (perf_of s n el) (chosen s n el True False [i]) \<and>
    map view (low_conflict_high_freq r') = map view (low_conflict_high_freq r) @ map (perf_of s n el) (chosen s n el False True [i]) \<and>
    map_ok (call_stack_map r') \<and>
    (\<forall>k. rates k (call_stack_map r') = rates k (call_stack_map r) @ context_rates addr2line s n i k) \<and>
    (\<forall>k. thread_waits r' k = thread_waits r k + (if k < n then waits_of s i k else 0)) \<and>
    lock_id r' = lock_id r + (if accesses_of s n i = 0 then 0 else 1)"
  using assms(1)
proof (cases rule: report_mutex_cases)
  case unused
  with assms(2) show ?thesis by (auto simp: chosen_def context_rates_def)
next
  case (used e cm)
  from report_contexts_Ret [OF used(2) assms(2)] used(1) show ?thesis
    by (auto simp: used(3) classify_view chosen_def perf_of_def view_def context_rates_def context_string_def)
qed

lemma report_all_Ret:
  assumes "report_all addr2line raw el n s is r = Ret u r'" and "map_ok (call_stack_map r)"
  shows "map view (high_conflict_high_freq r') = map view (high_conflict_high_freq r) @ map (perf_of s n el) (chosen s n el True True is) \<and>
    map view (high_conflict_low_freq r') = map view (high_conflict_low_freq r) @ map (perf_of s n el) (chosen s n el True False is) \<and>
    map view (low_conflict_high_freq r') = map view (low_conflict_high_freq r) @ map (perf_of s n el) (chosen s n el False True is) \<and>
    map_ok (call_stack_map r') \<and>
    (\<forall>k. rates k (call_stack_map r') = rates k (call_stack_map r) @ concat (map (\<lambda>i. context_rates addr2line s n i k) is)) \<and>
    (\<forall>k. thread_waits r' k = thread_waits r k + (if k < n then \<Sum>i\<leftarrow>is. waits_of s i k else 0)) \<and>
    lock_id r' = lock_id r + length (filter (\<lambda>i. accesses_of s n i \<noteq> 0) is)"
  using assms
proof (induction "is" arbitrary: r)
  case Nil
  then show ?case by (simp add: chosen_def)
next
  case (Cons i "is")
  then obtain r1 where r1: "report_mutex addr2line (raw i) el n s i r = Ret () r1"
    and r': "report_all addr2line raw el n s is r1 = Ret u r'" by (auto simp: bnd_eq_Ret)
  note m = report_mutex_Ret [OF r1 Cons.prems(2)]
  have ok: "map_ok (call_stack_map r1)" using m by blast
  from Cons.IH [OF r' ok] m show ?case by (auto simp: chosen_def)
qed

definition mutexes :: "nptl \<Rightarrow> nat list" where
  "mutexes s = [0..<nat (sint (ucast (getEntriesNumb (sync_vars s)) :: i32))]"

lemma print_report_Ret:
  assumes "print_report addr2line raw x s = Ret locks r"
  shows "report_all addr2line raw (elapsed_time_for_freq x) (threadIndex x) s (mutexes s) new_report = Ret () r \<and>
    locks = findAsymmetricLock (call_stack_map r) []"
  using assms by (auto simp: print_report_def Let_def bnd_eq_Ret mutexes_def)

lemma new_report_ok: "map_ok (call_stack_map new_report)"
  by (simp add: new_report_def map_ok_def)

section \<open>Lines\<close>

definition row_is :: "sync_perf_t \<Rightarrow> nat \<Rightarrow> string \<Rightarrow> bool" where
  "row_is e con str \<longleftrightarrow> (\<forall>j<length str. line_info e (con * LINE_LEN + j) = str ! j) \<and>
     line_info e (con * LINE_LEN + length str) = nul"

lemma LINE_LEN_eq [simp]: "LINE_LEN = 300"
  by (simp add: LINE_LEN_def MAX_CALL_STACK_DEPTH_def)

lemma c_str_id: "nul \<notin> set str \<Longrightarrow> c_str str = str"
  unfolding c_str_def by (metis (mono_tags, lifting) takeWhile_eq_all_conv)

lemma c_string_eq:
  "\<forall>j<length str. b (k + j) = str ! j \<Longrightarrow> b (k + length str) = nul \<Longrightarrow> nul \<notin> set str \<Longrightarrow> length str < n \<Longrightarrow>
    c_string n b k = str"
proof (induction str arbitrary: n k)
  case Nil
  then show ?case by (cases n) simp_all
next
  case (Cons c str)
  from Cons.prems obtain n' where n: "n = Suc n'" by (cases n) auto
  have "b k = c" using Cons.prems(1) by (metis add_0_right length_greater_0_conv list.distinct(1) nth_Cons_0)
  moreover have "c_string n' b (Suc k) = str"
    using Cons.prems Cons.IH [of "Suc k" n'] n by fastforce
  ultimately show ?case using Cons.prems(3) n by auto
qed

lemma line_at_row:
  assumes "row_is e con str" and "nul \<notin> set str" and "length str < 300" and "con < 100"
  shows "line_at e con = str"
  unfolding line_at_def using assms by (intro c_string_eq) (auto simp: row_is_def MAX_NUM_STACKS_def)

lemma strcpy_row:
  assumes "strcpy_line con str e = Ret u e'" and "nul \<notin> set str"
  shows "row_is e' con str"
    and "con' \<noteq> con \<Longrightarrow> length str < 300 \<Longrightarrow> length str' < 300 \<Longrightarrow> row_is e con' str' \<Longrightarrow> row_is e' con' str'"
proof -
  have l: "line_info e' = (\<lambda>k. if con * 300 \<le> k \<and> k < con * 300 + length str then str ! (k - con * 300)
      else if k = con * 300 + length str then nul else line_info e k)"
    using assms by (auto simp: strcpy_line_def Let_def assrt_eq_Ret c_str_id)
  show "row_is e' con str" by (simp add: row_is_def l)
  have far: "con' \<noteq> con \<Longrightarrow> length str < 300 \<Longrightarrow> j < 300 \<Longrightarrow> line_info e' (con' * 300 + j) = line_info e (con' * 300 + j)" for j
    by (auto simp: l)
  show "con' \<noteq> con \<Longrightarrow> length str < 300 \<Longrightarrow> length str' < 300 \<Longrightarrow> row_is e con' str' \<Longrightarrow> row_is e' con' str'"
    by (simp add: row_is_def far)
qed

lemma report_contexts_rows:
  assumes "report_contexts addr2line m cons e cm = Ret e' cm'" and "distinct cons"
    and "\<And>con str. con \<in> set cons \<Longrightarrow> get_call_stack_string addr2line (stacks m ! con) = Some str \<Longrightarrow>
      nul \<notin> set str \<and> length str < 300"
  shows "(\<forall>con\<in>set cons. \<exists>str. get_call_stack_string addr2line (stacks m ! con) = Some str \<and> row_is e' con str) \<and>
    (\<forall>con str. con \<notin> set cons \<longrightarrow> length str < 300 \<longrightarrow> row_is e con str \<longrightarrow> row_is e' con str)"
  using assms
proof (induction cons arbitrary: e cm)
  case (Cons con cons)
  from Cons.prems(1) obtain str e1 where str: "get_call_stack_string addr2line (stacks m ! con) = Some str"
    and e1: "strcpy_line con str e = Ret () e1"
    and r: "report_contexts addr2line m cons (e1\<lparr>line_count := line_count e1 + 1\<rparr>)
      (updateCallStackMap str (conflict_rate e) cm) = Ret e' cm'"
    by (auto simp: assrt_eq_Ret bnd_eq_Ret split: option.splits)
  have short: "nul \<notin> set str" "length str < 300" using Cons.prems(3) [OF _ str] by simp_all
  have same: "row_is (e1\<lparr>line_count := line_count e1 + 1\<rparr>) c x = row_is e1 c x" for c x by (simp add: row_is_def)
  note sr = strcpy_row [OF e1 short(1)]
  have sh: "nul \<notin> set str \<and> length str < 300"
    if "con \<in> set cons" "get_call_stack_string addr2line (stacks m ! con) = Some str" for con str
    using Cons.prems(3) [OF _ that(2)] that(1) by simp
  have ih': "(\<forall>con\<in>set cons. \<exists>str. get_call_stack_string addr2line (stacks m ! con) = Some str \<and> row_is e' con str) \<and>
    (\<forall>con str. con \<notin> set cons \<longrightarrow> length str < 300 \<longrightarrow> row_is e1 con str \<longrightarrow> row_is e' con str)"
  proof (rule Cons.IH [OF r, unfolded same])
    show "distinct cons" using Cons.prems(2) by simp
  qed (erule (1) sh)
  show ?case using ih' sr short str Cons.prems(2) by auto
qed simp

section \<open>Properties\<close>

text \<open>For the witnesses: two mutexes locked from the same line by one thread, the first with a conflict
  in every other access.\<close>

definition demo_entry :: "nat \<Rightarrow> mutex_t" where
  "demo_entry i = \<lparr>real_mutex = zero_mutex, entry_index = word_of_nat i, stack_count = 1, esp_offset = [], eip = [],
     stacks = [[77, 0, 0, 0, 0, 0, 0]]\<rparr>"

definition demo_counts :: "u32 \<Rightarrow> u32 \<Rightarrow> thread_mutex_t" where
  "demo_counts a f = \<lparr>access_count = a, fail_count = f, cond_waits = 0, trylock_fail_count = 0, cond_futex_wait = 1,
     futex_wait = 2\<rparr>"

definition demo_pair :: "u32 \<Rightarrow> u32 \<Rightarrow> u32 \<Rightarrow> u32 \<Rightarrow> nptl" where
  "demo_pair a f b g = fresh\<lparr>sync_vars := \<lparr>re_start = demo_entry, re_total = 1000000, re_cur = 2\<rparr>,
     tsd := (\<lambda>k. if k = 0 then demo_counts a f else demo_counts b g)\<rparr>"

abbreviation demo_state :: "u32 \<Rightarrow> u32 \<Rightarrow> nptl" where
  "demo_state a f \<equiv> demo_pair a f 3000 0"

definition demo_line :: "u64 \<Rightarrow> string option" where
  "demo_line c = Some ''/src/a.c:12.''"

definition demo_raw :: sync_perf_t where
  "demo_raw = \<lparr>line_info = (\<lambda>_. CHR ''x''), conflict_rate = 0, frequency = 0, line_count = 9\<rparr>"

lemma demo_entry_fields [simp]:
  "entry_index (demo_entry i) = word_of_nat i" "stack_count (demo_entry i) = Suc 0"
  "get_call_stack_string demo_line (stacks (demo_entry i) ! 0) = Some ''a.c:12 ''"
  by (simp_all add: demo_entry_def demo_line_def source_name_def)

lemma demo_mutexes [simp]: "mutexes (demo_pair a f b g) = [0, 1]"
  by (simp add: mutexes_def demo_pair_def getEntriesNumb_def eval_nat_numeral)

lemma demo_counters [simp]:
  "accesses_of (demo_pair a f b g) (Suc 0) 0 = a" "fails_of (demo_pair a f b g) (Suc 0) 0 = f"
  "accesses_of (demo_pair a f b g) (Suc 0) (Suc 0) = b" "fails_of (demo_pair a f b g) (Suc 0) (Suc 0) = g"
  "waits_of (demo_pair a f b g) 0 0 = 3" "waits_of (demo_pair a f b g) (Suc 0) 0 = 3"
  "pool (demo_pair a f b g) i = demo_entry i"
  by (simp_all add: accesses_of_def fails_of_def waits_of_def demo_pair_def demo_counts_def get_thread_mutex_data_def
      MAX_SYNC_ENTRIES_def)

definition demo_threads :: xthread where
  "demo_threads = loaded\<lparr>threadIndex := 1\<rparr>"

lemma demo_elapsed [simp]: "elapsed_time_for_freq demo_threads = 1000" "threadIndex demo_threads = 1"
  by (simp_all add: elapsed_time_for_freq_def demo_threads_def loaded_def zero_level_def)

lemma demo_contexts: "\<exists>e' cm'. report_contexts demo_line (demo_entry i) [0] e cm = Ret e' cm'"
  by (simp add: strcpy_line_def c_str_def nul_def Let_def MAX_NUM_STACKS_def)

lemma demo_mutex: "\<exists>r'. report_mutex demo_line raw el (Suc 0) (demo_pair a f b g) i r = Ret () r'"
proof -
  have "\<exists>r'. bnd (report_contexts demo_line (demo_entry i) [0] e cm) (\<lambda>e cm. Ret () (h e cm)) = Ret () r'"
    for e cm and h :: "sync_perf_t \<Rightarrow> call_map \<Rightarrow> report"
    using demo_contexts by (metis bnd_simps(1))
  then show ?thesis by (simp add: report_mutex_def Let_def split_beta del: report_contexts.simps)
qed

lemma demo_prints: "\<exists>locks r. print_report demo_line (\<lambda>_. demo_raw) demo_threads (demo_pair a f b g) = Ret locks r"
proof -
  have "\<exists>r'. report_all demo_line (\<lambda>_. demo_raw) el (Suc 0) (demo_pair a f b g) is r = Ret () r'" for el "is" r
  proof (induction "is" arbitrary: r)
    case (Cons i "is")
    obtain r1 where "report_mutex demo_line demo_raw el (Suc 0) (demo_pair a f b g) i r = Ret () r1"
      using demo_mutex by blast
    with Cons show ?case by simp
  qed simp
  then obtain r where "report_all demo_line (\<lambda>_. demo_raw) (elapsed_time_for_freq demo_threads) (threadIndex demo_threads)
      (demo_pair a f b g) (mutexes (demo_pair a f b g)) new_report = Ret () r"
    by (metis demo_elapsed(2) One_nat_def)
  then show ?thesis by (simp add: print_report_def mutexes_def Let_def del: demo_elapsed demo_mutexes)
qed

text \<open>
  C26 (the report). If \<open>print\<close> returns, then the entries of its three lists are, in the order of the
  mutexes, exactly the mutexes with at least one access whose conflict rate and frequency lie above or
  below 5 percent and 1 per millisecond as the heading of the list says, and a mutex below both is in none; each
  entry holds the rate and frequency computed from the counters of all threads and one line per
  recorded context; and the time a thread is charged is the sum of its waits over all mutexes.
\<close>

theorem report_exact:
  assumes "print_report addr2line raw x s = Ret locks r"
  shows "(let n = threadIndex x; el = elapsed_time_for_freq x in
    map view (high_conflict_high_freq r) = map (perf_of s n el) (chosen s n el True True (mutexes s)) \<and>
    map view (high_conflict_low_freq r) = map (perf_of s n el) (chosen s n el True False (mutexes s)) \<and>
    map view (low_conflict_high_freq r) = map (perf_of s n el) (chosen s n el False True (mutexes s)) \<and>
    lock_id r = length (filter (\<lambda>i. accesses_of s n i \<noteq> 0) (mutexes s)) \<and>
    (\<forall>k<n. thread_waits r k = (\<Sum>i\<leftarrow>mutexes s. waits_of s i k)))"
proof -
  have "report_all addr2line raw (elapsed_time_for_freq x) (threadIndex x) s (mutexes s) new_report = Ret () r"
    using print_report_Ret [OF assms] by blast
  from report_all_Ret [OF this new_report_ok] show ?thesis by (simp add: new_report_def Let_def)
qed

theorem report_exact_witness:
  "\<exists>locks r. print_report demo_line (\<lambda>_. demo_raw) demo_threads (demo_state 2000 1000) = Ret locks r \<and>
    map view (high_conflict_high_freq r) = [(50, 2, 1)] \<and> map view (low_conflict_high_freq r) = [(0, 3, 1)] \<and>
    lock_id r = 2 \<and> thread_waits r 0 = 6"
proof -
  obtain locks r where p: "print_report demo_line (\<lambda>_. demo_raw) demo_threads (demo_state 2000 1000) = Ret locks r"
    using demo_prints by blast
  with report_exact [OF p] show ?thesis
    by (auto simp: Let_def chosen_def perf_of_def rate_of_def freq_of_def)
qed

text \<open>
  C27 (asymmetric locks). The locks reported as asymmetric are, in order and each once, exactly the call
  stacks with at least two rates, taken over all contexts of all mutexes with an access, of which the
  greatest and the least, each rounded to a \<open>double\<close> and narrowed to a \<open>float\<close>, differ in \<open>float\<close>
  arithmetic by more than 10. The witness has two locks of one call stack with 703 and 603 failures in
  1000 accesses: the rates 70.3 and 60.3 differ by exactly 10, the threshold asks for more, and the
  stack is reported all the same, for as floats they are further apart.
\<close>

theorem asymmetric_exact:
  assumes "print_report addr2line raw x s = Ret locks r"
  shows "sorted_wrt (<) locks \<and> set locks =
    {k. unlike (concat (map (\<lambda>i. context_rates addr2line s (threadIndex x) i k) (mutexes s)))}"
proof -
  note p = print_report_Ret [OF assms]
  then have "report_all addr2line raw (elapsed_time_for_freq x) (threadIndex x) s (mutexes s) new_report = Ret () r" by blast
  from report_all_Ret [OF this new_report_ok] have m: "map_ok (call_stack_map r)"
    "\<And>k. rates k (call_stack_map r) = concat (map (\<lambda>i. context_rates addr2line s (threadIndex x) i k) (mutexes s))"
    by (simp_all add: rates_def new_report_def)
  from find_exact [OF m(1)] p show ?thesis by (simp add: m(2))
qed

lemma narrow_demo: "narrow (703 / 10) = 9214362 / 131072" "narrow (603 / 10) = 15807283 / 262144"
proof -
  have "to_double (703 / 10) = of_int 4946922715689779 * 2 powi (6 - (int 53 - 1))"
    unfolding to_double_def by (rule round_to_eq) (simp_all add: power_int_def power_one_over)
  moreover have "to_float (of_int 4946922715689779 * 2 powi (6 - (int 53 - 1))) = of_int 9214362 * 2 powi (6 - (int 24 - 1))"
    unfolding to_float_def by (rule round_to_eq) (simp_all add: power_int_def power_one_over)
  ultimately have "narrow (703 / 10) = of_int 9214362 * 2 powi (6 - (int 24 - 1))" by (simp only: narrow_def)
  then show "narrow (703 / 10) = 9214362 / 131072" by (simp add: power_int_def power_one_over)
  have "to_double (603 / 10) = of_int 8486470547826278 * 2 powi (5 - (int 53 - 1))"
    unfolding to_double_def by (rule round_to_eq) (simp_all add: power_int_def power_one_over)
  moreover have "to_float (of_int 8486470547826278 * 2 powi (5 - (int 53 - 1))) = of_int 15807283 * 2 powi (5 - (int 24 - 1))"
    unfolding to_float_def by (rule round_to_eq) (simp_all add: power_int_def power_one_over)
  ultimately have "narrow (603 / 10) = of_int 15807283 * 2 powi (5 - (int 24 - 1))" by (simp only: narrow_def)
  then show "narrow (603 / 10) = 15807283 / 262144" by (simp add: power_int_def power_one_over)
qed

lemma unlike_demo: "unlike [703 / 10, 603 / 10]"
proof -
  have "to_float (2621441 / 262144) = 2621441 / 262144"
    using to_float_exact [of 2621441 "- 18"] by (simp add: power_int_def power_one_over)
  then show ?thesis by (simp add: unlike_def narrow_demo)
qed

theorem asymmetric_exact_witness:
  "\<exists>locks r. print_report demo_line (\<lambda>_. demo_raw) demo_threads (demo_pair 1000 703 1000 603) = Ret locks r \<and>
    ''a.c:12 '' \<in> set locks \<and>
    rate_of (demo_pair 1000 703 1000 603) (Suc 0) 0 - rate_of (demo_pair 1000 703 1000 603) (Suc 0) (Suc 0) = 10"
proof -
  let ?s = "demo_pair 1000 703 1000 603"
  obtain locks r where p: "print_report demo_line (\<lambda>_. demo_raw) demo_threads ?s = Ret locks r"
    using demo_prints by blast
  have rt: "rate_of ?s (Suc 0) 0 = 703 / 10" "rate_of ?s (Suc 0) (Suc 0) = 603 / 10" by (simp_all add: rate_of_def)
  then have "context_rates demo_line ?s (Suc 0) 0 ''a.c:12 '' = [703 / 10]"
    "context_rates demo_line ?s (Suc 0) (Suc 0) ''a.c:12 '' = [603 / 10]"
    by (simp_all add: context_rates_def context_string_def)
  then have "unlike (concat (map (\<lambda>i. context_rates demo_line ?s (threadIndex demo_threads) i ''a.c:12 '') (mutexes ?s)))"
    using unlike_demo by simp
  with asymmetric_exact [OF p] have "''a.c:12 '' \<in> set locks" by blast
  with p show ?thesis by (auto simp: rt)
qed

lemma wrapped_product:
  fixes a f :: nat
  assumes "0 < a"
  shows "(real ((100 * f) mod 2 ^ 32) / real a = 100 * real f / real a \<longleftrightarrow> f < 42949673) \<and>
    real ((100 * f) mod 2 ^ 32) / real a \<le> 100 * real f / real a"
proof -
  have "(100 * f) mod 2 ^ 32 = 100 * f \<longleftrightarrow> f < 42949673"
    by (auto simp: mod_eq_self_iff_div_eq_0 div_eq_0_iff)
  moreover have "(100 * f) mod 2 ^ 32 \<le> 100 * f" by simp
  moreover have "100 * real f = real (100 * f)" by simp
  ultimately show ?thesis using assms by (simp only: of_nat_le_iff of_nat_eq_iff divide_cancel_right divide_right_mono) simp
qed

lemma rate_of_wrapped: "rate_of s n i = real ((100 * unat (fails_of s n i)) mod 2 ^ 32) / real (unat (accesses_of s n i))"
proof -
  have "unat (100 * fails_of s n i) = (100 * unat (fails_of s n i)) mod 2 ^ 32" by (simp add: unat_word_ariths)
  then show ?thesis by (simp only: rate_of_def)
qed

text \<open>What one mutex with an access adds to the lists.\<close>

lemma report_mutex_lists:
  assumes "report_mutex addr2line raw el n s i r = Ret u r'" and "accesses_of s n i \<noteq> 0"
  shows "map view (high_conflict_high_freq r') = map view (high_conflict_high_freq r) @
      (if rate_of s n i > 5 \<and> freq_of s n el i > 1 then [perf_of s n el i] else []) \<and>
    map view (high_conflict_low_freq r') = map view (high_conflict_low_freq r) @
      (if rate_of s n i > 5 \<and> \<not> freq_of s n el i > 1 then [perf_of s n el i] else []) \<and>
    map view (low_conflict_high_freq r') = map view (low_conflict_high_freq r) @
      (if \<not> rate_of s n i > 5 \<and> freq_of s n el i > 1 then [perf_of s n el i] else [])"
  using assms(1)
proof (cases rule: report_mutex_cases)
  case (used e cm)
  from report_contexts_fold [OF used(2)] show ?thesis by (simp add: used(3) classify_view view_def perf_of_def)
qed (use assms(2) in simp)

text \<open>
  C39 (the rate wraps). \<open>print\<close> takes the product of 100 and the number of failures of a mutex in 32 bits:
  the rate it puts into the entry of a mutex with an access, and by which it chooses the list, is the
  product modulo \<open>2 ^ 32\<close> over the number of accesses. It is the percentage of failures exactly while
  there are fewer than 42949673 of them, and beyond that it is below, so a mutex that is always
  contended can be missing from both lists for high conflict: the witness's has failed at every one
  of its 42949673 accesses.
\<close>

theorem rate_wraps:
  assumes "report_mutex addr2line raw el n s i r = Ret u r'" and "accesses_of s n i \<noteq> 0"
  shows "(let f = unat (fails_of s n i); a = unat (accesses_of s n i);
      percentage = 100 * real f / real a; rate = real ((100 * f) mod 2 ^ 32) / real a; freq = real a / el;
      entry = (rate, freq, stack_count (pool s i)) in
    (rate = percentage \<longleftrightarrow> f < 42949673) \<and> rate \<le> percentage \<and>
    map view (high_conflict_high_freq r') = map view (high_conflict_high_freq r) @ (if rate > 5 \<and> freq > 1 then [entry] else []) \<and>
    map view (high_conflict_low_freq r') = map view (high_conflict_low_freq r) @ (if rate > 5 \<and> \<not> freq > 1 then [entry] else []) \<and>
    map view (low_conflict_high_freq r') = map view (low_conflict_high_freq r) @ (if \<not> rate > 5 \<and> freq > 1 then [entry] else []))"
proof -
  have a: "0 < unat (accesses_of s n i)" using assms(2) by (simp add: word_unat_eq_iff)
  show ?thesis
    using wrapped_product [OF a, of "unat (fails_of s n i)"] report_mutex_lists [OF assms]
    by (simp only: Let_def rate_of_wrapped freq_of_def perf_of_def simp_thms)
qed

theorem rate_wraps_witness:
  "\<exists>r. report_mutex demo_line demo_raw 1000 1 (demo_state 42949673 42949673) 0 new_report = Ret () r \<and>
    high_conflict_high_freq r = [] \<and> high_conflict_low_freq r = [] \<and>
    map view (low_conflict_high_freq r) = [(4 / 42949673, 42949673 / 1000, 1)]"
proof -
  obtain r where "report_mutex demo_line demo_raw 1000 (Suc 0) (demo_state 42949673 42949673) 0 new_report = Ret () r"
    using demo_mutex by blast
  with rate_wraps [OF this] show ?thesis by (auto simp: Let_def new_report_def)
qed

text \<open>
  The lines of an entry. When no text of a context fills its row, the row of each context, read as
  a C string, is that text, and the number of lines is the number of contexts.
\<close>

lemma report_lines:
  assumes "report_contexts addr2line m [0..<stack_count m] e cm = Ret e' cm'" and "line_count e = 0"
    and "stack_count m \<le> 100" and "map_ok cm"
    and "\<And>con str. con < stack_count m \<Longrightarrow> get_call_stack_string addr2line (stacks m ! con) = Some str \<Longrightarrow>
      nul \<notin> set str \<and> length str < 300"
  shows "line_count e' = stack_count m \<and>
    (\<forall>con < stack_count m. get_call_stack_string addr2line (stacks m ! con) = Some (line_at e' con))"
proof -
  have c: "line_count e' = stack_count m" using report_contexts_Ret [OF assms(1,4)] assms(2) by simp
  have rows: "\<forall>con\<in>set [0..<stack_count m]. \<exists>str. get_call_stack_string addr2line (stacks m ! con) = Some str \<and> row_is e' con str"
    using report_contexts_rows [OF assms(1)] assms(5) by simp
  have "get_call_stack_string addr2line (stacks m ! con) = Some (line_at e' con)" if lt: "con < stack_count m" for con
  proof -
    obtain str where str: "get_call_stack_string addr2line (stacks m ! con) = Some str" "row_is e' con str"
      using bspec [OF rows, of con] lt by auto
    with line_at_row [OF str(2)] assms(3,5) lt show ?thesis by fastforce
  qed
  with c show ?thesis by blast
qed

text \<open>
  A full row. A text of exactly 300 characters passes the assertion, but its row has no room for the
  terminating 0: the next context overwrites it, and the first line of the report is printed with
  the second one behind it.
\<close>

lemma full_row_runs_on:
  assumes "report_contexts addr2line m [0, 1] e cm = Ret e' cm'"
    and "get_call_stack_string addr2line (stacks m ! 0) = Some a" and "length a = 300" and "nul \<notin> set a"
    and "get_call_stack_string addr2line (stacks m ! 1) = Some b" and "nul \<notin> set b"
  shows "line_at e' 0 = a @ b"
proof -
  from assms obtain e1 e2 where e1: "strcpy_line 0 a e = Ret () e1"
    and e2: "strcpy_line 1 b (e1\<lparr>line_count := line_count e1 + 1\<rparr>) = Ret () e2" and e': "line_info e' = line_info e2"
    and b: "length b \<le> 300"
    by (auto simp: assrt_eq_Ret bnd_eq_Ret Let_def)
  have l1: "line_info e1 k = a ! k" if "k < 300" for k
    using e1 assms(3,4) that by (auto simp: strcpy_line_def Let_def assrt_eq_Ret c_str_id)
  have l2: "line_info e2 k = (if k < 300 then line_info e1 k else b ! (k - 300))" if "k < 300 + length b" for k
    using e2 assms(6) that by (auto simp: strcpy_line_def Let_def assrt_eq_Ret c_str_id)
  have l3: "line_info e2 (300 + length b) = nul"
    using e2 assms(6) by (auto simp: strcpy_line_def Let_def assrt_eq_Ret c_str_id)
  show ?thesis unfolding line_at_def e'
    using assms(3,4,6) b by (intro c_string_eq) (auto simp: l1 l2 l3 nth_append MAX_NUM_STACKS_def)
qed

end
