(* ===== verification/ReportText.thy ===== *)
theory ReportText
  imports Report
begin

unbundle bit_operations_syntax

text \<open>
  The text of the report (\<open>source/report.h\<close>): the pipe that \<open>addr2line\<close> is read through, the command it is asked with,
  the summary \<open>syncperf.report\<close>, the table of the threads' waits and the statistics. A stream is the text written so
  far. How a \<open>double\<close> is printed (\<open>dbl\<close>) is an argument.
  Shown: the pipe is read to its end; and who reads the summary finds the mutexes of the three lists, with
  their rates and the texts of all their contexts, and the asymmetric locks.
\<close>

section \<open>Numbers and lines\<close>

definition nl :: char where "nl = CHR 0x0A"

abbreviation endl :: string where "endl \<equiv> [nl]"

abbreviation tab :: char where "tab \<equiv> CHR 0x09"

fun dec :: "nat \<Rightarrow> string" where
  "dec n = (if n < 10 then [char_of (48 + n)] else dec (n div 10) @ [char_of (48 + n mod 10)])"

fun hex :: "nat \<Rightarrow> string" where
  "hex n = (let d = n mod 16; c = (if d < 10 then char_of (48 + d) else char_of (87 + d)) in
     if n < 16 then [c] else hex (n div 16) @ [c])"

declare dec.simps [simp del] hex.simps [simp del]

text \<open>A pointer: \<open>0\<close> for the null pointer.\<close>

definition ptr :: "u64 \<Rightarrow> string" where
  "ptr a = (if a = 0 then ''0'' else ''0x'' @ hex (unat a))"

section \<open>The pipe\<close>

definition MAXBUFSIZE :: nat where "MAXBUFSIZE = 4096"

text \<open>What \<open>fgets\<close> reads of a stream, what it leaves, and whether it met the end.\<close>

fun fgets_chars :: "nat \<Rightarrow> string \<Rightarrow> string \<times> string \<times> bool" where
  "fgets_chars 0 s = ([], s, False)"
| "fgets_chars (Suc n) [] = ([], [], True)"
| "fgets_chars (Suc n) (c # s) =
     (if c = nl then ([c], s, False) else case fgets_chars n s of (a, b, e) \<Rightarrow> (c # a, b, e))"

lemma fgets_shorter: "fgets_chars n s = (a, b, e) \<Longrightarrow> \<not> e \<Longrightarrow> 0 < n \<Longrightarrow> length b < length s"
proof (induction n s arbitrary: a b e rule: fgets_chars.induct)
  case (3 n c s)
  show ?case
  proof (cases "c = nl")
    case False
    obtain a' b' e' where r: "fgets_chars n s = (a', b', e')" by (cases "fgets_chars n s")
    with False 3 show ?thesis by (cases n) (auto intro: less_SucI)
  qed (use 3 in auto)
qed auto

text \<open>The loop of \<open>exec\<close>; a buffer is appended up to its first 0.\<close>

function exec_loop :: "string \<Rightarrow> string \<Rightarrow> string" where
  "exec_loop s result =
     (case fgets_chars 127 s of (a, b, e) \<Rightarrow>
        let result = (if a = [] then result else result @ c_str a) in
        if e then result else exec_loop b result)"
  by pat_completeness auto
termination
  by (relation "measure (\<lambda>(s, r). length s)") (auto dest: sym [THEN fgets_shorter])

declare exec_loop.simps [simp del]

text \<open>The output of the command, if the pipe can be opened.\<close>

definition exec :: "string option \<Rightarrow> string" where
  "exec pipe = (case pipe of None \<Rightarrow> ''ERROR'' | Some s \<Rightarrow> exec_loop s [])"

text \<open>The name of the program, as \<open>readlink\<close> gives it; the program exits without one.\<close>

definition setFileName :: "string \<Rightarrow> string option" where
  "setFileName link = (if length link = 0 \<or> length link \<ge> MAXBUFSIZE then None else Some link)"

definition addr2line_cmd :: "string \<Rightarrow> u64 \<Rightarrow> string" where
  "addr2line_cmd file c = ''addr2line -e '' @ file @ ''  -a 0x'' @ hex (unat c) @ ''  | tail -1''"

text \<open>The command is printed into a buffer of \<open>MAXBUFSIZE\<close> characters; \<open>shell\<close> gives the output of a command,
  if the pipe can be opened.\<close>

definition source_line :: "(string \<Rightarrow> string option) \<Rightarrow> string \<Rightarrow> u64 \<Rightarrow> string option" where
  "source_line shell file c =
     (let buf = addr2line_cmd file c in if length buf < MAXBUFSIZE then Some (exec (shell buf)) else None)"

section \<open>The summary\<close>

fun write_contexts :: "sync_perf_t \<Rightarrow> nat list \<Rightarrow> string \<Rightarrow> string" where
  "write_contexts e [] fs = fs"
| "write_contexts e (i # is) fs = write_contexts e is (fs @ [tab, tab, tab] @ line_at e i @ endl)"

fun write_entries :: "(real \<Rightarrow> string) \<Rightarrow> nat \<Rightarrow> sync_perf_t list \<Rightarrow> string \<Rightarrow> string" where
  "write_entries dbl k [] fs = fs"
| "write_entries dbl k (e # es) fs =
     (let k = k + 1;
          fs = fs @ ''No.'' @ dec k @ endl;
          fs = fs @ ''-------'' @ endl;
          fs = fs @ [tab, tab] @ ''Conflict Rate: '' @ dbl (conflict_rate e) @ endl;
          fs = fs @ [tab, tab] @ ''Acquisition Frequency: '' @ dbl (frequency e) @ endl;
          fs = fs @ [tab, tab] @ ''Line Numbers: '' @ dec (line_count e) @ endl
      in write_entries dbl k es (write_contexts e [0..<line_count e] fs))"

definition write_report :: "(real \<Rightarrow> string) \<Rightarrow> sync_perf_t list \<Rightarrow> string \<Rightarrow> string" where
  "write_report dbl results fs =
     write_entries dbl 0 results (fs @ ''Total found : '' @ dec (length results) @ endl)"

definition bar :: string where "bar = replicate 30 (CHR ''='')"

definition heading :: "string \<Rightarrow> string \<Rightarrow> string" where
  "heading title fs = fs @ endl @ endl @ bar @ endl @ title @ endl @ bar @ endl"

definition write_asymmetric :: "string list \<Rightarrow> string \<Rightarrow> string" where
  "write_asymmetric asym_locks fs =
     (if length asym_locks > 0 then
        let fs = fs @ endl @ endl @ replicate 22 (CHR ''='') @ endl;
            fs = fs @ ''Asymmetric Locks found :'' @ [tab] @ dec (length asym_locks) @ endl;
            fs = fs @ replicate 24 (CHR ''='') @ endl
        in fold (\<lambda>k fs. fs @ k @ endl) asym_locks fs
      else fs)"

definition syncperf_report :: "(real \<Rightarrow> string) \<Rightarrow> string list \<Rightarrow> report \<Rightarrow> string" where
  "syncperf_report dbl asym_locks r =
     (let fs = [];
          fs = write_report dbl (high_conflict_high_freq r) (heading ''HIGH CONFLICT , HIGH FREQUENCY'' fs);
          fs = write_report dbl (high_conflict_low_freq r) (heading ''HIGH CONFLICT , LOW FREQUENCY'' fs);
          fs = write_report dbl (low_conflict_high_freq r) (heading ''LOW CONFLICT , HIGH FREQUENCY'' fs)
      in write_asymmetric asym_locks fs)"

section \<open>The threads and the statistics\<close>

definition thread_row :: "(real \<Rightarrow> string) \<Rightarrow> nat \<Rightarrow> thread_t \<Rightarrow> real \<Rightarrow> string" where
  "thread_row dbl idx thd waits =
     dec idx @ '', '' @ ptr (startRoutine thd) @ '', '' @ dbl (actualRuntime thd) @ '','' @ dbl waits"

fun thread_rows :: "(real \<Rightarrow> string) \<Rightarrow> report \<Rightarrow> nat list \<Rightarrow> string \<Rightarrow> xthread \<Rightarrow> (string, xthread) out" where
  "thread_rows dbl r [] fs x = Ret fs x"
| "thread_rows dbl r (idx # is) fs x =
     bnd (getThreadInfoByIndex (int idx) x) (\<lambda>thd x.
       thread_rows dbl r is (fs @ thread_row dbl idx (threads x thd) (thread_waits r idx) @ endl) x)"

definition thread_waits_csv :: "(real \<Rightarrow> string) \<Rightarrow> xthread \<Rightarrow> report \<Rightarrow> (string, xthread) out" where
  "thread_waits_csv dbl x r =
     thread_rows dbl r [0..<threadIndex x] (''tid, type, runtime, wait_time'' @ endl) x"

definition greeting :: string where
  "greeting = endl @ endl @ ''SyncPerf Msg: END OF PROGRAM'' @ endl @ ''SyncPerf Msg: Reporting in file: syncperf.report'' @ endl @
     ''SyncPerf Msg: Thread reports in file: thread.csv '' @ endl"

definition statistics :: "nptl \<Rightarrow> report \<Rightarrow> string" where
  "statistics s r =
     ''STATISTICS:'' @ endl @ [tab] @ ''total Distinct Locks: '' @ dec (lock_id r) @ endl @
     [tab] @ ''tatal Acquired Locks: '' @ dec (unat (totalLocks s)) @ endl @
     [tab] @ ''tatal Conflicts: '' @ dec (unat (totalConflicts s)) @ endl @
     [tab] @ ''tatal CondWaits: '' @ dec (unat (totalCondWaits s)) @ endl"

record files =
  summary :: string
  waits_table :: string
  console :: string

definition print_files ::
  "(real \<Rightarrow> string) \<Rightarrow> (string \<Rightarrow> string option) \<Rightarrow> string \<Rightarrow> (nat \<Rightarrow> sync_perf_t) \<Rightarrow> xthread \<Rightarrow> nptl \<Rightarrow>
    (files, report) out" where
  "print_files dbl shell link raw x s =
     (case setFileName link of
        None \<Rightarrow> Abort
      | Some file \<Rightarrow>
          bnd (print_report (source_line shell file) raw x s) (\<lambda>asym_locks r.
          bnd (thread_waits_csv dbl x r) (\<lambda>waits _.
            Ret \<lparr>summary = syncperf_report dbl asym_locks r, waits_table = waits,
              console = greeting @ statistics s r\<rparr> r)))"

section \<open>The pipe is read to its end\<close>

lemma fgets_parts: "fgets_chars n s = (a, b, e) \<Longrightarrow> s = a @ b \<and> (e \<longrightarrow> b = [])"
  by (induction n s arbitrary: a b e rule: fgets_chars.induct) (auto split: if_splits prod.splits)

lemma exec_loop_all: "nul \<notin> set s \<Longrightarrow> exec_loop s r = r @ s"
proof (induction s r rule: exec_loop.induct)
  case (1 s r)
  obtain a b e where f: "fgets_chars 127 s = (a, b, e)" by (cases "fgets_chars 127 s")
  with fgets_parts have ab: "s = a @ b" "e \<Longrightarrow> b = []" by blast+
  have a: "c_str a = a" using "1.prems" ab(1) by (simp add: c_str_id)
  have "exec_loop s r = (if e then r @ a else exec_loop b (r @ a))"
    by (subst exec_loop.simps) (simp add: f a)
  moreover have "\<not> e \<Longrightarrow> exec_loop b (r @ a) = (r @ a) @ b"
    using "1.IH" [OF f [symmetric] refl refl] "1.prems" ab(1) a by (auto split: if_splits)
  ultimately show ?case using ab by simp
qed

lemma exec_all: "nul \<notin> set s \<Longrightarrow> exec (Some s) = s"
  by (simp add: exec_def exec_loop_all)

text \<open>The command for an address fits in its buffer unless the name of the program is nearly as long as the buffer; a
  name of 4095 characters is accepted, and overruns it.\<close>

lemma hex_length: "n < 16 ^ k \<Longrightarrow> 0 < k \<Longrightarrow> length (hex n) \<le> k"
proof (induction k arbitrary: n)
  case (Suc k)
  show ?case
  proof (cases "n < 16")
    case False
    with Suc.prems have "0 < k" "n div 16 < 16 ^ k" by (cases k; simp add: less_mult_imp_div_less mult.commute)+
    with Suc.IH [of "n div 16"] False show ?thesis by (simp add: hex.simps [of n] Let_def)
  qed (simp add: hex.simps [of n] Let_def)
qed simp

lemma command_length: "length (addr2line_cmd file c) \<le> length file + 47"
proof -
  have "unat c < 16 ^ 16" using unsigned_less [of c, where ?'a = nat] by simp
  from hex_length [OF this] show ?thesis by (simp add: addr2line_cmd_def)
qed

lemma command_fits: "length file + 47 < MAXBUFSIZE \<Longrightarrow> length (addr2line_cmd file c) < MAXBUFSIZE"
  using command_length le_less_trans by blast

lemma name_overruns:
  "length file = 4095 \<Longrightarrow> setFileName file = Some file \<and> source_line shell file c = None"
  by (simp add: setFileName_def source_line_def addr2line_cmd_def MAXBUFSIZE_def Let_def)

section \<open>Reading the text\<close>

fun split_lines :: "string \<Rightarrow> string list" where
  "split_lines [] = []"
| "split_lines (c # s) =
     (if c = nl then [] # split_lines s else case split_lines s of [] \<Rightarrow> [[c]] | l # ls \<Rightarrow> (c # l) # ls)"

definition text_of :: "string list \<Rightarrow> string" where
  "text_of ls = concat (map (\<lambda>l. l @ endl) ls)"

lemma split_line: "nl \<notin> set l \<Longrightarrow> split_lines (l @ nl # s) = l # split_lines s"
  by (induction l) auto

lemma split_text: "\<forall>l\<in>set ls. nl \<notin> set l \<Longrightarrow> split_lines (text_of ls) = ls"
  by (induction ls) (simp_all add: text_of_def split_line)

definition undec :: "string \<Rightarrow> nat" where
  "undec s = foldl (\<lambda>a c. 10 * a + (of_char c - 48)) 0 s"

lemma undec_dec: "undec (dec n) = n"
proof (induction n rule: dec.induct)
  case (1 n)
  have d: "of_char (char_of (48 + m) :: char) - 48 = m" if "m < 10" for m :: nat
    using that by (simp add: of_char_of)
  show ?case
  proof (cases "n < 10")
    case True
    then show ?thesis by (subst dec.simps) (simp add: undec_def d)
  next
    case False
    have "n mod 10 < 10" by simp
    note d [OF this]
    moreover have "undec (dec (n div 10)) = n div 10" using 1 False by simp
    ultimately have "undec (dec n) = 10 * (n div 10) + n mod 10"
      using False by (subst dec.simps) (simp add: undec_def)
    then show ?thesis by simp
  qed
qed

lemma dec_line: "nl \<notin> set (dec n)"
proof (induction n rule: dec.induct)
  case (1 n)
  have d: "char_of (48 + m) \<noteq> nl" if "m < 10" for m :: nat
  proof
    assume "char_of (48 + m) = nl"
    then have "of_char (char_of (48 + m) :: char) = (of_char nl :: nat)" by simp
    then show False using that by (simp add: nl_def)
  qed
  have "n mod 10 < 10" by simp
  note d [OF this]
  with 1 d [of n] show ?case by (cases "n < 10") (simp_all add: dec.simps [of n])
qed

section \<open>The lines of the summary\<close>

definition entry_lines :: "(real \<Rightarrow> string) \<Rightarrow> nat \<Rightarrow> sync_perf_t \<Rightarrow> string list" where
  "entry_lines dbl k e = [''No.'' @ dec k, ''-------'', [tab, tab] @ ''Conflict Rate: '' @ dbl (conflict_rate e),
     [tab, tab] @ ''Acquisition Frequency: '' @ dbl (frequency e), [tab, tab] @ ''Line Numbers: '' @ dec (line_count e)] @
     map (\<lambda>i. [tab, tab, tab] @ line_at e i) [0..<line_count e]"

fun entries_lines :: "(real \<Rightarrow> string) \<Rightarrow> nat \<Rightarrow> sync_perf_t list \<Rightarrow> string list" where
  "entries_lines dbl k [] = []"
| "entries_lines dbl k (e # es) = entry_lines dbl (k + 1) e @ entries_lines dbl (k + 1) es"

definition section_lines :: "(real \<Rightarrow> string) \<Rightarrow> string \<Rightarrow> sync_perf_t list \<Rightarrow> string list" where
  "section_lines dbl title es =
     [[], [], bar, title, bar, ''Total found : '' @ dec (length es)] @ entries_lines dbl 0 es"

definition asym_lines :: "string list \<Rightarrow> string list" where
  "asym_lines ks = (if ks = [] then [] else [[], [], replicate 22 (CHR ''=''),
     ''Asymmetric Locks found :'' @ [tab] @ dec (length ks), replicate 24 (CHR ''='')] @ ks)"

lemma text_of_simps [simp]:
  "text_of [] = []" "text_of (l # ls) = l @ endl @ text_of ls" "text_of (ls @ ls') = text_of ls @ text_of ls'"
  by (simp_all add: text_of_def)

lemma write_contexts_eq: "write_contexts e is fs = fs @ text_of (map (\<lambda>i. [tab, tab, tab] @ line_at e i) is)"
  by (induction e "is" fs rule: write_contexts.induct) simp_all

lemma write_entries_eq: "write_entries dbl k es fs = fs @ text_of (entries_lines dbl k es)"
  by (induction dbl k es fs rule: write_entries.induct) (simp_all add: write_contexts_eq entry_lines_def Let_def)

lemma write_section_eq: "write_report dbl es (heading title fs) = fs @ text_of (section_lines dbl title es)"
  by (simp add: write_report_def heading_def section_lines_def write_entries_eq)

lemma write_asymmetric_eq: "write_asymmetric ks fs = fs @ text_of (asym_lines ks)"
proof -
  have "fold (\<lambda>k fs. fs @ k @ endl) ks fs = fs @ text_of ks" for fs
    by (induction ks arbitrary: fs) simp_all
  then show ?thesis by (simp add: write_asymmetric_def asym_lines_def Let_def)
qed

lemma syncperf_report_eq:
  "syncperf_report dbl ks r = text_of (section_lines dbl ''HIGH CONFLICT , HIGH FREQUENCY'' (high_conflict_high_freq r) @
     section_lines dbl ''HIGH CONFLICT , LOW FREQUENCY'' (high_conflict_low_freq r) @
     section_lines dbl ''LOW CONFLICT , HIGH FREQUENCY'' (low_conflict_high_freq r) @ asym_lines ks)"
  by (simp add: syncperf_report_def Let_def write_section_eq write_asymmetric_eq)

section \<open>A reader of the summary\<close>

text \<open>What an entry shows: its rate, its frequency and its lines. The reader checks the numbers of the entries.\<close>

type_synonym shown = "string \<times> string \<times> string list"

fun read_entries :: "nat \<Rightarrow> nat \<Rightarrow> string list \<Rightarrow> (shown list \<times> string list) option" where
  "read_entries j 0 ls = Some ([], ls)"
| "read_entries j (Suc n) (no # dashes # rate # freq # count_line # ls) =
     (let k = undec (drop 16 count_line) in
      if no = ''No.'' @ dec (j + 1) then
        map_option (\<lambda>(es, rest). ((drop 17 rate, drop 25 freq, map (drop 3) (take k ls)) # es, rest))
          (read_entries (j + 1) n (drop k ls))
      else None)"
| "read_entries j (Suc n) ls = None"

fun read_section :: "string list \<Rightarrow> (shown list \<times> string list) option" where
  "read_section (e1 # e2 # bar1 # title # bar2 # found # ls) = read_entries 0 (undec (drop 14 found)) ls"
| "read_section ls = None"

definition read_summary :: "string \<Rightarrow> (shown list \<times> shown list \<times> shown list \<times> string list) option" where
  "read_summary s =
     Option.bind (read_section (split_lines s)) (\<lambda>(hh, ls).
       Option.bind (read_section ls) (\<lambda>(hl, ls).
         Option.bind (read_section ls) (\<lambda>(lh, ls). Some (hh, hl, lh, drop 5 ls))))"

definition shown_of :: "(real \<Rightarrow> string) \<Rightarrow> sync_perf_t \<Rightarrow> shown" where
  "shown_of dbl e = (dbl (conflict_rate e), dbl (frequency e), map (line_at e) [0..<line_count e])"

lemma read_entries_lines:
  "read_entries k (length es) (entries_lines dbl k es @ rest) = Some (map (shown_of dbl) es, rest)"
  by (induction es arbitrary: k) (simp_all add: entry_lines_def shown_of_def undec_dec comp_def)

lemma read_section_lines:
  "read_section (section_lines dbl title es @ rest) = Some (map (shown_of dbl) es, rest)"
  by (simp add: section_lines_def undec_dec read_entries_lines)

lemma asym_lines_drop: "drop 5 (asym_lines ks) = ks"
  by (simp add: asym_lines_def)

text \<open>No part of a line holds a line break.\<close>

definition lines_ok :: "sync_perf_t \<Rightarrow> bool" where
  "lines_ok e \<longleftrightarrow> (\<forall>i<line_count e. nl \<notin> set (line_at e i))"

lemma literal_lines:
  "nl \<notin> set bar" "nl \<noteq> tab" "nl \<notin> set (replicate n (CHR ''=''))"
  by (simp_all add: bar_def nl_def)

lemma entries_no_nl:
  assumes "\<forall>x. nl \<notin> set (dbl x)"
  shows "\<forall>e\<in>set es. lines_ok e \<Longrightarrow> l \<in> set (entries_lines dbl k es) \<Longrightarrow> nl \<notin> set l"
proof (induction es arbitrary: k)
  case (Cons e es)
  have "nl \<notin> set l" if "l \<in> set (entry_lines dbl (k + 1) e)"
    using that Cons.prems(1) assms dec_line by (auto simp: entry_lines_def lines_ok_def nl_def)
  with Cons show ?case by auto
qed simp

lemma section_no_nl:
  assumes "\<forall>x. nl \<notin> set (dbl x)" "\<forall>e\<in>set es. lines_ok e" "nl \<notin> set title" "l \<in> set (section_lines dbl title es)"
  shows "nl \<notin> set l"
  using assms(3,4) entries_no_nl [OF assms(1,2), of l 0] dec_line [of "length es"] literal_lines(1)
  by (auto simp: section_lines_def nl_def)

lemma asym_no_nl: "\<forall>k\<in>set ks. nl \<notin> set k \<Longrightarrow> l \<in> set (asym_lines ks) \<Longrightarrow> nl \<notin> set l"
  using dec_line [of "length ks"] by (auto simp: asym_lines_def nl_def split: if_splits)

lemma read_summary_back:
  assumes "\<forall>x. nl \<notin> set (dbl x)" and "\<forall>k\<in>set ks. nl \<notin> set k"
    and "\<forall>e\<in>set (high_conflict_high_freq r) \<union> set (high_conflict_low_freq r) \<union> set (low_conflict_high_freq r). lines_ok e"
  shows "read_summary (syncperf_report dbl ks r) =
    Some (map (shown_of dbl) (high_conflict_high_freq r), map (shown_of dbl) (high_conflict_low_freq r),
      map (shown_of dbl) (low_conflict_high_freq r), ks)"
proof -
  let ?ls = "section_lines dbl ''HIGH CONFLICT , HIGH FREQUENCY'' (high_conflict_high_freq r) @
     section_lines dbl ''HIGH CONFLICT , LOW FREQUENCY'' (high_conflict_low_freq r) @
     section_lines dbl ''LOW CONFLICT , HIGH FREQUENCY'' (low_conflict_high_freq r) @ asym_lines ks"
  have "\<forall>e\<in>set (high_conflict_high_freq r). lines_ok e" "\<forall>e\<in>set (high_conflict_low_freq r). lines_ok e"
    "\<forall>e\<in>set (low_conflict_high_freq r). lines_ok e" using assms(3) by auto
  note no = this [THEN section_no_nl [OF assms(1)]]
  have "\<forall>l\<in>set ?ls. nl \<notin> set l"
    using no(1) [of "''HIGH CONFLICT , HIGH FREQUENCY''"] no(2) [of "''HIGH CONFLICT , LOW FREQUENCY''"]
      no(3) [of "''LOW CONFLICT , HIGH FREQUENCY''"] asym_no_nl [OF assms(2)] by (auto simp: nl_def)
  from split_text [OF this] show ?thesis
    by (simp only: read_summary_def syncperf_report_eq read_section_lines Option.bind.bind_lunit prod.case asym_lines_drop)
qed

section \<open>The lists with their lines\<close>

text \<open>The recorded contexts have texts, C strings of one line that fit their rows.\<close>

definition texts_ok :: "(u64 \<Rightarrow> string option) \<Rightarrow> nptl \<Rightarrow> nat \<Rightarrow> bool" where
  "texts_ok addr2line s i \<longleftrightarrow> stack_count (pool s i) \<le> 100 \<and>
     (\<forall>con < stack_count (pool s i). \<exists>str. get_call_stack_string addr2line (stacks (pool s i) ! con) = Some str \<and>
        nul \<notin> set str \<and> nl \<notin> set str \<and> length str < 300)"

definition full :: "sync_perf_t \<Rightarrow> real \<times> real \<times> string list" where
  "full e = (conflict_rate e, frequency e, map (line_at e) [0..<line_count e])"

definition full_of :: "(u64 \<Rightarrow> string option) \<Rightarrow> nptl \<Rightarrow> nat \<Rightarrow> real \<Rightarrow> nat \<Rightarrow> real \<times> real \<times> string list" where
  "full_of addr2line s n el i =
     (rate_of s n i, freq_of s n el i, map (context_string addr2line s i) [0..<stack_count (pool s i)])"

lemma lines_ok_full: "lines_ok e \<longleftrightarrow> (\<forall>l\<in>set (snd (snd (full e))). nl \<notin> set l)"
  by (auto simp: lines_ok_def full_def)

lemma classify_full:
  "map full (high_conflict_high_freq (classify e r)) = map full (high_conflict_high_freq r) @
     (if conflict_rate e > 5 \<and> frequency e > 1 then [full e] else [])"
  "map full (high_conflict_low_freq (classify e r)) = map full (high_conflict_low_freq r) @
     (if conflict_rate e > 5 \<and> \<not> frequency e > 1 then [full e] else [])"
  "map full (low_conflict_high_freq (classify e r)) = map full (low_conflict_high_freq r) @
     (if \<not> conflict_rate e > 5 \<and> frequency e > 1 then [full e] else [])"
  by (simp_all add: classify_def THRESHOLD_CONFLICT_def THRESHOLD_FREQUENCY_def)

lemma report_mutex_full:
  assumes "report_mutex addr2line raw el n s i r = Ret u r'" and "map_ok (call_stack_map r)" and "texts_ok addr2line s i"
  shows "map full (high_conflict_high_freq r') = map full (high_conflict_high_freq r) @ map (full_of addr2line s n el) (chosen s n el True True [i]) \<and>
    map full (high_conflict_low_freq r') = map full (high_conflict_low_freq r) @ map (full_of addr2line s n el) (chosen s n el True False [i]) \<and>
    map full (low_conflict_high_freq r') = map full (low_conflict_high_freq r) @ map (full_of addr2line s n el) (chosen s n el False True [i])"
  using assms(1)
proof (cases rule: report_mutex_cases)
  case unused
  then show ?thesis by (simp add: chosen_def)
next
  case (used e cm)
  have l: "line_count e = stack_count (pool s i) \<and> (\<forall>con < stack_count (pool s i).
      get_call_stack_string addr2line (stacks (pool s i) ! con) = Some (line_at e con))"
    by (rule report_lines [OF used(2)]) (use assms(2,3) in \<open>fastforce simp: texts_ok_def\<close>)+
  then have "map (line_at e) [0..<line_count e] = map (context_string addr2line s i) [0..<stack_count (pool s i)]"
    by (simp add: context_string_def)
  then have "full e = full_of addr2line s n el i"
    using report_contexts_fold [OF used(2)] by (simp add: full_def full_of_def)
  moreover have "conflict_rate e = rate_of s n i" "frequency e = freq_of s n el i"
    using report_contexts_fold [OF used(2)] by simp_all
  ultimately show ?thesis using used(1) by (auto simp: used(3) classify_full chosen_def)
qed

lemma report_all_full:
  assumes "report_all addr2line raw el n s is r = Ret u r'" and "map_ok (call_stack_map r)" and "\<forall>i\<in>set is. texts_ok addr2line s i"
  shows "map full (high_conflict_high_freq r') = map full (high_conflict_high_freq r) @ map (full_of addr2line s n el) (chosen s n el True True is) \<and>
    map full (high_conflict_low_freq r') = map full (high_conflict_low_freq r) @ map (full_of addr2line s n el) (chosen s n el True False is) \<and>
    map full (low_conflict_high_freq r') = map full (low_conflict_high_freq r) @ map (full_of addr2line s n el) (chosen s n el False True is)"
  using assms
proof (induction "is" arbitrary: r)
  case Nil
  then show ?case by (simp add: chosen_def)
next
  case (Cons i "is")
  then obtain r1 where r1: "report_mutex addr2line (raw i) el n s i r = Ret () r1"
    and r': "report_all addr2line raw el n s is r1 = Ret u r'" by (auto simp: bnd_eq_Ret)
  have "map_ok (call_stack_map r1)" using report_mutex_Ret [OF r1 Cons.prems(2)] by blast
  from Cons.IH [OF r' this] report_mutex_full [OF r1 Cons.prems(2)] Cons.prems(3)
  show ?case by (auto simp: chosen_def)
qed

lemma context_line:
  "texts_ok addr2line s i \<Longrightarrow> con < stack_count (pool s i) \<Longrightarrow> nl \<notin> set (context_string addr2line s i con)"
  by (fastforce simp: texts_ok_def context_string_def)

lemma full_lines:
  assumes "map full es = map (full_of addr2line s n el) is" and "\<forall>i\<in>set is. texts_ok addr2line s i"
  shows "\<forall>e\<in>set es. lines_ok e"
proof
  fix e assume "e \<in> set es"
  then have "full e \<in> full_of addr2line s n el ` set is" using assms(1) by (metis image_eqI set_map)
  with assms(2) show "lines_ok e" by (auto simp: lines_ok_full full_of_def context_line)
qed

lemma shown_full:
  "map full es = map g is \<Longrightarrow> map (shown_of dbl) es = map (\<lambda>i. case g i of (a, b, ls) \<Rightarrow> (dbl a, dbl b, ls)) is"
proof -
  assume e: "map full es = map g is"
  have "map (shown_of dbl) es = map (\<lambda>(a, b, ls). (dbl a, dbl b, ls)) (map full es)"
    by (simp add: shown_of_def full_def)
  then show ?thesis by (simp add: e case_prod_unfold)
qed

lemma hex_line: "nl \<notin> set (hex n)"
proof (induction n rule: hex.induct)
  case (1 n)
  have d: "char_of m \<noteq> nl" if "10 < m" "m < 256" for m :: nat
  proof
    assume "char_of m = nl"
    then have "of_char (char_of m :: char) = (of_char nl :: nat)" by simp
    then show False using that by (simp add: nl_def)
  qed
  have "n mod 16 < 16" by simp
  then have "nl \<noteq> (if n mod 16 < 10 then char_of (48 + n mod 16) else char_of (87 + n mod 16))"
    using d [of "48 + n mod 16", symmetric] d [of "87 + n mod 16", symmetric] by simp
  with 1 show ?case by (cases "n < 16") (auto simp: hex.simps [of n] Let_def)
qed

text \<open>The rows of the table, one for each thread; the assertion on the index holds as long as the table of
  the threads is not larger than its array.\<close>

definition row_of :: "(real \<Rightarrow> string) \<Rightarrow> xthread \<Rightarrow> report \<Rightarrow> nat \<Rightarrow> string" where
  "row_of dbl x r k = thread_row dbl k (threads x k) (thread_waits r k)"

lemma thread_rows_eq:
  "thread_rows dbl r is fs x =
    (if \<forall>k\<in>set is. k < MAX_THREADS then Ret (fs @ text_of (map (row_of dbl x r) is)) x else Abort)"
  by (induction "is" arbitrary: fs) (simp_all add: getThreadInfoByIndex_def assrt_def row_of_def)

lemma thread_waits_csv_eq:
  "thread_waits_csv dbl x r = (if threadIndex x \<le> MAX_THREADS
     then Ret (text_of (''tid, type, runtime, wait_time'' # map (row_of dbl x r) [0..<threadIndex x])) x else Abort)"
  by (auto simp: thread_waits_csv_def thread_rows_eq)

lemma waits_lines:
  assumes "\<forall>y. nl \<notin> set (dbl y)" and "thread_waits_csv dbl x r = Ret t x'"
  shows "split_lines t = ''tid, type, runtime, wait_time'' # map (row_of dbl x r) [0..<threadIndex x]"
proof -
  from assms(2) have t: "t = text_of (''tid, type, runtime, wait_time'' # map (row_of dbl x r) [0..<threadIndex x])"
    by (simp only: thread_waits_csv_eq out.inject out.distinct split: if_splits) blast
  have p: "nl \<notin> set (ptr a)" for a using hex_line by (auto simp: ptr_def nl_def)
  have "nl \<notin> set (row_of dbl x r k)" for k
    using assms dec_line [of k] p by (auto simp: row_of_def thread_row_def nl_def)
  moreover have "nl \<notin> set ''tid, type, runtime, wait_time''" by (simp add: nl_def)
  ultimately show ?thesis unfolding t by (intro split_text) auto
qed

section \<open>Property\<close>

text \<open>
  C40 (the files of the report). If the texts of the contexts are single lines that fit, then a reader of \<open>syncperf.report\<close>
  finds in its three sections, in order, exactly the mutexes that belong there, each with its rate, its
  frequency and the text of every recorded context, and behind them in order the asymmetric locks; and the
  table of the threads has one row for each thread, with the sum of its waits over all mutexes.
\<close>

theorem files_read_back:
  assumes "print_files dbl shell file raw x s = Ret fs r" and "\<forall>i\<in>set (mutexes s). texts_ok (source_line shell file) s i"
    and "\<forall>y. nl \<notin> set (dbl y)"
  shows "(let n = threadIndex x; el = elapsed_time_for_freq x; text = context_string (source_line shell file) s;
      lst = (\<lambda>c f. map (\<lambda>i. (dbl (rate_of s n i), dbl (freq_of s n el i), map (text i) [0..<stack_count (pool s i)]))
        (chosen s n el c f (mutexes s)))
    in (\<exists>locks. read_summary (summary fs) = Some (lst True True, lst True False, lst False True, locks) \<and>
        sorted_wrt (<) locks \<and>
        set locks = {k. unlike (concat (map (\<lambda>i. context_rates (source_line shell file) s n i k) (mutexes s)))}) \<and>
      split_lines (waits_table fs) = ''tid, type, runtime, wait_time'' #
        map (\<lambda>k. dec k @ '', '' @ ptr (startRoutine (threads x k)) @ '', '' @ dbl (actualRuntime (threads x k)) @ '','' @
          dbl (\<Sum>i\<leftarrow>mutexes s. waits_of s i k)) [0..<n])"
proof -
  let ?a = "source_line shell file" and ?n = "threadIndex x" and ?el = "elapsed_time_for_freq x"
  obtain locks where pr: "print_report ?a raw x s = Ret locks r"
    and fs: "summary fs = syncperf_report dbl locks r" and wt: "\<exists>x'. thread_waits_csv dbl x r = Ret (waits_table fs) x'"
    using assms(1) by (auto simp: print_files_def setFileName_def bnd_eq_Ret split: option.splits if_splits)
  note p = print_report_Ret [OF pr]
  note all = report_all_Ret [OF p [THEN conjunct1] new_report_ok]
  have full: "map full (high_conflict_high_freq r) = map (full_of ?a s ?n ?el) (chosen s ?n ?el True True (mutexes s))"
    "map full (high_conflict_low_freq r) = map (full_of ?a s ?n ?el) (chosen s ?n ?el True False (mutexes s))"
    "map full (low_conflict_high_freq r) = map (full_of ?a s ?n ?el) (chosen s ?n ?el False True (mutexes s))"
    using report_all_full [OF p [THEN conjunct1] new_report_ok assms(2)] by (simp_all add: new_report_def)
  have "\<forall>i\<in>set (chosen s ?n ?el c f (mutexes s)). texts_ok ?a s i" for c f using assms(2) by (simp add: chosen_def)
  note ok = full [THEN full_lines, OF this]
  have m: "map_ok (call_stack_map r)"
    "\<And>k. rates k (call_stack_map r) = concat (map (\<lambda>i. context_rates ?a s ?n i k) (mutexes s))"
    using all by (simp_all add: rates_def new_report_def)
  have locks: "sorted_wrt (<) locks" "set locks = {k. unlike (concat (map (\<lambda>i. context_rates ?a s ?n i k) (mutexes s)))}"
    using find_exact [OF m(1)] p by (simp_all add: m(2))
  have "nl \<notin> set k" if "k \<in> set locks" for k
  proof -
    have "concat (map (\<lambda>i. context_rates ?a s ?n i k) (mutexes s)) \<noteq> []"
      using that locks(2) by (simp add: unlike_def del: concat_eq_Nil_conv) (metis list.size(3) not_less_zero)
    then obtain i where i: "i \<in> set (mutexes s)" "context_rates ?a s ?n i k \<noteq> []" by auto
    then obtain con where "con < stack_count (pool s i)" "context_string ?a s i con = k"
      by (auto simp: context_rates_def filter_empty_conv split: if_splits)
    with context_line i(1) assms(2) show ?thesis by blast
  qed
  with ok have "read_summary (summary fs) = Some (map (shown_of dbl) (high_conflict_high_freq r),
      map (shown_of dbl) (high_conflict_low_freq r), map (shown_of dbl) (low_conflict_high_freq r), locks)"
    unfolding fs by (intro read_summary_back assms(3)) auto
  moreover have "map (row_of dbl x r) [0..<?n] = map (\<lambda>k. dec k @ '', '' @ ptr (startRoutine (threads x k)) @ '', '' @
      dbl (actualRuntime (threads x k)) @ '','' @ dbl (\<Sum>i\<leftarrow>mutexes s. waits_of s i k)) [0..<?n]"
    using all by (simp add: row_of_def thread_row_def new_report_def)
  ultimately show ?thesis using locks full [THEN shown_full, of dbl]
    using wt waits_lines [OF assms(3)] by (auto simp: full_of_def)
qed

definition demo_shell :: "string \<Rightarrow> string option" where
  "demo_shell cmd = Some ''/src/a.c:12.''"

definition demo_dbl :: "real \<Rightarrow> string" where
  "demo_dbl y = (if y = 50 then ''50'' else ''else'')"

lemma demo_source: "source_line demo_shell ''app'' = demo_line"
proof
  fix c
  have "nul \<notin> set ''/src/a.c:12.''" by (simp add: nul_def)
  with command_fits [of "''app''" c] show "source_line demo_shell ''app'' c = demo_line c"
    by (simp add: source_line_def demo_shell_def demo_line_def exec_all MAXBUFSIZE_def)
qed

theorem files_read_back_witness:
  "\<exists>fs r locks. print_files demo_dbl demo_shell ''app'' (\<lambda>_. demo_raw) demo_threads (demo_state 2000 1000) = Ret fs r \<and>
    read_summary (summary fs) = Some ([(''50'', ''else'', [''a.c:12 ''])], [], [(''else'', ''else'', [''a.c:12 ''])], locks)"
proof -
  obtain ks r where "print_report demo_line (\<lambda>_. demo_raw) demo_threads (demo_state 2000 1000) = Ret ks r"
    using demo_prints by blast
  then obtain fs where p: "print_files demo_dbl demo_shell ''app'' (\<lambda>_. demo_raw) demo_threads (demo_state 2000 1000) = Ret fs r"
    by (simp add: print_files_def setFileName_def demo_source MAXBUFSIZE_def thread_waits_csv_eq)
  have t: "\<forall>i\<in>set (mutexes (demo_state 2000 1000)). texts_ok (source_line demo_shell ''app'') (demo_state 2000 1000) i"
    by (simp add: texts_ok_def demo_source nul_def nl_def)
  have d: "\<forall>y. nl \<notin> set (demo_dbl y)" by (simp add: demo_dbl_def nl_def)
  obtain locks where "read_summary (summary fs) =
      Some ([(''50'', ''else'', [''a.c:12 ''])], [], [(''else'', ''else'', [''a.c:12 ''])], locks)"
    using files_read_back [OF p t d]
    by (auto simp: Let_def chosen_def rate_of_def freq_of_def context_string_def demo_source demo_dbl_def)
  with p show ?thesis by blast
qed

end
