(* ===== verification/ThreadProps.thy ===== *)
theory ThreadProps
  imports XThread
begin

text \<open>
  What the thread table of \<open>source/xthread.h\<close> keeps from \<open>initialize\<close> on, over every sequence of
  creations, thread bodies and joins: the invariant of the counts, levels and index ranges; where its
  limits are met; what a new slot holds; and how its phases end.
\<close>

section \<open>Properties\<close>

text \<open>The start used by the witnesses: a machine whose counter stands still.\<close>

definition start0 :: process where
  "start0 = \<lparr>tbl = first_table (\<lambda>_. 0) 0 0, unjoined = 0, leaked = 0\<rparr>"

lemma start0_fields [simp]:
  "threadIndex (tbl start0) = 1" "threadLevel (tbl start0) = 0" "aliveThreads (tbl start0) = 1"
  "unjoined start0 = 0" "leaked start0 = 0"
  by (simp_all add: start0_def first_table_def loaded_def)

lemma start0_booted: "booted (\<lambda>_. 0) 0 0 start0"
  by (simp add: booted_table start0_def)

lemma start0_creates: "\<exists>t. thread_create tsc gtid 0 fn arg res (tbl start0) = Ret res t"
proof -
  have c: "0 < threadIndex (tbl start0)" by simp
  have "\<not> create_full 1 (tbl start0)" by (simp add: create_full_def)
  then show ?thesis using table_create_returns(2) [OF _ _ c] booted_ok [OF start0_booted] by blast
qed

lemma start0_run: "\<exists>t. xstep\<^sup>*\<^sup>* start0 \<lparr>tbl = t, unjoined = 1, leaked = 0\<rparr> \<and> threadLevel t = 1"
proof -
  obtain t where t: "thread_create (\<lambda>_. 0) 0 0 0 0 0 (tbl start0) = Ret 0 t" using start0_creates by blast
  have "0 < threadIndex (tbl start0)" by simp
  from xstep.create [OF this t] have "xstep start0 \<lparr>tbl = t, unjoined = 1, leaked = 0\<rparr>"
    by (simp add: start0_def)
  moreover have "threadLevel t = 1"
    using create_level [OF conjunct1 [OF booted_ok [OF start0_booted]] t] by simp
  ultimately show ?thesis by blast
qed

lemma start0_leaks: "\<exists>t. xstep\<^sup>*\<^sup>* start0 \<lparr>tbl = t, unjoined = 0, leaked = 1\<rparr>"
proof -
  obtain t where t: "thread_create (\<lambda>_. 0) 0 0 0 0 11 (tbl start0) = Ret 11 t" using start0_creates by blast
  have "0 < threadIndex (tbl start0)" by simp
  from xstep.create_fails [OF this _ t] have "xstep start0 \<lparr>tbl = t, unjoined = 0, leaked = 1\<rparr>"
    by (simp add: start0_def)
  then show ?thesis by blast
qed

text \<open>C23 (the thread table): from \<open>initialize\<close> on, whatever threads create, run and join in whatever
  order, the count of threads alive is one more than the creations not joined, it stays within its limit, as
  do the slots handed out and the level; the program is in a parallel phase (an odd level, the
  multithreading flag set) exactly while the count is above one; the last level's range of indices
  then ends at the newest slot; and each slot holds its own index.\<close>

theorem thread_table_inv:
  assumes "booted tsc gtid self p" and "xstep\<^sup>*\<^sup>* p q"
  shows "unat (aliveThreads (tbl q)) = 1 + unjoined q + leaked q \<and> unat (aliveThreads (tbl q)) \<le> MAX_ALIVE_THREADS \<and>
    threadIndex (tbl q) \<le> MAX_THREADS \<and> threadLevel (tbl q) < MAX_THREAD_LEVELS \<and>
    isMultithreading (tbl q) = (1 < aliveThreads (tbl q)) \<and>
    odd (threadLevel (tbl q)) = (1 < aliveThreads (tbl q)) \<and>
    (1 < aliveThreads (tbl q) \<longrightarrow>
       beginIndex (levelInfo (tbl q) (threadLevel (tbl q))) \<le> int (threadIndex (tbl q)) - 1 \<and>
       endIndex (levelInfo (tbl q) (threadLevel (tbl q))) = int (threadIndex (tbl q)) - 1) \<and>
    (\<forall>i<threadIndex (tbl q). t_index (threads (tbl q) i) = int i)"
proof -
  have "1 < aliveThreads (tbl q) \<longleftrightarrow> 1 < unat (aliveThreads (tbl q))" by (simp add: word_less_nat_alt)
  with booted_run [OF assms] show ?thesis
    by (auto simp: table_ok_def slots_ok_def span_def split: if_splits)
qed

theorem thread_table_inv_witness:
  "\<exists>t. xstep\<^sup>*\<^sup>* start0 \<lparr>tbl = t, unjoined = 1, leaked = 0\<rparr> \<and> unat (aliveThreads t) = 2 \<and> odd (threadLevel t) \<and>
    t_index (threads t 0) = 0"
proof -
  obtain t where t: "xstep\<^sup>*\<^sup>* start0 \<lparr>tbl = t, unjoined = 1, leaked = 0\<rparr>" "threadLevel t = 1"
    using start0_run by blast
  from thread_table_inv [OF start0_booted t(1)] t show ?thesis
    using booted_run [OF start0_booted t(1)] by (auto simp: table_ok_def)
qed

text \<open>The limits: in any reachable table, creating a thread aborts exactly when all 2048 slots have been handed
  out or 128 threads are counted as alive; and a successful join leaves the array of levels exactly
  when it is the last one of a phase at level 255.\<close>

lemma thread_capacity:
  assumes "booted tsc gtid self p" and "xstep\<^sup>*\<^sup>* p q" and "current < threadIndex (tbl q)"
  shows "(thread_create tsc' g current fn arg res (tbl q) = Abort \<longleftrightarrow>
      threadIndex (tbl q) = MAX_THREADS \<or> unat (aliveThreads (tbl q)) = MAX_ALIVE_THREADS) \<and>
    (1 < aliveThreads (tbl q) \<longrightarrow> (thread_join tsc' 0 (tbl q) = Abort \<longleftrightarrow>
      unat (aliveThreads (tbl q)) = 2 \<and> threadLevel (tbl q) = 255))"
proof -
  define k where "k = unjoined q + leaked q"
  have ok: "table_ok (Suc k) (tbl q)" "slots_ok (tbl q)" using booted_run [OF assms(1,2)] by (simp_all add: k_def)
  have ev: "k = 0 \<Longrightarrow> threadLevel (tbl q) \<noteq> 255" using ok(1) by (auto simp: table_ok_def)
  have n: "unat (aliveThreads (tbl q)) = Suc k" using ok(1) by (simp add: table_ok_def)
  have pos: "1 < aliveThreads (tbl q) \<Longrightarrow> 0 < k" using n by (simp add: word_less_nat_alt)
  show ?thesis
    using table_create_returns(1) [OF ok assms(3)] table_join_returns(1) [OF ok(1) pos] ev n
    by (auto simp: create_full_def join_full_def)
qed

text \<open>C25 (a new slot): the slot a creation fills holds its own index, the index of the creating
  thread, and the level; but the level is read before the phase changes, so the first thread of
  a parallel phase is counted in the serial level before it, whose range does not hold it; and
  the runtime of the parent is looked up before the parent's index is stored, so it is always that
  of the main thread, which is never set, and 0.\<close>

theorem created_slot:
  assumes "booted tsc gtid self p" and "xstep\<^sup>*\<^sup>* p q" and "current < threadIndex (tbl q)"
    and "thread_create tsc' g current fn arg res (tbl q) = Ret r t"
  shows "(let i = threadIndex (tbl q); c = threads t i in
    t_index c = int i \<and> t_pindex c = int current \<and> startRoutine c = fn \<and> startArg c = arg \<and>
    parentRuntime c = 0 \<and>
    levelIndex c = (if aliveThreads (tbl q) = 1 then threadLevel t - 1 else threadLevel t) \<and>
    fst (span t) \<le> int i \<and> snd (span t) = int i \<and> threadLevel t = (if aliveThreads (tbl q) = 1 then 1 else 0) + threadLevel (tbl q))"
proof -
  define k where "k = 1 + unjoined q + leaked q"
  have ok: "table_ok k (tbl q)" "slots_ok (tbl q)" using booted_run [OF assms(1,2)] by (simp_all add: k_def)
  have k: "unat (aliveThreads (tbl q)) = k" "0 < k" "k \<le> 128" using ok(1) by (simp_all add: table_ok_def)
  then have one: "aliveThreads (tbl q) = 1 \<longleftrightarrow> k = 1" by (auto simp: word_unat_eq_iff)
  from assms(4) obtain i u where a: "allocThreadIndex tsc' g current (tbl q) = Ret i u"
    and t: "t = upd_thread i (\<lambda>t. t\<lparr>startRoutine := fn, startArg := arg\<rparr>) u"
    by (auto simp: thread_create_def bnd_eq_Ret)
  note p = alloc_post [OF a k(1,3)]
  have z: "threads (tbl q) i = zero_thread" using ok(2) p by (simp add: slots_ok_def)
  have sp: "span t = span u" by (simp add: t span_def)
  show ?thesis
    using alloc_slots [OF a k assms(3) z] p sp ok k assms(3) one
    by (auto simp: t Let_def slots_ok_def table_ok_def level_after_def span_after_def span_def split: if_splits)
qed

theorem created_slot_witness:
  "\<exists>t. thread_create (\<lambda>_. 0) 0 0 7 8 0 (tbl start0) = Ret 0 t \<and> levelIndex (threads t 1) = 0 \<and> threadLevel t = 1 \<and>
    parentRuntime (threads t 1) = 0"
proof -
  obtain t where t: "thread_create (\<lambda>_. 0) 0 0 7 8 0 (tbl start0) = Ret 0 t" using start0_creates by blast
  have "0 < threadIndex (tbl start0)" by simp
  from created_slot [OF start0_booted rtranclp.rtrancl_refl this t] t show ?thesis by (simp add: Let_def)
qed

text \<open>Levels run out: a program that creates and joins one thread at a time uses two levels per round, and
  the join of the 128th round leaves the array of 256 levels; fewer rounds do not.\<close>

lemma rounds_overrun:
  assumes "booted tsc gtid self p"
  shows "rounds tsc' g fn arg n (tbl p) = Abort \<longleftrightarrow> 128 \<le> n"
proof -
  have ok: "table_ok 1 (tbl p)" "slots_ok (tbl p)" using booted_ok [OF assms] by simp_all
  have s0: "threadLevel (tbl p) = 0" "threadIndex (tbl p) = 1"
    using assms by (simp_all add: booted_table first_table_def loaded_def)
  note below = rounds_below [OF ok s0, of _ tsc' g fn arg]
  obtain t where t: "rounds tsc' g fn arg 127 (tbl p) = Ret () t" "table_ok 1 t" "slots_ok t"
    "threadLevel t = 254" "threadIndex t = 128" using below [of 127] by auto
  have c0: "0 < threadIndex t" and nf: "\<not> create_full 1 t" using t by (simp_all add: create_full_def)
  obtain u where u: "thread_create tsc' g 0 fn arg 0 t = Ret 0 u"
    using table_create_returns(2) [OF t(2,3) c0 nf] by blast
  have "table_ok (Suc 1) u" using table_create [OF t(2,3) c0 u] by simp
  moreover have "threadLevel u = 255" using create_level [OF t(2) u] t(4) by simp
  ultimately have j: "thread_join tsc' 0 u = Abort" using table_join_returns(1) [of 1 u] by (simp add: join_full_def)
  then have "rounds tsc' g fn arg (Suc 127) (tbl p) = Abort"
    by (simp only: rounds.simps t(1) u j bnd_simps)
  then have a: "rounds tsc' g fn arg 128 (tbl p) = Abort" by simp
  have "rounds tsc' g fn arg m (tbl p) = Abort" if "128 \<le> m" for m
    using that by (induction m rule: dec_induct) (simp_all add: a)
  then show ?thesis using below [of n] by (cases "n \<le> 127") auto
qed

text \<open>A failed creation: \<open>thread_create\<close> does not undo its count when \<open>pthread_create\<close> fails,
  so from then on the program never counts as serial again, whatever is created and joined.\<close>

lemma failed_create_leaks:
  assumes "booted tsc gtid self p" and "xstep\<^sup>*\<^sup>* p q" and "current < threadIndex (tbl q)" and "res \<noteq> 0"
    and "thread_create tsc' g current fn arg res (tbl q) = Ret r t"
    and "xstep\<^sup>*\<^sup>* (q\<lparr>tbl := t, leaked := leaked q + 1\<rparr>) z"
  shows "r = res \<and> isMultithreading (tbl z) \<and> unjoined z + 2 \<le> unat (aliveThreads (tbl z))"
proof -
  have "xstep q (q\<lparr>tbl := t, leaked := leaked q + 1\<rparr>)" by (rule xstep.create_fails [OF assms(3,4,5)])
  then have run: "xstep\<^sup>*\<^sup>* p z" using assms(2,6) by (meson rtranclp.rtrancl_into_rtrancl rtranclp_trans)
  have "0 < leaked z" using leaked_mono [OF assms(6)] by simp
  moreover have "r = res" using assms(5) by (auto simp: thread_create_def bnd_eq_Ret)
  ultimately show ?thesis using booted_run [OF assms(1) run] by (auto simp: table_ok_def)
qed

text \<open>C24 (phases end): while no creation has failed and a level is left, joining the threads that are left
  ends the phase: the joins return, one thread counts as alive, the flag is cleared and a serial level
  begins.\<close>

theorem joins_end_phase:
  assumes "booted tsc gtid self p" and "xstep\<^sup>*\<^sup>* p q" and "leaked q = 0" and "0 < unjoined q"
    and "threadLevel (tbl q) + 1 < MAX_THREAD_LEVELS"
  shows "\<exists>t. join_all tsc' (unjoined q) (tbl q) = Ret () t \<and> aliveThreads t = 1 \<and> \<not> isMultithreading t \<and>
    threadLevel t = threadLevel (tbl q) + 1 \<and> even (threadLevel t)"
proof -
  have "table_ok (Suc (unjoined q)) (tbl q)" "slots_ok (tbl q)" using booted_run [OF assms(1,2)] assms(3) by simp_all
  from join_all_serial [OF this assms(4,5), of tsc'] obtain t where
    t: "join_all tsc' (unjoined q) (tbl q) = Ret () t" "table_ok 1 t" "threadLevel t = threadLevel (tbl q) + 1" by blast
  have "aliveThreads t = 1" using t(2) by (simp add: table_ok_def word_unat_eq_iff)
  with t show ?thesis by (auto simp: table_ok_def)
qed

theorem joins_end_phase_witness:
  "\<exists>t u. xstep\<^sup>*\<^sup>* start0 \<lparr>tbl = t, unjoined = 1, leaked = 0\<rparr> \<and> join_all (\<lambda>_. 0) 1 t = Ret () u \<and> threadLevel u = 2"
proof -
  obtain t where t: "xstep\<^sup>*\<^sup>* start0 \<lparr>tbl = t, unjoined = 1, leaked = 0\<rparr>" "threadLevel t = 1"
    using start0_run by blast
  from joins_end_phase [OF start0_booted t(1), where tsc' = "\<lambda>_. 0"] t show ?thesis by auto
qed

end
