(* ===== verification/Lifecycle.thy ===== *)
theory Lifecycle
  imports ReportText ThreadProps
begin

unbundle bit_operations_syntax

text \<open>
  A whole run of the profiler (\<open>source/libdefault.cpp\<close>, \<open>xrun.h\<close>, \<open>mm.hh\<close>): the constructor sets up the thread
  table, the pool of entries and the array of counters, the program creates and joins threads and its mutex
  operations count, and the destructor closes the last level and writes the report. Finding the real
  functions and signals are in \<open>Startup\<close>; whether the kernel gives the memory is an argument.
  Shown: the report is written, and it says what the history of the run says.
\<close>

section \<open>Start and end\<close>

text \<open>The bits of \<open>sys/mman.h\<close>; \<open>mmap_ok\<close> tells for the arguments of \<open>mmap\<close> whether the kernel gives the
  memory, which holds \<open>memory\<close>.\<close>

type_synonym mmap_answer = "u64 \<Rightarrow> u64 \<Rightarrow> i32 \<Rightarrow> i32 \<Rightarrow> i32 \<Rightarrow> bool"

definition allocate :: "mmap_answer \<Rightarrow> bool \<Rightarrow> u64 \<Rightarrow> i32 \<Rightarrow> u64 \<Rightarrow> 'a \<Rightarrow> (unit, 'a) out" where
  "allocate mmap_ok isShared sz fd startaddr memory =
     (let protInfo = 1 OR 2;
          sharedInfo = (if isShared then 1 else 2);
          sharedInfo = sharedInfo OR (if fd = -1 then 0x20 else 0);
          sharedInfo = sharedInfo OR (if startaddr \<noteq> 0 then 0x10 else 0);
          sharedInfo = sharedInfo OR 0x4000
      in if mmap_ok startaddr sz protInfo sharedInfo fd then Ret () memory else Abort)"

definition mmapAllocatePrivate :: "mmap_answer \<Rightarrow> u64 \<Rightarrow> u64 \<Rightarrow> i32 \<Rightarrow> 'a \<Rightarrow> (unit, 'a) out" where
  "mmapAllocatePrivate mmap_ok sz startaddr fd memory = allocate mmap_ok False sz fd startaddr memory"

record profiler =
  p_threads :: xthread
  p_nptl :: nptl
  p_initialized :: bool

definition zero_entry :: mutex_t where
  "zero_entry = \<lparr>real_mutex = zero_mutex, entry_index = 0, stack_count = 0, esp_offset = replicate 100 0,
     eip = replicate 100 0, stacks = replicate 100 (replicate 7 0)\<rparr>"

definition zero_counters :: thread_mutex_t where
  "zero_counters = \<lparr>access_count = 0, fail_count = 0, cond_waits = 0, trylock_fail_count = 0, cond_futex_wait = 0, futex_wait = 0\<rparr>"

definition xrun_initialize :: "(nat \<Rightarrow> u64) \<Rightarrow> i32 \<Rightarrow> u64 \<Rightarrow> profiler \<Rightarrow> (unit, profiler) out" where
  "xrun_initialize tsc gtid self p =
     bnd (initialize_threads tsc gtid self (p_threads p)) (\<lambda>_ x.
       Ret () (p\<lparr>p_nptl := (p_nptl p)\<lparr>totalLocks := 0\<rparr>, p_threads := x\<rparr>))"

definition xrun_finalize :: "u64 \<Rightarrow> profiler \<Rightarrow> (unit, profiler) out" where
  "xrun_finalize now p = bnd (finalize_threads now (p_threads p)) (\<lambda>_ x. Ret () (p\<lparr>p_threads := x\<rparr>))"

text \<open>Anonymous memory is zero. A \<open>thread_mutex_t\<close> takes 32 bytes.\<close>

definition counters_bytes :: u64 where
  "counters_bytes = word_of_nat (MAX_SYNC_ENTRIES * MAX_THREADS) * 32"

definition initializer :: "(nat \<Rightarrow> u64) \<Rightarrow> i32 \<Rightarrow> u64 \<Rightarrow> bool \<Rightarrow> mmap_answer \<Rightarrow> profiler \<Rightarrow> (unit, profiler) out" where
  "initializer tsc gtid self pool_ok mmap_ok p =
     bnd (xrun_initialize tsc gtid self p) (\<lambda>_ p.
       bnd (RecordEntries.initialize pool_ok zero_entry (word_of_nat MAX_SYNC_ENTRIES)) (\<lambda>_ r.
         bnd (mmapAllocatePrivate mmap_ok counters_bytes 0 (-1) (\<lambda>_. zero_counters)) (\<lambda>_ a.
           Ret () (p\<lparr>p_nptl := (p_nptl p)\<lparr>sync_vars := r, tsd := a\<rparr>, p_initialized := True\<rparr>))))"

definition finalizer ::
  "(real \<Rightarrow> string) \<Rightarrow> (string \<Rightarrow> string option) \<Rightarrow> string \<Rightarrow> (nat \<Rightarrow> sync_perf_t) \<Rightarrow> u64 \<Rightarrow> profiler \<Rightarrow>
    (files, report) out" where
  "finalizer dbl shell link raw now p =
     bnd (xrun_finalize now (p\<lparr>p_initialized := False\<rparr>)) (\<lambda>_ p.
       print_files dbl shell link raw (p_threads p) (p_nptl p))"

text \<open>The functions put in the place of the real ones.\<close>

definition pthread_create ::
  "(nat \<Rightarrow> u64) \<Rightarrow> i32 \<Rightarrow> nat \<Rightarrow> u64 \<Rightarrow> u64 \<Rightarrow> i32 \<Rightarrow> xthread \<Rightarrow> (i32, xthread) out" where
  "pthread_create tsc gtid current start_routine arg result = thread_create tsc gtid current start_routine arg result"

definition pthread_join :: "(nat \<Rightarrow> u64) \<Rightarrow> i32 \<Rightarrow> xthread \<Rightarrow> (i32, xthread) out" where
  "pthread_join tsc ret = thread_join tsc ret"

lemma counters_fit: "unat counters_bytes = MAX_SYNC_ENTRIES * MAX_THREADS * 32"
  by (simp add: counters_bytes_def MAX_SYNC_ENTRIES_def)

section \<open>What is counted\<close>

text \<open>The calls of the counting functions, with the entry and the thread.\<close>

datatype event =
    Accessed nat nat
  | Failed nat nat
  | TryFailed nat nat
  | CondWaited nat nat
  | CondTime envr timeinfo nat nat
  | LockTime envr timeinfo nat nat

fun ev_entry :: "event \<Rightarrow> nat" where
  "ev_entry (Accessed i k) = i"
| "ev_entry (Failed i k) = i"
| "ev_entry (TryFailed i k) = i"
| "ev_entry (CondWaited i k) = i"
| "ev_entry (CondTime E st i k) = i"
| "ev_entry (LockTime E st i k) = i"

fun ev_thread :: "event \<Rightarrow> nat" where
  "ev_thread (Accessed i k) = k"
| "ev_thread (Failed i k) = k"
| "ev_thread (TryFailed i k) = k"
| "ev_thread (CondWaited i k) = k"
| "ev_thread (CondTime E st i k) = k"
| "ev_thread (LockTime E st i k) = k"

fun count_event :: "event \<Rightarrow> nptl \<Rightarrow> nptl" where
  "count_event (Accessed i k) s = inc_access_count (word_of_nat i) k s"
| "count_event (Failed i k) s = inc_fail_count (word_of_nat i) k s"
| "count_event (TryFailed i k) s = inc_trylock_fail_count (word_of_nat i) k s"
| "count_event (CondWaited i k) s = inc_cond_wait_count (word_of_nat i) k s"
| "count_event (CondTime E st i k) s = add_cond_wait_time E (word_of_nat i) k st s"
| "count_event (LockTime E st i k) s = add_futex_wait E (word_of_nat i) k st s"

text \<open>What an event adds to the accesses, the failures and the time waited.\<close>

fun ev_access :: "event \<Rightarrow> nat" where
  "ev_access (Accessed i k) = 1"
| "ev_access _ = 0"

fun ev_fail :: "event \<Rightarrow> nat" where
  "ev_fail (Failed i k) = 1"
| "ev_fail (TryFailed i k) = 1"
| "ev_fail _ = 0"

fun ev_time :: "nptl \<Rightarrow> event \<Rightarrow> real" where
  "ev_time s (CondTime E st i k) = get_elapsed2ms st (e_tsc E (clk s))"
| "ev_time s (LockTime E st i k) = get_elapsed2ms st (e_tsc E (clk s))"
| "ev_time s _ = 0"

lemma word_entry: "i < MAX_SYNC_ENTRIES \<Longrightarrow> (word_of_nat i :: u64) < word_of_nat MAX_SYNC_ENTRIES"
  "i < MAX_SYNC_ENTRIES \<Longrightarrow> unat (word_of_nat i :: u64) = i"
  by (simp_all add: word_less_nat_alt MAX_SYNC_ENTRIES_def unat_of_nat)

lemma counter_eq:
  assumes "i < MAX_SYNC_ENTRIES" "j < MAX_SYNC_ENTRIES" "t < MAX_THREADS" "k < MAX_THREADS"
  shows "get_thread_mutex_data (word_of_nat i) t = get_thread_mutex_data (word_of_nat j) k \<longleftrightarrow> i = j \<and> t = k"
  using counter_inj [OF assms(1,2), of t k] counter_at [OF word_entry(1) [OF assms(1)] assms(3)]
    counter_at [OF word_entry(1) [OF assms(2)] assms(4)] assms(1,2) by (auto simp: word_entry(2))

lemma upd_tsd_at:
  assumes "i < MAX_SYNC_ENTRIES" "j < MAX_SYNC_ENTRIES" "t < MAX_THREADS" "k < MAX_THREADS"
  shows "tsd (upd_tsd (word_of_nat j) k f s) (get_thread_mutex_data (word_of_nat i) t) =
    (if i = j \<and> t = k then f else (\<lambda>d. d)) (tsd s (get_thread_mutex_data (word_of_nat i) t))"
  using counter_eq [OF assms] by (auto simp: upd_tsd_def)

lemma count_event_at:
  assumes "i < MAX_SYNC_ENTRIES" "ev_entry ev < MAX_SYNC_ENTRIES" "k < MAX_THREADS" "ev_thread ev < MAX_THREADS"
  shows "(let d = tsd s (get_thread_mutex_data (word_of_nat i) k);
      d' = tsd (count_event ev s) (get_thread_mutex_data (word_of_nat i) k); here = (ev_entry ev = i \<and> ev_thread ev = k) in
    access_count d' = access_count d + (if here then word_of_nat (ev_access ev) else 0) \<and>
    fail_count d' = fail_count d + (if here then word_of_nat (ev_fail ev) else 0) \<and>
    cond_futex_wait d' + futex_wait d' = cond_futex_wait d + futex_wait d + (if here then ev_time s ev else 0))"
  using assms by (cases ev) (auto simp: counter_defs upd_tsd_at)

lemma count_event_frame [simp]:
  "sync_vars (count_event ev s) = sync_vars s" "clk (count_event ev s) = clk s"
  by (cases ev; simp add: counter_defs)+

section \<open>A run\<close>

text \<open>The process, the state of the mutexes, and what has been counted so far, the earliest first, with
  the time each call added.\<close>

record profile =
  pr :: process
  nst :: nptl
  history :: "(event \<times> real) list"

definition made :: "profile \<Rightarrow> nat" where
  "made w = unat (getEntriesNumb (sync_vars (nst w)))"

text \<open>A thread event, a mutex used for the first time, a context recorded, an action of the rest of the program
  on the real mutexes, or a counter changed, for a mutex and a thread that exist.\<close>

inductive pstep :: "profile \<Rightarrow> profile \<Rightarrow> bool" where
  thread: "xstep (pr w) q \<Longrightarrow> pstep w (w\<lparr>pr := q\<rparr>)"
| entry: "create_mutex (nst w) = Ret e s \<Longrightarrow> pstep w (w\<lparr>nst := s\<rparr>)"
| context_added: "add_new_context E e ret esp (nst w) = Ret v s \<Longrightarrow> pstep w (w\<lparr>nst := s\<rparr>)"
| others: "pstep w (w\<lparr>nst := ticks E (nst w)\<rparr>)"
| counted: "ev_entry ev < made w \<Longrightarrow> ev_thread ev < threadIndex (tbl (pr w)) \<Longrightarrow>
     pstep w (w\<lparr>nst := count_event ev (nst w), history := history w @ [(ev, ev_time (nst w) ev)]\<rparr>)"

text \<open>From the constructor to the destructor.\<close>

definition at_start :: "profiler \<Rightarrow> profile" where
  "at_start p = \<lparr>pr = \<lparr>tbl = p_threads p, unjoined = 0, leaked = 0\<rparr>, nst = p_nptl p, history = []\<rparr>"

definition at_exit :: "profile \<Rightarrow> profiler" where
  "at_exit w = \<lparr>p_threads = tbl (pr w), p_nptl = nst w, p_initialized = True\<rparr>"

section \<open>The counters and the history\<close>

definition at_slot :: "nat \<Rightarrow> nat \<Rightarrow> (event \<times> real) list \<Rightarrow> (event \<times> real) list" where
  "at_slot i k h = filter (\<lambda>x. ev_entry (fst x) = i \<and> ev_thread (fst x) = k) h"

definition slots_count :: "nptl \<Rightarrow> (event \<times> real) list \<Rightarrow> bool" where
  "slots_count s h \<longleftrightarrow> (\<forall>i<MAX_SYNC_ENTRIES. \<forall>k<MAX_THREADS.
     let d = tsd s (get_thread_mutex_data (word_of_nat i) k); e = at_slot i k h in
     access_count d = word_of_nat (\<Sum>x\<leftarrow>e. ev_access (fst x)) \<and> fail_count d = word_of_nat (\<Sum>x\<leftarrow>e. ev_fail (fst x)) \<and>
     cond_futex_wait d + futex_wait d = (\<Sum>x\<leftarrow>e. snd x))"

lemma slots_count_event:
  assumes "slots_count s h" "ev_entry ev < MAX_SYNC_ENTRIES" "ev_thread ev < MAX_THREADS"
  shows "slots_count (count_event ev s) (h @ [(ev, ev_time s ev)])"
  unfolding slots_count_def
proof (intro allI impI)
  fix i k assume ik: "i < MAX_SYNC_ENTRIES" "k < MAX_THREADS"
  note e = count_event_at [OF ik(1) assms(2) ik(2) assms(3), of s]
  have "at_slot i k (h @ [(ev, ev_time s ev)]) = at_slot i k h @ (if ev_entry ev = i \<and> ev_thread ev = k then [(ev, ev_time s ev)] else [])"
    by (simp add: at_slot_def)
  with e assms(1) ik show "let d = tsd (count_event ev s) (get_thread_mutex_data (word_of_nat i) k); e = at_slot i k (h @ [(ev, ev_time s ev)]) in
     access_count d = word_of_nat (\<Sum>x\<leftarrow>e. ev_access (fst x)) \<and> fail_count d = word_of_nat (\<Sum>x\<leftarrow>e. ev_fail (fst x)) \<and>
     cond_futex_wait d + futex_wait d = (\<Sum>x\<leftarrow>e. snd x)"
    by (simp add: slots_count_def Let_def)
qed

lemma sum_fibres:
  fixes g :: "'a \<Rightarrow> 'b::comm_monoid_add"
  assumes "\<forall>x\<in>set h. f x < n"
  shows "(\<Sum>k\<leftarrow>[0..<n]. \<Sum>x\<leftarrow>filter (\<lambda>x. f x = k) h. g x) = (\<Sum>x\<leftarrow>h. g x)"
  using assms
proof (induction h)
  case (Cons x h)
  have "(\<Sum>k\<leftarrow>[0..<n]. \<Sum>y\<leftarrow>filter (\<lambda>y. f y = k) (x # h). g y) =
      (\<Sum>k\<leftarrow>[0..<n]. (if f x = k then g x else 0) + (\<Sum>y\<leftarrow>filter (\<lambda>y. f y = k) h. g y))"
    by (intro arg_cong [where f = sum_list] map_cong) auto
  also have "\<dots> = (\<Sum>k\<leftarrow>[0..<n]. if f x = k then g x else 0) + (\<Sum>x\<leftarrow>h. g x)"
    using Cons by (simp add: sum_list_addf)
  also have "(\<Sum>k\<leftarrow>[0..<n]. if f x = k then g x else 0) = g x"
    using Cons.prems by (simp add: sum_list_distinct_conv_sum_set sum.delta')
  finally show ?case by simp
qed simp

lemma word_of_nat_sum: "(\<Sum>k\<leftarrow>ks. word_of_nat (f k)) = (word_of_nat (\<Sum>k\<leftarrow>ks. f k) :: 'a::len word)"
  by (induction ks) simp_all

text \<open>What the history says of a mutex and of a thread.\<close>

definition accesses_in :: "nat \<Rightarrow> (event \<times> real) list \<Rightarrow> nat" where
  "accesses_in i h = (\<Sum>x\<leftarrow>filter (\<lambda>x. ev_entry (fst x) = i) h. ev_access (fst x))"

definition fails_in :: "nat \<Rightarrow> (event \<times> real) list \<Rightarrow> nat" where
  "fails_in i h = (\<Sum>x\<leftarrow>filter (\<lambda>x. ev_entry (fst x) = i) h. ev_fail (fst x))"

definition waited_in :: "nat \<Rightarrow> (event \<times> real) list \<Rightarrow> real" where
  "waited_in k h = (\<Sum>x\<leftarrow>filter (\<lambda>x. ev_thread (fst x) = k) h. snd x)"

lemma slots_sums:
  assumes "slots_count s h" and "\<forall>x\<in>set h. ev_entry (fst x) < m \<and> ev_thread (fst x) < n"
    and "m \<le> MAX_SYNC_ENTRIES" and "n \<le> MAX_THREADS"
  shows "i < m \<Longrightarrow> accesses_of s n i = word_of_nat (accesses_in i h) \<and> fails_of s n i = word_of_nat (fails_in i h)"
    and "k < n \<Longrightarrow> (\<Sum>i\<leftarrow>[0..<m]. waits_of s i k) = waited_in k h"
proof -
  have slot: "at_slot i k h = filter (\<lambda>x. ev_thread (fst x) = k) (filter (\<lambda>x. ev_entry (fst x) = i) h)"
    "at_slot i k h = filter (\<lambda>x. ev_entry (fst x) = i) (filter (\<lambda>x. ev_thread (fst x) = k) h)" for i k
    unfolding at_slot_def filter_filter by (rule filter_cong; auto)+
  show "accesses_of s n i = word_of_nat (accesses_in i h) \<and> fails_of s n i = word_of_nat (fails_in i h)" if "i < m"
  proof -
    have "\<forall>x\<in>set (filter (\<lambda>x. ev_entry (fst x) = i) h). ev_thread (fst x) < n" using assms(2) by simp
    note f = sum_fibres [OF this]
    have "map (\<lambda>k. access_count (tsd s (get_thread_mutex_data (word_of_nat i) k))) [0..<n] =
        map (\<lambda>k. word_of_nat (\<Sum>x\<leftarrow>at_slot i k h. ev_access (fst x))) [0..<n]"
      "map (\<lambda>k. fail_count (tsd s (get_thread_mutex_data (word_of_nat i) k))) [0..<n] =
        map (\<lambda>k. word_of_nat (\<Sum>x\<leftarrow>at_slot i k h. ev_fail (fst x))) [0..<n]"
      using assms(1,3,4) that by (auto simp: slots_count_def Let_def)
    then show ?thesis
      by (simp only: accesses_of_def fails_of_def accesses_in_def fails_in_def word_of_nat_sum slot(1) f simp_thms)
  qed
  show "(\<Sum>i\<leftarrow>[0..<m]. waits_of s i k) = waited_in k h" if "k < n"
  proof -
    have "\<forall>x\<in>set (filter (\<lambda>x. ev_thread (fst x) = k) h). ev_entry (fst x) < m" using assms(2) by simp
    note f = sum_fibres [OF this]
    have "map (\<lambda>i. waits_of s i k) [0..<m] = map (\<lambda>i. \<Sum>x\<leftarrow>at_slot i k h. snd x) [0..<m]"
      using assms(1,3,4) that by (auto simp: slots_count_def Let_def waits_of_def)
    then show ?thesis by (simp only: waited_in_def slot(2) f)
  qed
qed

section \<open>The invariant of a run\<close>

definition pool_inv :: "nptl \<Rightarrow> bool" where
  "pool_inv s \<longleftrightarrow> re_total (sync_vars s) = word_of_nat MAX_SYNC_ENTRIES \<and> unat (re_cur (sync_vars s)) \<le> MAX_SYNC_ENTRIES \<and>
     (\<forall>i<unat (re_cur (sync_vars s)). entry_index (pool s i) = word_of_nat i) \<and> (\<forall>i. ctx_inv (pool s i))"

definition run_inv :: "profile \<Rightarrow> bool" where
  "run_inv w \<longleftrightarrow> table_ok (1 + unjoined (pr w) + leaked (pr w)) (tbl (pr w)) \<and> slots_ok (tbl (pr w)) \<and> pool_inv (nst w) \<and>
     slots_count (nst w) (history w) \<and>
     (\<forall>x\<in>set (history w). ev_entry (fst x) < made w \<and> ev_thread (fst x) < threadIndex (tbl (pr w)))"

text \<open>The part of it that the figures of the report rest on.\<close>

definition count_inv :: "profile \<Rightarrow> bool" where
  "count_inv w \<longleftrightarrow> threadIndex (tbl (pr w)) \<le> MAX_THREADS \<and> pool_inv (nst w) \<and> slots_count (nst w) (history w) \<and>
     (\<forall>x\<in>set (history w). ev_entry (fst x) < made w \<and> ev_thread (fst x) < threadIndex (tbl (pr w)))"

lemma run_count_inv: "run_inv w \<Longrightarrow> count_inv w"
  by (simp add: run_inv_def count_inv_def table_ok_def)

lemma max_entries: "unat (word_of_nat MAX_SYNC_ENTRIES :: u64) = MAX_SYNC_ENTRIES"
  "(word_of_nat MAX_SYNC_ENTRIES :: u64) < 2 ^ 31"
  by (simp_all add: MAX_SYNC_ENTRIES_def word_less_nat_alt)

lemma create_mutex_pool:
  assumes "create_mutex s = Ret e s'" and "pool_inv s"
  shows "pool_inv s' \<and> tsd s' = tsd s \<and> unat (re_cur (sync_vars s')) = unat (re_cur (sync_vars s)) + 1"
proof -
  let ?c = "re_cur (sync_vars s)"
  have c: "unat ?c \<le> MAX_SYNC_ENTRIES" "re_total (sync_vars s) = word_of_nat MAX_SYNC_ENTRIES"
    using assms(2) by (simp_all add: pool_inv_def)
  then have "?c < 2 ^ 31" by (simp add: word_less_nat_alt MAX_SYNC_ENTRIES_def)
  from get_next_index_below [OF this] assms(1) c(2)
  have lt: "?c < word_of_nat MAX_SYNC_ENTRIES"
    and s': "s' = upd_entry (unat ?c) (\<lambda>m. m\<lparr>stack_count := 0, entry_index := ?c\<rparr>)
      (s\<lparr>sync_vars := (sync_vars s)\<lparr>re_cur := ?c + 1\<rparr>\<rparr>)"
    by (auto simp: create_mutex_def getEntry_def Let_def split: out.splits if_splits)
  have u: "unat (?c + 1) = unat ?c + 1" "unat ?c < MAX_SYNC_ENTRIES"
    using lt max_entries unat_plus_if' [of ?c 1] by (simp_all add: word_less_nat_alt MAX_SYNC_ENTRIES_def)
  have "ctx_inv (m\<lparr>stack_count := 0, entry_index := i\<rparr>)" if "ctx_inv m" for m i
    using that by (simp add: ctx_inv_def)
  with assms(2) u show ?thesis by (auto simp: pool_inv_def s' less_Suc_eq)
qed

lemma context_pool:
  assumes "add_new_context E e ret esp s = Ret v s'" and "pool_inv s"
  shows "pool_inv s' \<and> tsd s' = tsd s \<and> re_cur (sync_vars s') = re_cur (sync_vars s)"
proof -
  have "entry_index (put_context F ret esp m) = entry_index m" for F m by (simp add: put_context_def Let_def)
  moreover have "\<not> known_context (pool s e) ret \<Longrightarrow> stack_count (pool s e) < MAX_NUM_STACKS \<Longrightarrow>
      ctx_inv (put_context F ret esp (pool s e))" for F
    using assms(2) put_context_inv by (simp add: pool_inv_def)
  ultimately show ?thesis using assms
    by (auto simp: add_new_context_def pool_inv_def assrt_eq_Ret split: if_splits)
qed

lemma xstep_index:
  assumes "xstep p q" and "table_ok (1 + unjoined p + leaked p) (tbl p)"
  shows "threadIndex (tbl p) \<le> threadIndex (tbl q)"
  using assms(1)
proof (cases rule: xstep.cases)
  case (create current tsc gtid fn arg r t)
  with create_level [OF assms(2)] show ?thesis by simp
next
  case (create_fails current res tsc gtid fn arg r t)
  with create_level [OF assms(2)] show ?thesis by simp
next
  case (join tsc r t)
  with join_level [of "unjoined p + leaked p" "tbl p"] assms(2) show ?thesis by simp
qed (simp_all add: startThread_begin_def setPrivateStackTop_def startThread_end_def thread_join_def)

lemma ticks_pool: "pool_inv s \<Longrightarrow> pool_inv (ticks E s)"
  by (simp add: pool_inv_def ticks_def ctx_inv_def)

lemma pstep_inv:
  assumes "pstep w z" and "run_inv w"
  shows "run_inv z"
  using assms(1)
proof (cases rule: pstep.cases)
  case (thread q)
  have t: "table_ok (1 + unjoined (pr w) + leaked (pr w)) (tbl (pr w))" "slots_ok (tbl (pr w))"
    using assms(2) by (simp_all add: run_inv_def)
  from run_ok [OF r_into_rtranclp [of xstep, OF thread(2)] t] xstep_index [OF thread(2) t(1)] assms(2)
  show ?thesis by (auto simp: run_inv_def thread(1) made_def dest: order.strict_trans2)
next
  case (entry e s)
  with create_mutex_pool [OF entry(2)] assms(2) show ?thesis
    by (auto simp: run_inv_def made_def getEntriesNumb_def slots_count_def intro: less_SucI)
next
  case (context_added E e ret esp v s)
  with context_pool [OF context_added(2)] assms(2) show ?thesis
    by (simp add: run_inv_def made_def getEntriesNumb_def slots_count_def)
next
  case (others E)
  with assms(2) ticks_pool show ?thesis
    by (simp add: run_inv_def made_def getEntriesNumb_def slots_count_def)
next
  case (counted ev)
  have "ev_entry ev < MAX_SYNC_ENTRIES" "ev_thread ev < MAX_THREADS"
    using counted assms(2) by (auto simp: run_inv_def made_def getEntriesNumb_def pool_inv_def table_ok_def)
  with counted assms(2) slots_count_event show ?thesis
    by (simp add: run_inv_def made_def pool_inv_def)
qed

lemma initializer_Ret:
  assumes "initializer tsc gtid self pool_ok mmap_ok p = Ret u p0" and "p_threads p = loaded"
  shows "p_threads p0 = first_table tsc gtid self \<and> p_initialized p0 \<and>
    sync_vars (p_nptl p0) = \<lparr>re_start = (\<lambda>_. zero_entry), re_total = word_of_nat MAX_SYNC_ENTRIES, re_cur = 0\<rparr> \<and>
    tsd (p_nptl p0) = (\<lambda>_. zero_counters) \<and> pool_ok"
  using assms
  by (auto simp: initializer_def xrun_initialize_def initialize_Ret initialize_def mmapAllocatePrivate_def allocate_def
      MAX_SYNC_ENTRIES_def split: if_splits)

lemma start_inv:
  assumes "initializer tsc gtid self pool_ok mmap_ok p = Ret u p0" and "p_threads p = loaded"
  shows "run_inv (at_start p0)"
proof -
  note i = initializer_Ret [OF assms]
  have "ctx_inv zero_entry"
    by (simp add: ctx_inv_def zero_entry_def MAX_NUM_STACKS_def MAX_CALL_STACK_DEPTH_def)
  with i booted_ok [of tsc gtid self "\<lparr>tbl = first_table tsc gtid self, unjoined = 0, leaked = 0\<rparr>"] show ?thesis
    by (simp add: run_inv_def at_start_def booted_table pool_inv_def slots_count_def at_slot_def zero_counters_def Let_def)
qed

lemma run_inv_run:
  assumes "initializer tsc gtid self pool_ok mmap_ok p = Ret u p0" and "p_threads p = loaded"
    and "pstep\<^sup>*\<^sup>* (at_start p0) w"
  shows "run_inv w"
  using assms(3) by (induction rule: rtranclp_induct) (blast intro: start_inv [OF assms(1,2)] pstep_inv)+

section \<open>The report is written\<close>

text \<open>What the report needs of \<open>addr2line\<close>: each line is either unknown or ends in a name that fits a
  sixth of a row.\<close>

definition names_fit :: "(u64 \<Rightarrow> string option) \<Rightarrow> bool" where
  "names_fit addr2line \<longleftrightarrow> (\<forall>c. \<exists>line. addr2line c = Some line \<and> ((line \<noteq> [] \<and> hd line = CHR ''?'') \<or>
     source_name line \<noteq> [] \<and> length (source_name line) \<le> 49))"

lemma stack_string:
  assumes "names_fit addr2line" and "terminated cs k"
  shows "\<exists>str. get_call_stack_string addr2line cs = Some str \<and> length str \<le> 49 * k"
  using assms(2)
proof (induction k arbitrary: cs)
  case 0
  then show ?case by (cases cs) (auto simp: terminated_def)
next
  case (Suc k)
  then obtain c cs' where cs: "cs = c # cs'" by (cases cs) (auto simp: terminated_def)
  with Suc.prems have c: "c \<noteq> 0" and "terminated cs' k" by (fastforce simp: terminated_def)+
  with Suc.IH obtain str where str: "get_call_stack_string addr2line cs' = Some str" "length str \<le> 49 * k" by blast
  obtain l where l: "addr2line c = Some l" "(l \<noteq> [] \<and> hd l = CHR ''?'') \<or> source_name l \<noteq> [] \<and> length (source_name l) \<le> 49"
    using spec [OF assms(1) [unfolded names_fit_def], of c] by blast
  show ?case
  proof (cases "l \<noteq> [] \<and> hd l = CHR ''?''")
    case True
    with c str l(1) show ?thesis by (simp add: cs)
  next
    case False
    with l(2) have n: "source_name l \<noteq> []" "length (source_name l) \<le> 49" by metis+
    then have "length (butlast (source_name l) @ '' '' @ str) \<le> 49 * Suc k" using str(2) by simp
    moreover have "get_call_stack_string addr2line cs = Some (butlast (source_name l) @ '' '' @ str)"
      using False c str(1) n(1) l(1) by (simp add: cs Let_def)
    ultimately show ?thesis by blast
  qed
qed

lemma contexts_print:
  assumes "names_fit addr2line" and "ctx_inv m" and "set cons \<subseteq> {..<stack_count m}"
  shows "\<exists>e' cm'. report_contexts addr2line m cons e cm = Ret e' cm'"
  using assms(3)
proof (induction cons arbitrary: e cm)
  case (Cons con cons)
  then have con: "con < stack_count m" "con < 100" using assms(2) by (auto simp: ctx_inv_def MAX_NUM_STACKS_def)
  with assms(2) obtain d where "terminated (stacks m ! con) d" "d \<le> 6"
    by (auto simp: ctx_inv_def MAX_CALL_STACK_DEPTH_def)
  with stack_string [OF assms(1)] obtain str where
    str: "get_call_stack_string addr2line (stacks m ! con) = Some str" "length str < 300" by fastforce
  have "length (c_str str) \<le> length str" by (simp add: c_str_def length_takeWhile_le)
  with con str have "\<exists>e'. strcpy_line con str e = Ret () e'" by (simp add: strcpy_line_def Let_def MAX_NUM_STACKS_def)
  with str Cons show ?case by (auto simp: Let_def)
qed simp

lemma mutex_prints:
  assumes "names_fit addr2line" and "ctx_inv (pool s i)" and "entry_index (pool s i) = word_of_nat i"
  shows "\<exists>r'. report_mutex addr2line raw el n s i r = Ret () r'"
proof -
  have "\<exists>r'. bnd (report_contexts addr2line (pool s i) [0..<stack_count (pool s i)] e cm) (\<lambda>e cm. Ret () (g e cm)) = Ret () r'"
    for e cm and g :: "sync_perf_t \<Rightarrow> call_map \<Rightarrow> report"
    using contexts_print [OF assms(1,2), of "[0..<stack_count (pool s i)]" e cm] by fastforce
  then show ?thesis using assms(3) by (simp add: report_mutex_def Let_def split_beta del: report_contexts.simps)
qed

lemma all_print:
  assumes "names_fit addr2line" and "\<forall>i\<in>set is. ctx_inv (pool s i) \<and> entry_index (pool s i) = word_of_nat i"
  shows "\<exists>r'. report_all addr2line raw el n s is r = Ret () r'"
  using assms(2)
proof (induction "is" arbitrary: r)
  case (Cons i "is")
  with mutex_prints [OF assms(1)] obtain r1 where "report_mutex addr2line (raw i) el n s i r = Ret () r1" by fastforce
  with Cons show ?case by simp
qed simp

lemma run_mutexes:
  assumes "count_inv w"
  shows "mutexes (nst w) = [0..<made w]"
proof -
  have "unat (getEntriesNumb (sync_vars (nst w))) < 2 ^ 31"
    using assms by (simp add: count_inv_def pool_inv_def getEntriesNumb_def MAX_SYNC_ENTRIES_def)
  from alive_int [OF this] show ?thesis by (simp add: mutexes_def made_def)
qed

text \<open>The table after \<open>finalize\<close>, and the time the report takes for the program's.\<close>

definition closed_table :: "u64 \<Rightarrow> xthread \<Rightarrow> xthread" where
  "closed_table now x = x\<lparr>levelInfo := (levelInfo x)(threadLevel x := (levelInfo x (threadLevel x))
     \<lparr>elapse := get_elapsed2ms (l_startTime (levelInfo x (threadLevel x))) now\<rparr>)\<rparr>"

definition run_ms :: "u64 \<Rightarrow> profile \<Rightarrow> real" where
  "run_ms now w = max 1000 (get_elapsed2ms (l_startTime (levelInfo (tbl (pr w)) (threadLevel (tbl (pr w))))) now)"

lemma finalizer_closes:
  assumes "threadLevel (tbl (pr w)) < MAX_THREAD_LEVELS"
  shows "finalizer dbl shell link raw now (at_exit w) = print_files dbl shell link raw (closed_table now (tbl (pr w))) (nst w)"
  using assms
  by (simp add: finalizer_def xrun_finalize_def finalize_threads_def stopThreadLevelInfo_def upd_level_def at_exit_def
      closed_table_def Let_def)

lemma files_written:
  assumes "count_inv w" and "names_fit (source_line shell link)" and "setFileName link = Some link"
    and "threadIndex x = threadIndex (tbl (pr w))"
  shows "\<exists>fs r. print_files dbl shell link raw x (nst w) = Ret fs r"
proof -
  have "\<forall>i\<in>set (mutexes (nst w)). ctx_inv (pool (nst w) i) \<and> entry_index (pool (nst w) i) = word_of_nat i"
    using assms(1) by (simp add: run_mutexes count_inv_def pool_inv_def made_def getEntriesNumb_def)
  from all_print [OF assms(2) this, of raw "elapsed_time_for_freq x" "threadIndex x" new_report]
  have "\<exists>ks r. print_report (source_line shell link) raw x (nst w) = Ret ks r"
    by (auto simp: print_report_def mutexes_def Let_def)
  moreover have "threadIndex x \<le> MAX_THREADS" using assms(1,4) by (simp add: count_inv_def)
  ultimately show ?thesis using assms(3) by (auto simp: print_files_def thread_waits_csv_eq)
qed

section \<open>The report and the history\<close>

text \<open>A list of the report as the history has it: rate, frequency and number of contexts of the mutexes
  with an access, in the order of their first use.\<close>

definition listed :: "real \<Rightarrow> profile \<Rightarrow> bool \<Rightarrow> bool \<Rightarrow> (real \<times> real \<times> nat) list" where
  "listed el w conflict frequent =
     (let a = (\<lambda>i. accesses_in i (history w)); rate = (\<lambda>i. 100 * real (fails_in i (history w)) / real (a i));
          freq = (\<lambda>i. real (a i) / el)
      in map (\<lambda>i. (rate i, freq i, stack_count (pool (nst w) i)))
           (filter (\<lambda>i. a i \<noteq> 0 \<and> (rate i > 5) = conflict \<and> (freq i > 1) = frequent) [0..<made w]))"

lemma sum_list_le_length: "\<forall>x\<in>set xs. f x \<le> (1 :: nat) \<Longrightarrow> (\<Sum>x\<leftarrow>xs. f x) \<le> length xs"
  by (induction xs) auto

lemma in_le_length: "accesses_in i h \<le> length h" "fails_in i h \<le> length h"
proof -
  have e: "ev_access e \<le> 1" "ev_fail e \<le> 1" for e by (cases e; simp)+
  have "length (filter P h) \<le> length h" for P by (rule length_filter_le)
  then show "accesses_in i h \<le> length h" "fails_in i h \<le> length h"
    unfolding accesses_in_def fails_in_def by (meson e order_trans sum_list_le_length)+
qed

lemma counts_exact:
  assumes "count_inv w" and "length (history w) < 42949673" and "i < made w"
  shows "unat (accesses_of (nst w) (threadIndex (tbl (pr w))) i) = accesses_in i (history w)"
    and "unat (100 * fails_of (nst w) (threadIndex (tbl (pr w))) i) = 100 * fails_in i (history w)"
proof -
  let ?h = "history w"
  have sums: "accesses_of (nst w) (threadIndex (tbl (pr w))) i = word_of_nat (accesses_in i ?h)"
    "fails_of (nst w) (threadIndex (tbl (pr w))) i = word_of_nat (fails_in i ?h)"
    using slots_sums(1) [of "nst w" ?h "made w" "threadIndex (tbl (pr w))" i] assms(1,3)
    by (auto simp: count_inv_def pool_inv_def made_def getEntriesNumb_def)
  have a: "accesses_in i ?h < 2 ^ 32" "100 * fails_in i ?h < 2 ^ 32"
    using in_le_length [of i ?h] assms(2) by simp_all
  show "unat (accesses_of (nst w) (threadIndex (tbl (pr w))) i) = accesses_in i ?h"
    using a(1) by (simp add: sums unat_of_nat)
  have "(100 * word_of_nat (fails_in i ?h) :: u32) = word_of_nat (100 * fails_in i ?h)" by simp
  then show "unat (100 * fails_of (nst w) (threadIndex (tbl (pr w))) i) = 100 * fails_in i ?h"
    unfolding sums using a(2) by (simp only: unat_of_nat) simp
qed

lemma listed_eq:
  assumes "count_inv w" and "length (history w) < 42949673"
  shows "map (perf_of (nst w) (threadIndex (tbl (pr w))) el) (chosen (nst w) (threadIndex (tbl (pr w))) el conflict frequent [0..<made w]) =
    listed el w conflict frequent"
proof -
  let ?s = "nst w" and ?n = "threadIndex (tbl (pr w))" and ?h = "history w"
  have z: "accesses_of ?s ?n i = 0 \<longleftrightarrow> accesses_in i ?h = 0"
    and rt: "rate_of ?s ?n i = 100 * real (fails_in i ?h) / real (accesses_in i ?h)"
    and f: "freq_of ?s ?n el i = real (accesses_in i ?h) / el" if "i < made w" for i
  proof -
    note e = counts_exact [OF assms that]
    show "accesses_of ?s ?n i = 0 \<longleftrightarrow> accesses_in i ?h = 0" by (simp only: unat_eq_0 [symmetric] e(1))
    show "rate_of ?s ?n i = 100 * real (fails_in i ?h) / real (accesses_in i ?h)"
      by (simp only: rate_of_def e of_nat_mult of_nat_numeral)
    show "freq_of ?s ?n el i = real (accesses_in i ?h) / el" by (simp only: freq_of_def e)
  qed
  have "chosen ?s ?n el conflict frequent [0..<made w] = filter (\<lambda>i. accesses_in i ?h \<noteq> 0 \<and>
      (100 * real (fails_in i ?h) / real (accesses_in i ?h) > 5) = conflict \<and> (real (accesses_in i ?h) / el > 1) = frequent) [0..<made w]"
    unfolding chosen_def by (rule filter_cong) (simp_all add: z rt f)
  moreover have "map (perf_of ?s ?n el) (filter P [0..<made w]) =
      map (\<lambda>i. (100 * real (fails_in i ?h) / real (accesses_in i ?h), real (accesses_in i ?h) / el, stack_count (pool ?s i)))
        (filter P [0..<made w])" for P
    by (rule map_cong) (auto simp: perf_of_def rt f)
  ultimately show ?thesis by (simp add: listed_def Let_def)
qed

text \<open>Whatever levels the table has, the report counts what the history says.\<close>

lemma report_true:
  assumes "count_inv w" and "names_fit (source_line shell link)" and "setFileName link = Some link"
    and "length (history w) < 42949673" and "threadIndex x = threadIndex (tbl (pr w))"
  shows "\<exists>fs r. print_files dbl shell link raw x (nst w) = Ret fs r \<and>
    map view (high_conflict_high_freq r) = listed (elapsed_time_for_freq x) w True True \<and>
    map view (high_conflict_low_freq r) = listed (elapsed_time_for_freq x) w True False \<and>
    map view (low_conflict_high_freq r) = listed (elapsed_time_for_freq x) w False True \<and>
    (\<forall>k<threadIndex (tbl (pr w)). thread_waits r k = waited_in k (history w))"
proof -
  let ?n = "threadIndex (tbl (pr w))"
  obtain fs r where fin: "print_files dbl shell link raw x (nst w) = Ret fs r"
    using files_written [OF assms(1-3,5)] by blast
  from fin assms(3) obtain locks where "print_report (source_line shell link) raw x (nst w) = Ret locks r"
    by (auto simp: print_files_def bnd_eq_Ret)
  then have "report_all (source_line shell link) raw (elapsed_time_for_freq x) ?n (nst w) [0..<made w] new_report = Ret () r"
    using print_report_Ret assms(5) run_mutexes [OF assms(1)] by metis
  note all = report_all_Ret [OF this new_report_ok]
  have "(\<Sum>i\<leftarrow>[0..<made w]. waits_of (nst w) i k) = waited_in k (history w)" if "k < ?n" for k
    using slots_sums(2) [of "nst w" "history w" "made w" ?n k] assms(1) that
    by (simp add: count_inv_def pool_inv_def made_def getEntriesNumb_def)
  with all fin show ?thesis by (auto simp: new_report_def listed_eq [OF assms(1,4)])
qed

text \<open>
  C1 (the profile of a run). Start the profiler with \<open>initializer\<close>, let the threads of the program
  create, run and join each other and their mutex operations count, in any order, and end it with
  \<open>finalizer\<close>, while each line of \<open>addr2line\<close> fits: the report is written, and as long as fewer than
  42949673 calls were counted it is true to the history: each list holds, in order, exactly the
  mutexes that belong there by their number of accesses and failures over all threads, and each
  thread is charged the time it waited.
\<close>

theorem profile_exact:
  assumes "initializer tsc gtid self pool_ok mmap_ok p = Ret u p0" and "p_threads p = loaded"
    and "pstep\<^sup>*\<^sup>* (at_start p0) w" and "names_fit (source_line shell link)" and "setFileName link = Some link"
    and "length (history w) < 42949673"
  shows "\<exists>fs r. finalizer dbl shell link raw now (at_exit w) = Ret fs r \<and>
    map view (high_conflict_high_freq r) = listed (run_ms now w) w True True \<and>
    map view (high_conflict_low_freq r) = listed (run_ms now w) w True False \<and>
    map view (low_conflict_high_freq r) = listed (run_ms now w) w False True \<and>
    (\<forall>k<threadIndex (tbl (pr w)). thread_waits r k = waited_in k (history w))"
proof -
  have inv: "run_inv w" by (rule run_inv_run [OF assms(1-3)])
  have "elapsed_time_for_freq (closed_table now (tbl (pr w))) = run_ms now w"
    by (simp add: closed_table_def elapsed_time_for_freq_def run_ms_def Let_def max_def)
  then show ?thesis
    using report_true [OF run_count_inv [OF inv] assms(4-6), of "closed_table now (tbl (pr w))" dbl raw]
    using inv finalizer_closes [of w] by (simp add: run_inv_def table_ok_def closed_table_def)
qed

definition unloaded :: profiler where
  "unloaded = \<lparr>p_threads = loaded, p_nptl = fresh, p_initialized = False\<rparr>"

lemma demo_fit: "names_fit (source_line demo_shell ''app'')"
  by (simp add: demo_source names_fit_def demo_line_def source_name_def)

lemma initializer_starts: "\<exists>p0. initializer (\<lambda>_. 0) 0 0 True (\<lambda>_ _ _ _ _. True) unloaded = Ret () p0"
  by (simp add: initializer_def xrun_initialize_def initialize_Ret initialize_def mmapAllocatePrivate_def allocate_def unloaded_def)

lemma demo_run:
  assumes "initializer (\<lambda>_. 0) 0 0 True (\<lambda>_ _ _ _ _. True) unloaded = Ret () p0"
  shows "\<exists>w. pstep\<^sup>*\<^sup>* (at_start p0) w \<and> history w = [(Accessed 0 0, 0), (Failed 0 0, 0)] \<and> made w = 1 \<and>
    stack_count (pool (nst w) 0) = 0 \<and> pr w = pr (at_start p0)"
proof -
  let ?w0 = "at_start p0"
  have i: "sync_vars (p_nptl p0) = \<lparr>re_start = (\<lambda>_. zero_entry), re_total = word_of_nat MAX_SYNC_ENTRIES, re_cur = 0\<rparr>"
    "threadIndex (p_threads p0) = 1"
    using initializer_Ret [OF assms] by (simp_all add: unloaded_def first_table_def)
  have inv: "run_inv ?w0" using start_inv [OF assms] by (simp add: unloaded_def)
  obtain s where c: "create_mutex (nst ?w0) = Ret 0 s"
    by (simp add: create_mutex_def i at_start_def get_next_index_def MAX_SYNC_ENTRIES_def getEntry_def Let_def)
  have re: "unat (re_cur (sync_vars s)) = 1" "stack_count (pool s 0) = 0"
    using create_mutex_pool [OF c] create_mutex_Ret [OF c] inv i(1) by (simp_all add: run_inv_def at_start_def)
  let ?w1 = "?w0\<lparr>nst := s\<rparr>"
  let ?w2 = "?w1\<lparr>nst := count_event (Accessed 0 0) s, history := [(Accessed 0 0, 0)]\<rparr>"
  let ?w3 = "?w2\<lparr>nst := count_event (Failed 0 0) (nst ?w2), history := [(Accessed 0 0, 0), (Failed 0 0, 0)]\<rparr>"
  have "pstep ?w0 ?w1" by (rule pstep.entry [OF c])
  moreover have "pstep ?w1 ?w2" using pstep.counted [of "Accessed 0 0" ?w1] re i(2)
    by (simp add: made_def getEntriesNumb_def at_start_def)
  moreover have "pstep ?w2 ?w3" using pstep.counted [of "Failed 0 0" ?w2] re i(2)
    by (simp add: made_def getEntriesNumb_def at_start_def counter_defs)
  ultimately have "pstep\<^sup>*\<^sup>* ?w0 ?w3" by (meson rtranclp.rtrancl_refl rtranclp.rtrancl_into_rtrancl)
  moreover have "made ?w3 = 1" "stack_count (pool (nst ?w3) 0) = 0"
    using re by (simp_all add: made_def getEntriesNumb_def)
  ultimately show ?thesis by (intro exI [of _ ?w3]) simp
qed

theorem profile_exact_witness:
  "\<exists>p0 w fs r. initializer (\<lambda>_. 0) 0 0 True (\<lambda>_ _ _ _ _. True) unloaded = Ret () p0 \<and> pstep\<^sup>*\<^sup>* (at_start p0) w \<and>
    finalizer demo_dbl demo_shell ''app'' (\<lambda>_. demo_raw) 0 (at_exit w) = Ret fs r \<and>
    map view (high_conflict_low_freq r) = [(100, 1 / run_ms 0 w, 0)]"
proof -
  obtain p0 where p0: "initializer (\<lambda>_. 0) 0 0 True (\<lambda>_ _ _ _ _. True) unloaded = Ret () p0" using initializer_starts by blast
  obtain w where w: "pstep\<^sup>*\<^sup>* (at_start p0) w" "history w = [(Accessed 0 0, 0), (Failed 0 0, 0)]" "made w = 1"
    "stack_count (pool (nst w) 0) = 0" using demo_run [OF p0] by blast
  have "p_threads unloaded = loaded" "setFileName ''app'' = Some ''app''" "length (history w) < 42949673"
    by (simp_all add: unloaded_def w(2) setFileName_def MAXBUFSIZE_def)
  from profile_exact [OF p0 this(1) w(1) demo_fit this(2,3), of demo_dbl "\<lambda>_. demo_raw" 0] obtain fs r where
    r: "finalizer demo_dbl demo_shell ''app'' (\<lambda>_. demo_raw) 0 (at_exit w) = Ret fs r"
      "map view (high_conflict_low_freq r) = listed (run_ms 0 w) w True False" by blast
  have "\<not> 1 / run_ms 0 w > 1" by (simp add: run_ms_def max_def)
  then have "listed (run_ms 0 w) w True False = [(100, 1 / run_ms 0 w, 0)]"
    by (simp add: listed_def w accesses_in_def fails_in_def)
  with p0 w(1) r show ?thesis by metis
qed

end
