(* ===== verification/Startup.thy ===== *)
theory Startup
  imports Lifecycle
begin

unbundle bit_operations_syntax

text \<open>
  What surrounds a run (\<open>source/libfuncs.cpp\<close>, \<open>libfuncs.h\<close>, \<open>xrun.h\<close>): the real functions that the constructor looks up
  before anything else, the handler for SIGINT, and the ways in which the process can end at its start. The dynamic loader
  and \<open>sigaction\<close> are arguments. Shown: which pointers are set, that an unknown name is not noticed, and what an interrupt
  does to a run: between two steps it ends it with the report of \<open>Lifecycle\<close>, inside the change of the level it
  reports frequencies over the time since the machine started, and inside \<open>create_mutex\<close> it makes the report abort.
\<close>

section \<open>The real functions\<close>

text \<open>One constructor for each \<open>WRAP(x)\<close> of \<open>libfuncs.h\<close>.\<close>

datatype wrapped =
    R_mmap | R_malloc | R_free | R_realloc | R_memalign | R_malloc_usable_size | R_read | R_write | R_sigwait
  | R_pthread_create | R_pthread_cancel | R_pthread_join | R_pthread_exit
  | R_pthread_mutexattr_init | R_pthread_mutex_init | R_pthread_mutex_lock | R_pthread_mutex_unlock | R_pthread_mutex_trylock
  | R_pthread_mutex_destroy
  | R_pthread_condattr_init | R_pthread_cond_init | R_pthread_cond_wait | R_pthread_cond_timedwait | R_pthread_cond_signal
  | R_pthread_cond_broadcast | R_pthread_cond_destroy
  | R_pthread_barrier_init | R_pthread_barrier_wait | R_pthread_barrier_destroy

text \<open>\<open>#x\<close>\<close>

primrec symbol :: "wrapped \<Rightarrow> string" where
  "symbol R_mmap = ''mmap''"
| "symbol R_malloc = ''malloc''"
| "symbol R_free = ''free''"
| "symbol R_realloc = ''realloc''"
| "symbol R_memalign = ''memalign''"
| "symbol R_malloc_usable_size = ''malloc_usable_size''"
| "symbol R_read = ''read''"
| "symbol R_write = ''write''"
| "symbol R_sigwait = ''sigwait''"
| "symbol R_pthread_create = ''pthread_create''"
| "symbol R_pthread_cancel = ''pthread_cancel''"
| "symbol R_pthread_join = ''pthread_join''"
| "symbol R_pthread_exit = ''pthread_exit''"
| "symbol R_pthread_mutexattr_init = ''pthread_mutexattr_init''"
| "symbol R_pthread_mutex_init = ''pthread_mutex_init''"
| "symbol R_pthread_mutex_lock = ''pthread_mutex_lock''"
| "symbol R_pthread_mutex_unlock = ''pthread_mutex_unlock''"
| "symbol R_pthread_mutex_trylock = ''pthread_mutex_trylock''"
| "symbol R_pthread_mutex_destroy = ''pthread_mutex_destroy''"
| "symbol R_pthread_condattr_init = ''pthread_condattr_init''"
| "symbol R_pthread_cond_init = ''pthread_cond_init''"
| "symbol R_pthread_cond_wait = ''pthread_cond_wait''"
| "symbol R_pthread_cond_timedwait = ''pthread_cond_timedwait''"
| "symbol R_pthread_cond_signal = ''pthread_cond_signal''"
| "symbol R_pthread_cond_broadcast = ''pthread_cond_broadcast''"
| "symbol R_pthread_cond_destroy = ''pthread_cond_destroy''"
| "symbol R_pthread_barrier_init = ''pthread_barrier_init''"
| "symbol R_pthread_barrier_wait = ''pthread_barrier_wait''"
| "symbol R_pthread_barrier_destroy = ''pthread_barrier_destroy''"

text \<open>The pointers, static and so 0 at first, and the two calls of the loader.\<close>

type_synonym reals = "wrapped \<Rightarrow> u64"

record loader =
  dlsym :: "u64 \<Rightarrow> string \<Rightarrow> u64"
  dlopen :: "string \<Rightarrow> i32 \<Rightarrow> u64"

definition no_reals :: reals where "no_reals = (\<lambda>_. 0)"

definition RTLD_NEXT :: u64 where "RTLD_NEXT = -1"

text \<open>\<open>assert(#x)\<close> tests the address of a string literal, which is never 0.\<close>

definition SET_WRAPPED :: "loader \<Rightarrow> u64 \<Rightarrow> wrapped \<Rightarrow> reals \<Rightarrow> reals" where
  "SET_WRAPPED ld handle x w = w(x := dlsym ld handle (symbol x))"

text \<open>\<open>RTLD_NOW | RTLD_GLOBAL | RTLD_NOLOAD\<close>; without the library the process exits with 2, the left value.\<close>

definition init_real_functions :: "loader \<Rightarrow> reals \<Rightarrow> i32 + reals" where
  "init_real_functions ld w =
     (let w = fold (SET_WRAPPED ld RTLD_NEXT)
            [R_mmap, R_malloc, R_free, R_realloc, R_memalign, R_malloc_usable_size, R_read, R_write, R_sigwait] w;
          pthread_handle = dlopen ld ''libpthread.so.0'' (2 OR 0x100 OR 4)
      in if pthread_handle = 0 then Inl 2
         else Inr (fold (SET_WRAPPED ld pthread_handle)
            [R_pthread_create, R_pthread_cancel, R_pthread_join, R_pthread_exit,
             R_pthread_mutex_init, R_pthread_mutex_lock, R_pthread_mutex_unlock, R_pthread_mutex_trylock, R_pthread_mutex_destroy,
             R_pthread_mutexattr_init,
             R_pthread_condattr_init, R_pthread_cond_init, R_pthread_cond_wait, R_pthread_cond_signal, R_pthread_cond_broadcast,
             R_pthread_cond_destroy,
             R_pthread_barrier_init, R_pthread_barrier_wait, R_pthread_barrier_destroy] w))"

section \<open>Signals\<close>

definition SIGINT :: i32 where "SIGINT = 2"
definition SIGUSR2 :: i32 where "SIGUSR2 = 12"

text \<open>\<open>sigaction\<close> for a signal and flags; the left value is the exit code. Only SIGINT is caught, since the Makefile does not
  define \<open>USING_SIGUSR2\<close>.\<close>

definition installSignalHandler :: "(i32 \<Rightarrow> i32 \<Rightarrow> i32) \<Rightarrow> i32 + unit" where
  "installSignalHandler sigaction = (if sigaction SIGINT (0x10000000 OR 0x40000000) = -1 then Inl (-1) else Inr ())"

text \<open>What it prints, and the code of \<open>exit\<close>, if it does not return.\<close>

definition sigHandler :: "i32 \<Rightarrow> string \<times> i32 option" where
  "sigHandler signum =
     (if signum = SIGINT then (''Recieved SIGINT, Genearting Report'', Some 0)
      else if signum = SIGUSR2 then (''Recieving SIGUSR2, not handled'', None)
      else ([], None))"

section \<open>The start of the process\<close>

text \<open>The constructor with its exits: the table of threads initialises its lock and takes it by the pointers.\<close>

definition constructor ::
  "loader \<Rightarrow> (i32 \<Rightarrow> i32 \<Rightarrow> i32) \<Rightarrow> (nat \<Rightarrow> u64) \<Rightarrow> i32 \<Rightarrow> u64 \<Rightarrow> bool \<Rightarrow> mmap_answer \<Rightarrow> profiler \<Rightarrow>
    i32 + reals \<times> (unit, profiler) out" where
  "constructor ld sigaction tsc gtid self pool_ok mmap_ok p =
     (case init_real_functions ld no_reals of
        Inl c \<Rightarrow> Inl c
      | Inr w \<Rightarrow>
          (case installSignalHandler sigaction of
             Inl c \<Rightarrow> Inl c
           | Inr _ \<Rightarrow> Inr (w,
               if w R_pthread_mutex_init = 0 \<or> w R_pthread_mutex_lock = 0 \<or> w R_pthread_mutex_unlock = 0 then Abort
               else initializer tsc gtid self pool_ok mmap_ok p)))"

text \<open>A signal that finds the profiler in the state \<open>w\<close>. \<open>exit\<close> runs the destructor.\<close>

definition interrupted ::
  "(real \<Rightarrow> string) \<Rightarrow> (string \<Rightarrow> string option) \<Rightarrow> string \<Rightarrow> (nat \<Rightarrow> sync_perf_t) \<Rightarrow> u64 \<Rightarrow> i32 \<Rightarrow> profile \<Rightarrow>
    (i32 \<times> (files, report) out) option" where
  "interrupted dbl shell link raw now signum w =
     (case snd (sigHandler signum) of
        None \<Rightarrow> None
      | Some code \<Rightarrow> Some (code, finalizer dbl shell link raw now (at_exit w)))"

section \<open>Lemmas\<close>

definition libc_functions :: "wrapped set" where
  "libc_functions = {R_mmap, R_malloc, R_free, R_realloc, R_memalign, R_malloc_usable_size, R_read, R_write, R_sigwait}"

text \<open>Every pointer but one is set, to whatever the loader answers.\<close>

lemma init_real_functions_eq:
  "init_real_functions ld w =
     (let h = dlopen ld ''libpthread.so.0'' 0x106 in
      if h = 0 then Inl 2
      else Inr (\<lambda>x. if x = R_pthread_cond_timedwait then w x
                 else dlsym ld (if x \<in> libc_functions then RTLD_NEXT else h) (symbol x)))"
proof -
  have "fold (SET_WRAPPED ld h)
            [R_pthread_create, R_pthread_cancel, R_pthread_join, R_pthread_exit,
             R_pthread_mutex_init, R_pthread_mutex_lock, R_pthread_mutex_unlock, R_pthread_mutex_trylock, R_pthread_mutex_destroy,
             R_pthread_mutexattr_init,
             R_pthread_condattr_init, R_pthread_cond_init, R_pthread_cond_wait, R_pthread_cond_signal, R_pthread_cond_broadcast,
             R_pthread_cond_destroy,
             R_pthread_barrier_init, R_pthread_barrier_wait, R_pthread_barrier_destroy]
          (fold (SET_WRAPPED ld RTLD_NEXT)
            [R_mmap, R_malloc, R_free, R_realloc, R_memalign, R_malloc_usable_size, R_read, R_write, R_sigwait] w) x =
      (if x = R_pthread_cond_timedwait then w x
       else dlsym ld (if x \<in> libc_functions then RTLD_NEXT else h) (symbol x))" for h x
    by (cases x) (simp_all add: SET_WRAPPED_def libc_functions_def)
  then show ?thesis
    by (simp add: init_real_functions_def Let_def fun_eq_iff)
qed

lemma timedwait_never_set:
  "init_real_functions ld no_reals = Inr w \<Longrightarrow> w R_pthread_cond_timedwait = 0"
  by (auto simp: init_real_functions_eq no_reals_def Let_def split: if_splits)

text \<open>A name that the loader does not know leaves a null pointer and nothing else.\<close>

lemma unknown_name_unnoticed:
  assumes "init_real_functions ld no_reals = Inr w"
    and "x \<notin> libc_functions" and "dlsym ld (dlopen ld ''libpthread.so.0'' 0x106) (symbol x) = 0"
  shows "w x = 0"
  using assms by (auto simp: init_real_functions_eq no_reals_def Let_def split: if_splits)

text \<open>With a loader that knows the names and a kernel that takes the handler, the process starts.\<close>

lemma constructor_starts:
  assumes "dlopen ld ''libpthread.so.0'' 0x106 \<noteq> 0" and "\<And>h x. h \<noteq> 0 \<Longrightarrow> dlsym ld h (symbol x) \<noteq> 0"
    and "sigaction SIGINT 0x50000000 \<noteq> -1"
  obtains w where "constructor ld sigaction tsc gtid self pool_ok mmap_ok p = Inr (w, initializer tsc gtid self pool_ok mmap_ok p)"
    and "\<And>x. w x = 0 \<longleftrightarrow> x = R_pthread_cond_timedwait"
proof -
  obtain w where w: "init_real_functions ld no_reals = Inr w" "\<And>x. w x = 0 \<longleftrightarrow> x = R_pthread_cond_timedwait"
    using assms(1,2) by (fastforce simp: init_real_functions_eq no_reals_def Let_def RTLD_NEXT_def)
  with assms(3) have "constructor ld sigaction tsc gtid self pool_ok mmap_ok p = Inr (w, initializer tsc gtid self pool_ok mmap_ok p)"
    by (simp add: constructor_def installSignalHandler_def)
  then show thesis using that w(2) by blast
qed

section \<open>An interrupt inside the change of the level\<close>

text \<open>\<open>allocThreadIndex\<close> and \<open>markThreadExit\<close> with the lock held, between \<open>_threadLevel++\<close> and \<open>startThreadLevelInfo\<close>.\<close>

definition between_levels :: "(nat \<Rightarrow> u64) \<Rightarrow> xthread \<Rightarrow> (unit, xthread) out" where
  "between_levels tsc s = bnd (stopThreadLevelInfo (tsc 1) s) (\<lambda>_ s. Ret () (s\<lparr>threadLevel := threadLevel s + 1\<rparr>))"

lemma new_phase_cut: "new_phase tsc i s = bnd (between_levels tsc s) (\<lambda>_. startThreadLevelInfo (tsc 2) i)"
  by (cases "stopThreadLevelInfo (tsc 1) s") (simp_all add: new_phase_def between_levels_def)

text \<open>Where it happens: the first thread of a phase is created, or the last one is joined.\<close>

definition creating :: "(nat \<Rightarrow> u64) \<Rightarrow> i32 \<Rightarrow> nat \<Rightarrow> xthread \<Rightarrow> xthread" where
  "creating tsc gtid current s =
     upd_thread current (\<lambda>t. t\<lparr>childBeginIndex := int (threadIndex s), childEndIndex := int (threadIndex s)\<rparr>)
       ((fill_slot tsc gtid s)\<lparr>isMultithreading := True\<rparr>)"

definition joining :: "xthread \<Rightarrow> xthread" where
  "joining s = s\<lparr>aliveThreads := aliveThreads s - 1, isMultithreading := False\<rparr>"

lemma alloc_cut:
  assumes "aliveThreads s = 1" and "threadIndex s < MAX_THREADS"
  shows "allocThreadIndex tsc gtid current s =
    bnd (between_levels tsc (creating tsc gtid current s)) (\<lambda>_ x.
      bnd (startThreadLevelInfo (tsc 2) (int (threadIndex s)) x) (\<lambda>_. set_parent (threadIndex s) current))"
  using alloc_eq [of s 1 tsc gtid current] assms by (simp add: Let_def new_phase_cut bnd_assoc creating_def)

lemma exit_cut:
  assumes "aliveThreads s = 2"
  shows "markThreadExit tsc s =
    bnd (between_levels tsc (joining s)) (\<lambda>_. startThreadLevelInfo (tsc 2) (int (threadIndex s)))"
  using assms by (simp add: markThreadExit_def new_phase_cut joining_def)

inductive cut :: "xthread \<Rightarrow> xthread \<Rightarrow> bool" where
  in_create: "aliveThreads s = 1 \<Longrightarrow> threadIndex s < MAX_THREADS \<Longrightarrow>
     between_levels tsc (creating tsc gtid current s) = Ret () x \<Longrightarrow> cut s x"
| in_join: "aliveThreads s = 2 \<Longrightarrow> between_levels tsc (joining s) = Ret () x \<Longrightarrow> cut s x"

inductive_cases cutE: "cut s x"

text \<open>The levels to come are still zero.\<close>

definition fresh_levels :: "xthread \<Rightarrow> bool" where
  "fresh_levels s \<longleftrightarrow> (\<forall>k > threadLevel s. levelInfo s k = zero_level)"

lemma fresh_upd_thread [simp]: "fresh_levels (upd_thread i f s) = fresh_levels s"
  by (simp add: fresh_levels_def upd_thread_def)

lemma fresh_new_phase: "new_phase tsc i s = Ret u t \<Longrightarrow> fresh_levels s \<Longrightarrow> fresh_levels t"
  by (auto simp: new_phase_def stopThreadLevelInfo_def startThreadLevelInfo_def upd_level_def fresh_levels_def Let_def out_ret
      split: if_splits)

lemma fresh_cong: "threadLevel t = threadLevel s \<Longrightarrow> levelInfo t = levelInfo s \<Longrightarrow> fresh_levels t = fresh_levels s"
  by (simp add: fresh_levels_def)

lemma fresh_alloc:
  assumes "allocThreadIndex tsc gtid current s = Ret i t" and "fresh_levels s" and "unat (aliveThreads s) \<le> 128"
  shows "fresh_levels t"
  using assms(1) [unfolded alloc_eq [OF refl assms(3)] Let_def] assms(2)
  by (auto simp: fresh_levels_def bnd_eq_Ret upd_level_Ret set_parent_Ret new_phase_Ret startThreadLevelInfo_def updateThreadLevelInfo_def
      split: if_splits)

lemma fresh_exit:
  assumes "markThreadExit tsc s = Ret u t" and "fresh_levels s"
  shows "fresh_levels t"
  using assms
  by (auto simp: markThreadExit_def Let_def fresh_cong [of "_\<lparr>aliveThreads := _\<rparr>"]
      fresh_cong [of "_\<lparr>aliveThreads := _, isMultithreading := _\<rparr>"] dest!: fresh_new_phase split: if_splits)

lemma fresh_xstep:
  assumes "xstep p q" and "fresh_levels (tbl p)" and "unat (aliveThreads (tbl p)) \<le> 128"
  shows "fresh_levels (tbl q)"
  using assms
  by (elim xstepE)
    (auto simp: thread_create_def thread_join_def startThread_begin_def startThread_end_def setPrivateStackTop_def out_ret
      dest: fresh_alloc fresh_exit split: if_splits)

lemma fresh_run:
  assumes "initializer tsc gtid self pool_ok mmap_ok p = Ret u p0" and "p_threads p = loaded"
    and "pstep\<^sup>*\<^sup>* (at_start p0) w"
  shows "fresh_levels (tbl (pr w))"
  using assms(3)
proof (induction rule: rtranclp_induct)
  case base
  then show ?case
    using initializer_Ret [OF assms(1,2)] by (simp add: at_start_def fresh_levels_def first_table_def loaded_def)
next
  case (step w z)
  have "unat (aliveThreads (tbl (pr w))) \<le> 128"
    using run_inv_run [OF assms(1,2) step.hyps(1)] by (simp add: run_inv_def table_ok_def)
  from step.hyps(2) step.IH this show ?case by (cases rule: pstep.cases) (auto dest: fresh_xstep)
qed

lemma between_levels_Ret:
  "between_levels tsc s = Ret u x \<longleftrightarrow> threadLevel s < MAX_THREAD_LEVELS \<and>
     x = s\<lparr>threadLevel := threadLevel s + 1, levelInfo := (levelInfo s)(threadLevel s :=
       (levelInfo s (threadLevel s))\<lparr>elapse := get_elapsed2ms (l_startTime (levelInfo s (threadLevel s))) (tsc 1)\<rparr>)\<rparr>"
  by (auto simp: between_levels_def stopThreadLevelInfo_def upd_level_Ret out_ret)

lemma cut_state:
  assumes "cut s x" and "fresh_levels s" and "threadIndex s \<le> MAX_THREADS"
  shows "levelInfo x (threadLevel x) = zero_level" "threadIndex s \<le> threadIndex x" "threadIndex x \<le> MAX_THREADS"
  using assms by (auto simp: creating_def joining_def between_levels_Ret fresh_levels_def elim!: cutE)

lemma closed_cut:
  assumes "levelInfo x (threadLevel x) = zero_level"
  shows "elapsed_time_for_freq (closed_table now x) = max 1000 (real (unat now) / cpu_freq)"
  using assms
  by (simp add: closed_table_def elapsed_time_for_freq_def zero_level_def get_elapsed2ms_def get_elapsed_cycle_def
      stamp_def [of "\<lparr>low = 0, high = 0\<rparr>"] Let_def max_def)

section \<open>An interrupt inside the making of an entry\<close>

text \<open>\<open>create_mutex\<close> counts the entry with \<open>_cur++\<close> before it writes its fields.\<close>

definition reserved :: "nptl \<Rightarrow> (u64, nptl) out" where
  "reserved s = bnd (get_next_index (sync_vars s)) (\<lambda>idx r. Ret idx (s\<lparr>sync_vars := r\<rparr>))"

definition cleared :: "u64 \<Rightarrow> nptl \<Rightarrow> nptl" where
  "cleared idx = upd_entry (getEntry idx) (\<lambda>m. m\<lparr>stack_count := 0\<rparr>)"

lemma create_cut:
  "create_mutex s = bnd (reserved s) (\<lambda>idx t.
     Ret (getEntry idx) (upd_entry (getEntry idx) (\<lambda>m. m\<lparr>entry_index := idx\<rparr>) (cleared idx t)))"
  by (simp add: create_mutex_def reserved_def cleared_def Let_def bnd_def split: out.splits)

text \<open>The states in between: before and after \<open>stack_count\<close> is written, and before \<open>entry_index\<close> is.\<close>

inductive half_made :: "nptl \<Rightarrow> nptl \<Rightarrow> bool" where
  in_reserved: "reserved s = Ret idx t \<Longrightarrow> half_made s t"
| in_cleared: "reserved s = Ret idx t \<Longrightarrow> half_made s (cleared idx t)"

inductive_cases half_madeE: "half_made s t"

text \<open>The entries to come are still as the kernel handed them out.\<close>

definition fresh_entries :: "nptl \<Rightarrow> bool" where
  "fresh_entries s \<longleftrightarrow> (\<forall>i \<ge> unat (re_cur (sync_vars s)). entry_index (pool s i) = 0)"

lemma reserved_pool:
  assumes "reserved s = Ret idx t" and "pool_inv s"
  shows "idx = re_cur (sync_vars s)" "t = s\<lparr>sync_vars := (sync_vars s)\<lparr>re_cur := idx + 1\<rparr>\<rparr>"
    "unat (re_cur (sync_vars t)) = unat (re_cur (sync_vars s)) + 1" "unat (re_cur (sync_vars s)) < MAX_SYNC_ENTRIES"
proof -
  let ?c = "re_cur (sync_vars s)"
  have t: "re_total (sync_vars s) = word_of_nat MAX_SYNC_ENTRIES" "unat ?c \<le> MAX_SYNC_ENTRIES"
    using assms(2) by (simp_all add: pool_inv_def)
  then have "?c < 2 ^ 31" by (simp add: word_less_nat_alt MAX_SYNC_ENTRIES_def)
  note below = get_next_index_below [OF this]
  with assms(1) show i: "idx = ?c" and s': "t = s\<lparr>sync_vars := (sync_vars s)\<lparr>re_cur := idx + 1\<rparr>\<rparr>"
    by (auto simp: reserved_def bnd_eq_Ret split: if_splits)
  have "?c < word_of_nat MAX_SYNC_ENTRIES"
    using assms(1) below t(1) by (auto simp: reserved_def bnd_eq_Ret split: if_splits)
  then show lt: "unat ?c < MAX_SYNC_ENTRIES" by (simp add: word_less_nat_alt MAX_SYNC_ENTRIES_def)
  show "unat (re_cur (sync_vars t)) = unat ?c + 1"
    using lt unat_plus_if' [of ?c 1] by (simp add: s' i MAX_SYNC_ENTRIES_def)
qed

lemma fresh_entries_create:
  assumes "create_mutex s = Ret e s'" and "pool_inv s" and "fresh_entries s"
  shows "fresh_entries s'"
proof -
  obtain idx t where r: "reserved s = Ret idx t"
    and s': "s' = upd_entry (getEntry idx) (\<lambda>m. m\<lparr>entry_index := idx\<rparr>) (cleared idx t)"
    using assms(1) by (auto simp: create_cut bnd_eq_Ret)
  note c = reserved_pool [OF r assms(2)]
  have t: "sync_vars t = (sync_vars s)\<lparr>re_cur := idx + 1\<rparr>" by (subst c(2)) simp
  show ?thesis
    using assms(3) c(1,3) t by (auto simp: fresh_entries_def s' cleared_def getEntry_def)
qed

lemma fresh_entries_context:
  assumes "add_new_context E e ret esp s = Ret v s'" and "fresh_entries s"
  shows "fresh_entries s'"
proof -
  have "entry_index (put_context F ret esp m) = entry_index m" for F m by (simp add: put_context_def Let_def)
  with assms show ?thesis by (auto simp: add_new_context_def fresh_entries_def assrt_eq_Ret split: if_splits)
qed

lemma fresh_entries_run:
  assumes "initializer tsc gtid self pool_ok mmap_ok p = Ret u p0" and "p_threads p = loaded"
    and "pstep\<^sup>*\<^sup>* (at_start p0) w"
  shows "fresh_entries (nst w)"
  using assms(3)
proof (induction rule: rtranclp_induct)
  case base
  then show ?case
    using initializer_Ret [OF assms(1,2)] by (simp add: at_start_def fresh_entries_def zero_entry_def)
next
  case (step w z)
  have inv: "pool_inv (nst w)" using run_inv_run [OF assms(1,2) step.hyps(1)] by (simp add: run_inv_def)
  from step.hyps(2) show ?case
  proof (cases rule: pstep.cases)
    case (entry e s)
    then show ?thesis using fresh_entries_create [OF entry(2) inv step.IH] by simp
  next
    case (context_added E e ret esp v s)
    then show ?thesis using fresh_entries_context [OF context_added(2) step.IH] by simp
  next
    case (others E)
    then show ?thesis using step.IH by (simp add: fresh_entries_def ticks_def)
  next
    case (counted ev)
    then show ?thesis using step.IH by (simp add: fresh_entries_def)
  qed (use step.IH in simp)
qed

text \<open>The state in between: one mutex more, whose index is still 0.\<close>

lemma half_made_pool:
  assumes "half_made s t" and "pool_inv s" and "fresh_entries s"
  shows "unat (re_cur (sync_vars t)) = unat (re_cur (sync_vars s)) + 1" "tsd t = tsd s"
    "entry_index (pool t i) = entry_index (pool s i)" "ctx_inv (pool t i)"
    "re_total (sync_vars t) = word_of_nat MAX_SYNC_ENTRIES" "unat (re_cur (sync_vars s)) < MAX_SYNC_ENTRIES"
    "entry_index (pool t (unat (re_cur (sync_vars s)))) = 0"
proof -
  obtain idx t0 where r: "reserved s = Ret idx t0" and t: "t = t0 \<or> t = cleared idx t0"
    using assms(1) by (auto elim!: half_madeE)
  note c = reserved_pool [OF r assms(2)]
  have t0: "sync_vars t0 = (sync_vars s)\<lparr>re_cur := idx + 1\<rparr>" "tsd t0 = tsd s" by (subst c(2), simp)+
  have "ctx_inv (m\<lparr>stack_count := 0\<rparr>)" if "ctx_inv m" for m using that by (simp add: ctx_inv_def)
  with assms(2) t t0 c show "unat (re_cur (sync_vars t)) = unat (re_cur (sync_vars s)) + 1" "tsd t = tsd s"
    "entry_index (pool t i) = entry_index (pool s i)" "ctx_inv (pool t i)"
    "re_total (sync_vars t) = word_of_nat MAX_SYNC_ENTRIES" "unat (re_cur (sync_vars s)) < MAX_SYNC_ENTRIES"
    by (auto simp: cleared_def pool_inv_def)
  from assms(3) t t0 show "entry_index (pool t (unat (re_cur (sync_vars s)))) = 0"
    by (auto simp: cleared_def fresh_entries_def)
qed

section \<open>The report of an interrupted run\<close>

text \<open>The process at the moment of the signal: between two steps, inside the change of the level, or inside the
  making of an entry. A signal at another place inside a step is not modelled.\<close>

datatype moment = Between_steps | In_level | In_entry

fun cut_short :: "moment \<Rightarrow> profile \<Rightarrow> profile \<Rightarrow> bool" where
  "cut_short Between_steps w z \<longleftrightarrow> z = w"
| "cut_short In_level w z \<longleftrightarrow> cut (tbl (pr w)) (tbl (pr z)) \<and> nst z = nst w \<and> history z = history w"
| "cut_short In_entry w z \<longleftrightarrow> half_made (nst w) (nst z) \<and> pr z = pr w \<and> history z = history w"

lemma slots_count_cong: "tsd t = tsd s \<Longrightarrow> slots_count t h = slots_count s h"
  by (simp add: slots_count_def)

lemma half_made_count_inv:
  assumes "cut_short In_entry w z" and "count_inv w" and "fresh_entries (nst w)" and "made w = 0"
  shows "count_inv z"
proof -
  have p: "pool_inv (nst w)" and h: "half_made (nst w) (nst z)" using assms(1,2) by (simp_all add: count_inv_def)
  note m = half_made_pool [OF h p assms(3)]
  have "unat (re_cur (sync_vars (nst w))) = 0" using assms(4) by (simp add: made_def getEntriesNumb_def)
  with m have "pool_inv (nst z)" by (simp add: pool_inv_def MAX_SYNC_ENTRIES_def)
  moreover have "slots_count (nst z) (history w)" using assms(2) slots_count_cong [OF m(2)] by (simp add: count_inv_def)
  ultimately show ?thesis using assms(1,2,4) by (fastforce simp: count_inv_def)
qed

lemma cut_count_inv:
  assumes "cut_short moment w z" and "run_inv w" and "fresh_levels (tbl (pr w))" and "fresh_entries (nst w)"
    and "moment = In_entry \<Longrightarrow> made w = 0"
  shows "count_inv z"
proof (cases moment)
  case In_level
  note c = run_count_inv [OF assms(2)]
  have "threadIndex (tbl (pr w)) \<le> threadIndex (tbl (pr z))" "threadIndex (tbl (pr z)) \<le> MAX_THREADS"
    using cut_state(2,3) [of "tbl (pr w)" "tbl (pr z)"] assms(1,3) c by (simp_all add: In_level count_inv_def)
  with c assms(1) show ?thesis by (fastforce simp: In_level count_inv_def made_def)
qed (use assms run_count_inv half_made_count_inv in auto)

lemma report_all_append:
  "report_all addr2line raw el n s (xs @ ys) r = bnd (report_all addr2line raw el n s xs r) (\<lambda>_. report_all addr2line raw el n s ys)"
proof (induction xs arbitrary: r)
  case (Cons i xs)
  then have "report_all addr2line raw el n s (xs @ ys) =
      (\<lambda>r. bnd (report_all addr2line raw el n s xs r) (\<lambda>_. report_all addr2line raw el n s ys))" by (intro ext)
  then show ?case by (simp add: bnd_assoc)
qed simp

text \<open>The report fails its assertion at the mutex without an index, if it is not the first.\<close>

lemma half_made_aborts:
  assumes "half_made (nst w) t" and "count_inv w" and "fresh_entries (nst w)" and "0 < made w"
    and "names_fit (source_line shell link)" and "setFileName link = Some link"
  shows "print_files dbl shell link raw x t = Abort"
proof -
  have p: "pool_inv (nst w)" using assms(2) by (simp add: count_inv_def)
  note m = half_made_pool [OF assms(1) p assms(3)]
  have c: "unat (re_cur (sync_vars (nst w))) = made w" by (simp add: made_def getEntriesNumb_def)
  have "unat (re_cur (sync_vars t)) < 2 ^ 31" using m(1,6) by (simp add: MAX_SYNC_ENTRIES_def)
  from alive_int [OF this] have "nat (sint (ucast (re_cur (sync_vars t)) :: i32)) = Suc (made w)" by (simp add: m(1) c)
  then have all: "mutexes t = [0..<made w] @ [made w]" by (simp add: mutexes_def getEntriesNumb_def)
  have "\<forall>i\<in>set [0..<made w]. ctx_inv (pool t i) \<and> entry_index (pool t i) = word_of_nat i"
    using p m(3,4) by (simp add: pool_inv_def c)
  from all_print [OF assms(5) this, of raw "elapsed_time_for_freq x" "threadIndex x" new_report] obtain r where
    r: "report_all (source_line shell link) raw (elapsed_time_for_freq x) (threadIndex x) t [0..<made w] new_report = Ret () r" by blast
  have "(word_of_nat (made w) :: u64) \<noteq> 0"
    using assms(4) m(6) c by (simp add: word_of_nat_eq_0_iff nat_dvd_not_less MAX_SYNC_ENTRIES_def)
  then have "report_mutex (source_line shell link) (raw (made w)) el n t (made w) r = Abort" for el n
    using m(7) c by (simp add: report_mutex_def Let_def)
  with r have "report_all (source_line shell link) raw (elapsed_time_for_freq x) (threadIndex x) t (mutexes t) new_report = Abort"
    by (simp add: all report_all_append del: upt_Suc)
  then have "print_report (source_line shell link) raw x t = Abort" by (simp add: print_report_def mutexes_def Let_def)
  with assms(6) show ?thesis by (simp add: print_files_def)
qed

text \<open>
  C2 (an interrupted run). SIGINT arrives between two steps of a run, or at one of two places inside a step: in the
  change from one level to the next, after the level is counted up and before its start is stamped; or
  in \<open>create_mutex\<close>, after the entry is counted and before its index is stored. The handler calls
  \<open>exit (0)\<close>. Between steps the destructor then writes the report, true to the history of counted calls as at a
  normal end. In the change of the level it does so too, but the time that the frequencies are computed
  with is that since the time stamp counter was 0, not since the level began. In \<open>create_mutex\<close> the report
  aborts at the assertion on the index, with nothing written, unless the entry is the first of the run.
\<close>
theorem interrupt_reports:
  assumes "initializer tsc gtid self pool_ok mmap_ok p = Ret u p0" and "p_threads p = loaded"
    and "pstep\<^sup>*\<^sup>* (at_start p0) w" and "cut_short moment w z"
    and "threadLevel (tbl (pr z)) < MAX_THREAD_LEVELS"
    and "names_fit (source_line shell link)" and "setFileName link = Some link" and "length (history z) < 42949673"
  shows "if moment = In_entry \<and> 0 < made w then interrupted dbl shell link raw now SIGINT z = Some (0, Abort)
    else \<exists>fs r. interrupted dbl shell link raw now SIGINT z = Some (0, Ret fs r) \<and>
      (let el = if moment = In_level then max 1000 (real (unat now) / cpu_freq) else run_ms now w in
       map view (high_conflict_high_freq r) = listed el z True True \<and>
       map view (high_conflict_low_freq r) = listed el z True False \<and>
       map view (low_conflict_high_freq r) = listed el z False True) \<and>
      (\<forall>k<threadIndex (tbl (pr z)). thread_waits r k = waited_in k (history z))"
proof -
  let ?x = "closed_table now (tbl (pr z))"
  have inv: "run_inv w" "fresh_levels (tbl (pr w))" "fresh_entries (nst w)"
    using run_inv_run [OF assms(1-3)] fresh_run [OF assms(1-3)] fresh_entries_run [OF assms(1-3)] by blast+
  have i: "interrupted dbl shell link raw now SIGINT z = Some (0, print_files dbl shell link raw ?x (nst z))"
    by (simp add: interrupted_def sigHandler_def finalizer_closes [OF assms(5)])
  show ?thesis
  proof (cases "moment = In_entry \<and> 0 < made w")
    case True
    then show ?thesis
      using half_made_aborts [OF _ run_count_inv [OF inv(1)] inv(3) _ assms(6,7)] assms(4) by (simp add: i)
  next
    case False
    then have c: "count_inv z" by (intro cut_count_inv [OF assms(4) inv]) auto
    have el: "elapsed_time_for_freq ?x = (if moment = In_level then max 1000 (real (unat now) / cpu_freq) else run_ms now w)"
    proof (cases "moment = In_level")
      case True
      then have "levelInfo (tbl (pr z)) (threadLevel (tbl (pr z))) = zero_level"
        using assms(4) inv cut_state(1) [of "tbl (pr w)" "tbl (pr z)"] by (simp add: run_inv_def table_ok_def)
      with True show ?thesis by (simp add: closed_cut)
    next
      case False
      with assms(4) have "pr z = pr w" by (cases moment) simp_all
      with False show ?thesis by (simp add: closed_table_def elapsed_time_for_freq_def run_ms_def Let_def max_def)
    qed
    have x: "threadIndex ?x = threadIndex (tbl (pr z))" by (simp add: closed_table_def)
    show ?thesis unfolding if_not_P [OF False] i
      using report_true [OF c assms(6-8) x, of dbl raw] by (auto simp: el Let_def)
  qed
qed

text \<open>The run of \<open>demo_run\<close>, cut where its first thread is created, on a machine that has been up for 100 seconds,
  and cut where a second mutex is used for the first time.\<close>

theorem interrupt_reports_witness:
  "\<exists>p0 w z fs r y. initializer (\<lambda>_. 0) 0 0 True (\<lambda>_ _ _ _ _. True) unloaded = Ret () p0 \<and> pstep\<^sup>*\<^sup>* (at_start p0) w \<and>
    cut_short In_level w z \<and>
    interrupted demo_dbl demo_shell ''app'' (\<lambda>_. demo_raw) 200000000000 SIGINT z = Some (0, Ret fs r) \<and>
    map view (high_conflict_low_freq r) = [(100, 1 / 100000, 0)] \<and>
    cut_short In_entry w y \<and> interrupted demo_dbl demo_shell ''app'' (\<lambda>_. demo_raw) 200000000000 SIGINT y = Some (0, Abort)"
proof -
  obtain p0 where p0: "initializer (\<lambda>_. 0) 0 0 True (\<lambda>_ _ _ _ _. True) unloaded = Ret () p0" using initializer_starts by blast
  obtain w where w: "pstep\<^sup>*\<^sup>* (at_start p0) w" "history w = [(Accessed 0 0, 0), (Failed 0 0, 0)]" "made w = 1"
    "stack_count (pool (nst w) 0) = 0" "pr w = pr (at_start p0)" using demo_run [OF p0] by blast
  have t: "tbl (pr w) = first_table (\<lambda>_. 0) 0 0"
    using initializer_Ret [OF p0] w(5) by (simp add: unloaded_def at_start_def)
  obtain x where x: "between_levels (\<lambda>_. 0) (creating (\<lambda>_. 0) 0 0 (tbl (pr w))) = Ret () x" "threadLevel x = 1"
    by (simp add: between_levels_Ret t creating_def first_table_def loaded_def)
  let ?z = "w\<lparr>pr := (pr w)\<lparr>tbl := x\<rparr>\<rparr>"
  have "aliveThreads (tbl (pr w)) = 1" "threadIndex (tbl (pr w)) < MAX_THREADS" by (simp_all add: t first_table_def loaded_def)
  then have z: "cut_short In_level w ?z" using x(1) by (auto intro: cut.in_create)
  have h: "p_threads unloaded = loaded" "threadLevel (tbl (pr ?z)) < MAX_THREAD_LEVELS" "setFileName ''app'' = Some ''app''"
    "length (history ?z) < 42949673"
    by (simp_all add: unloaded_def w(2) x(2) setFileName_def MAXBUFSIZE_def)
  have el: "max 1000 (real (unat (200000000000 :: u64)) / cpu_freq) = 100000" by (simp add: cpu_freq_def)
  from interrupt_reports [OF p0 h(1) w(1) z h(2) demo_fit h(3,4), of demo_dbl "\<lambda>_. demo_raw" 200000000000] obtain fs r where
    r: "interrupted demo_dbl demo_shell ''app'' (\<lambda>_. demo_raw) 200000000000 SIGINT ?z = Some (0, Ret fs r)"
      "map view (high_conflict_low_freq r) = listed 100000 ?z True False" unfolding el by (auto simp: Let_def)
  have "listed 100000 ?z True False = [(100, 1 / 100000, 0)]"
    using w by (simp add: listed_def accesses_in_def fails_in_def made_def)
  moreover have "run_inv w" by (rule run_inv_run [OF p0 h(1) w(1)])
  then have p: "pool_inv (nst w)" by (simp add: run_inv_def)
  have u: "unat (re_cur (sync_vars (nst w))) = 1" using w(3) by (simp add: made_def getEntriesNumb_def)
  obtain idx y where "reserved (nst w) = Ret idx y"
    using get_next_index_below [of "sync_vars (nst w)"] p u
    by (auto simp: reserved_def pool_inv_def word_less_nat_alt MAX_SYNC_ENTRIES_def)
  then have y: "cut_short In_entry w (w\<lparr>nst := y\<rparr>)" by (auto intro: half_made.in_reserved)
  have "threadLevel (tbl (pr (w\<lparr>nst := y\<rparr>))) < MAX_THREAD_LEVELS" "length (history (w\<lparr>nst := y\<rparr>)) < 42949673"
    using w(2) by (simp_all add: t first_table_def loaded_def)
  from interrupt_reports [OF p0 h(1) w(1) y this(1) demo_fit h(3) this(2), of demo_dbl "\<lambda>_. demo_raw" 200000000000] w(3)
  have "interrupted demo_dbl demo_shell ''app'' (\<lambda>_. demo_raw) 200000000000 SIGINT (w\<lparr>nst := y\<rparr>) = Some (0, Abort)" by simp
  ultimately show ?thesis using p0 w(1) z r y by metis
qed

end
