(* ===== verification/Atomics.thy ===== *)
theory Atomics
  imports Prelude
begin

unbundle bit_operations_syntax

text \<open>
  The atomic operations of \<open>source/bits/atomic.h\<close> (one x86-64 instruction each) and the generic ones of
  \<open>source/atomic.h\<close> (loops around compare-and-exchange, or calls of another operation), for a word of any
  width: the chains on \<open>sizeof (*mem)\<close> pick the instruction of that width. Memory is sequentially
  consistent, so the memory order in a name has no meaning here and barriers do nothing. The other
  threads may change the word before each access (\<open>touch\<close>). A \<open>catomic\<close> operation leaves out the
  lock prefix while \<open>multiple_threads\<close> of the thread's header is 0; an instruction without the prefix
  is a read and, after the others may have acted, a write. A generic macro that the architecture
  overrides has the prefix \<open>g_\<close>. The loops carry fuel.
\<close>

section \<open>Memory and instructions\<close>

type_synonym 'a others = "nat \<Rightarrow> 'a word \<Rightarrow> 'a word"

record 'w amem =
  a_val :: 'w
  a_clk :: nat

definition touch :: "'a::len others \<Rightarrow> 'a word amem \<Rightarrow> 'a word amem" where
  "touch E s = \<lparr>a_val = E (a_clk s) (a_val s), a_clk = a_clk s + 1\<rparr>"

definition load_word :: "'a::len others \<Rightarrow> 'a word amem \<Rightarrow> 'a word \<times> 'a word amem" where
  "load_word E s = (let s = touch E s in (a_val s, s))"

definition locked :: "'a::len others \<Rightarrow> ('a word \<Rightarrow> 'a word) \<Rightarrow> 'a word amem \<Rightarrow> 'a word \<times> 'a word amem" where
  "locked E f s = (let s = touch E s; v = a_val s in (v, s\<lparr>a_val := f v\<rparr>))"

definition unlocked :: "'a::len others \<Rightarrow> ('a word \<Rightarrow> 'a word) \<Rightarrow> 'a word amem \<Rightarrow> 'a word \<times> 'a word amem" where
  "unlocked E f s = (let s = touch E s; v = a_val s; s = touch E s in (v, s\<lparr>a_val := f v\<rparr>))"

text \<open>The prefix of the \<open>catomic\<close> operations: compare \<open>multiple_threads\<close> with 0, jump over the lock.\<close>

definition cprefix :: "bool \<Rightarrow> 'a::len others \<Rightarrow> ('a word \<Rightarrow> 'a word) \<Rightarrow> 'a word amem \<Rightarrow> 'a word \<times> 'a word amem" where
  "cprefix multiple_threads = (if multiple_threads then locked else unlocked)"

definition swap_if :: "'a::len word \<Rightarrow> 'a word \<Rightarrow> 'a word \<Rightarrow> 'a word" where
  "swap_if newval oldval v = (if v = oldval then newval else v)"

section \<open>The architecture (bits/atomic.h)\<close>

definition atomic_compare_and_exchange_val_acq where
  "atomic_compare_and_exchange_val_acq E newval oldval = locked E (swap_if newval oldval)"

text \<open>True when nothing was exchanged.\<close>

definition atomic_compare_and_exchange_bool_acq where
  "atomic_compare_and_exchange_bool_acq E newval oldval s =
     (case locked E (swap_if newval oldval) s of (v, s) \<Rightarrow> (v \<noteq> oldval, s))"

definition arch_c_compare_and_exchange_val_acq where
  "arch_c_compare_and_exchange_val_acq mt E newval oldval = cprefix mt E (swap_if newval oldval)"

definition atomic_exchange_acq where
  "atomic_exchange_acq E newvalue = locked E (\<lambda>_. newvalue)"

definition arch_exchange_and_add_body where
  "arch_exchange_and_add_body ins E value = ins E (\<lambda>v. v + value)"

definition atomic_exchange_and_add where
  "atomic_exchange_and_add E value = locked E (\<lambda>v. v + value)"

definition catomic_exchange_and_add where
  "catomic_exchange_and_add mt E value = arch_exchange_and_add_body (cprefix mt) E value"

definition arch_increment_body where
  "arch_increment_body ins E s = snd (ins E (\<lambda>v. v + 1) s)"

definition atomic_increment where "atomic_increment E = arch_increment_body locked E"
definition catomic_increment where "catomic_increment mt E = arch_increment_body (cprefix mt) E"

definition arch_decrement_body where
  "arch_decrement_body ins E s = snd (ins E (\<lambda>v. v - 1) s)"

definition atomic_decrement where "atomic_decrement E = arch_decrement_body locked E"
definition catomic_decrement where "catomic_decrement mt E = arch_decrement_body (cprefix mt) E"

text \<open>\<open>const\<close> is whether the compiler knows the value.\<close>

definition arch_add_body where
  "arch_add_body ins inc dec const E value s =
     (if const \<and> value = 1 then inc E s else if const \<and> value = - 1 then dec E s
      else snd (ins E (\<lambda>v. v + value) s))"

definition atomic_add where
  "atomic_add const E value = arch_add_body locked atomic_increment atomic_decrement const E value"

definition catomic_add where
  "catomic_add mt const E value =
     arch_add_body (cprefix mt) (catomic_increment mt) (catomic_decrement mt) const E value"

text \<open>The operations that set their result from a flag of the processor.\<close>

definition atomic_add_negative where
  "atomic_add_negative E value s = (case locked E (\<lambda>v. v + value) s of (v, s) \<Rightarrow> (sint (v + value) < 0, s))"

definition atomic_add_zero where
  "atomic_add_zero E value s = (case locked E (\<lambda>v. v + value) s of (v, s) \<Rightarrow> (v + value = 0, s))"

definition atomic_increment_and_test where
  "atomic_increment_and_test E s = (case locked E (\<lambda>v. v + 1) s of (v, s) \<Rightarrow> (v + 1 = 0, s))"

definition atomic_decrement_and_test where
  "atomic_decrement_and_test E s = (case locked E (\<lambda>v. v - 1) s of (v, s) \<Rightarrow> (v - 1 = 0, s))"

definition atomic_bit_set :: "'a::len others \<Rightarrow> nat \<Rightarrow> 'a word amem \<Rightarrow> 'a word amem" where
  "atomic_bit_set E b s = snd (locked E (\<lambda>v. v OR ucast (push_bit b 1 :: 64 word)) s)"

definition atomic_bit_test_set :: "'a::len others \<Rightarrow> nat \<Rightarrow> 'a word amem \<Rightarrow> bool \<times> 'a word amem" where
  "atomic_bit_test_set E b s = (case locked E (\<lambda>v. set_bit b v) s of (v, s) \<Rightarrow> (bit v b, s))"

definition arch_and_body where
  "arch_and_body ins E m s = snd (ins E (\<lambda>v. v AND m) s)"

definition atomic_and where "atomic_and E m = arch_and_body locked E m"
definition catomic_and where "catomic_and mt E m = arch_and_body (cprefix mt) E m"

definition arch_or_body where
  "arch_or_body ins E m s = snd (ins E (\<lambda>v. v OR m) s)"

definition atomic_or where "atomic_or E m = arch_or_body locked E m"
definition catomic_or where "catomic_or mt E m = arch_or_body (cprefix mt) E m"

section \<open>The generic operations (atomic.h)\<close>

definition catomic_compare_and_exchange_val_acq where
  "catomic_compare_and_exchange_val_acq mt E newval oldval = arch_c_compare_and_exchange_val_acq mt E newval oldval"

definition catomic_compare_and_exchange_bool_acq where
  "catomic_compare_and_exchange_bool_acq mt E newval oldval s =
     (case catomic_compare_and_exchange_val_acq mt E newval oldval s of (v, s) \<Rightarrow> (v \<noteq> oldval, s))"

definition g_atomic_compare_and_exchange_bool_acq where
  "g_atomic_compare_and_exchange_bool_acq E newval oldval s =
     (case atomic_compare_and_exchange_val_acq E newval oldval s of (v, s) \<Rightarrow> (v \<noteq> oldval, s))"

text \<open>The loop the macros share: read, perhaps leave, compute, try to exchange.\<close>

fun cas_loop :: "nat \<Rightarrow> 'a::len others \<Rightarrow> ('a word \<Rightarrow> 'a word \<Rightarrow> 'a word amem \<Rightarrow> bool \<times> 'a word amem) \<Rightarrow>
    ('a word \<Rightarrow> bool) \<Rightarrow> ('a word \<Rightarrow> 'a word) \<Rightarrow> 'a word amem \<Rightarrow> ('a word, 'a word amem) out" where
  "cas_loop 0 E cas leave f s = Stuck"
| "cas_loop (Suc n) E cas leave f s =
     (case load_word E s of (oldval, s) \<Rightarrow>
        if leave oldval then Ret oldval s
        else case cas (f oldval) oldval s of (failed, s) \<Rightarrow>
          if failed then cas_loop n E cas leave f s else Ret oldval s)"

abbreviation (input) "cas_acq E \<equiv> atomic_compare_and_exchange_bool_acq E"
abbreviation (input) "ccas_acq mt E \<equiv> catomic_compare_and_exchange_bool_acq mt E"
abbreviation (input) "never \<equiv> \<lambda>_. False"

definition g_atomic_exchange_acq where
  "g_atomic_exchange_acq n E newvalue = cas_loop n E (cas_acq E) never (\<lambda>_. newvalue)"

definition atomic_exchange_rel where
  "atomic_exchange_rel E newvalue = atomic_exchange_acq E newvalue"

definition atomic_exchange_and_add_acq where
  "atomic_exchange_and_add_acq E value = atomic_exchange_and_add E value"

definition atomic_exchange_and_add_rel where
  "atomic_exchange_and_add_rel E value = atomic_exchange_and_add_acq E value"

definition g_atomic_exchange_and_add_acq where
  "g_atomic_exchange_and_add_acq n E value = cas_loop n E (cas_acq E) never (\<lambda>v. v + value)"

definition g_catomic_exchange_and_add where
  "g_catomic_exchange_and_add n mt E value = cas_loop n E (ccas_acq mt E) never (\<lambda>v. v + value)"

text \<open>\<open>num\<close> reads a word as a number, \<open>sint\<close> or \<open>uint\<close> after the type of the object.\<close>

definition atomic_max where
  "atomic_max n num E value s = cas_loop n E (cas_acq E) (\<lambda>v. (num v :: int) \<ge> num value) (\<lambda>_. value) s"

definition catomic_max where
  "catomic_max n mt num E value s = cas_loop n E (ccas_acq mt E) (\<lambda>v. (num v :: int) \<ge> num value) (\<lambda>_. value) s"

definition atomic_min where
  "atomic_min n num E value s = cas_loop n E (cas_acq E) (\<lambda>v. (num v :: int) \<le> num value) (\<lambda>_. value) s"

text \<open>Arithmetic on a value read from the object: one of 1 or 2 bytes is promoted to \<open>int\<close>, where nothing
  overflows; one of 4 or 8 bytes stays at its width.\<close>

definition c_add :: "('a::len word \<Rightarrow> int) \<Rightarrow> 'a word \<Rightarrow> int \<Rightarrow> int" where
  "c_add num v k = (if LENGTH('a) < 32 then num v + k else num (v + word_of_int k))"

definition c_neg :: "('a::len word \<Rightarrow> int) \<Rightarrow> 'a word \<Rightarrow> int" where
  "c_neg num v = (if LENGTH('a) < 32 then - num v else num (- v))"

definition atomic_increment_val where
  "atomic_increment_val num E s = (case atomic_exchange_and_add E 1 s of (v, s) \<Rightarrow> (c_add num v 1, s))"

definition catomic_increment_val where
  "catomic_increment_val mt num E s = (case catomic_exchange_and_add mt E 1 s of (v, s) \<Rightarrow> (c_add num v 1, s))"

definition g_atomic_increment_and_test where
  "g_atomic_increment_and_test num E s = (case atomic_exchange_and_add E 1 s of (v, s) \<Rightarrow> (c_add num v 1 = 0, s))"

definition atomic_decrement_val where
  "atomic_decrement_val num E s = (case atomic_exchange_and_add E (- 1) s of (v, s) \<Rightarrow> (c_add num v (- 1), s))"

definition catomic_decrement_val where
  "catomic_decrement_val mt num E s = (case catomic_exchange_and_add mt E (- 1) s of (v, s) \<Rightarrow> (c_add num v (- 1), s))"

definition g_atomic_decrement_and_test where
  "g_atomic_decrement_and_test E s = (case atomic_exchange_and_add E (- 1) s of (v, s) \<Rightarrow> (v = 1, s))"

definition atomic_decrement_if_positive where
  "atomic_decrement_if_positive n num E s =
     cas_loop n E (cas_acq E) (\<lambda>v. (num v :: int) \<le> 0) (\<lambda>v. v - 1) s"

definition g_atomic_add_negative where
  "g_atomic_add_negative num E value s =
     (case atomic_exchange_and_add E value s of (v, s) \<Rightarrow> (num v < c_neg num value, s))"

definition g_atomic_add_zero where
  "g_atomic_add_zero num E value s = (case atomic_exchange_and_add E value s of (v, s) \<Rightarrow> (num v = c_neg num value, s))"

definition g_atomic_bit_test_set where
  "g_atomic_bit_test_set n E b s =
     (let m = push_bit b 1 in bnd (cas_loop n E (cas_acq E) never (\<lambda>v. v OR m) s) (\<lambda>v s. Ret (v AND m) s))"

definition g_atomic_and where
  "g_atomic_and n E m s = bnd (cas_loop n E (cas_acq E) never (\<lambda>v. v AND m) s) (\<lambda>_ s. Ret () s)"

definition g_catomic_and where
  "g_catomic_and n mt E m s = bnd (cas_loop n E (ccas_acq mt E) never (\<lambda>v. v AND m) s) (\<lambda>_ s. Ret () s)"

definition atomic_and_val where
  "atomic_and_val n E m s = cas_loop n E (cas_acq E) never (\<lambda>v. v AND m) s"

definition g_atomic_or where
  "g_atomic_or n E m s = bnd (cas_loop n E (cas_acq E) never (\<lambda>v. v OR m) s) (\<lambda>_ s. Ret () s)"

definition g_catomic_or where
  "g_catomic_or n mt E m s = bnd (cas_loop n E (ccas_acq mt E) never (\<lambda>v. v OR m) s) (\<lambda>_ s. Ret () s)"

definition atomic_or_val where
  "atomic_or_val n E m s = cas_loop n E (cas_acq E) never (\<lambda>v. v OR m) s"

section \<open>The C11 subset (atomic.h)\<close>

text \<open>The compiler's built-ins, which the architecture asks for, on objects of 4 or 8 bytes
  (\<open>__atomic_check_size\<close>). A weak exchange may fail without a reason (\<open>spurious\<close>), and stores
  the value it found in \<open>*expected\<close>: the results are success, \<open>*expected\<close> and the memory.\<close>

definition atomic_load_relaxed where "atomic_load_relaxed E s = load_word E s"

definition atomic_store_relaxed where
  "atomic_store_relaxed E v s = (touch E s)\<lparr>a_val := v\<rparr>"

definition atomic_compare_exchange_weak where
  "atomic_compare_exchange_weak spurious E expected desired s =
     (let s = touch E s; v = a_val s
      in if v = expected \<and> \<not> spurious then (True, expected, s\<lparr>a_val := desired\<rparr>) else (False, v, s))"

definition atomic_fetch_add where "atomic_fetch_add E operand = locked E (\<lambda>v. v + operand)"
definition atomic_fetch_and where "atomic_fetch_and E operand = locked E (\<lambda>v. v AND operand)"
definition atomic_fetch_or where "atomic_fetch_or E operand = locked E (\<lambda>v. v OR operand)"
definition atomic_exchange_builtin where "atomic_exchange_builtin E desired = locked E (\<lambda>_. desired)"

text \<open>The same without the built-ins.\<close>

definition g_atomic_compare_exchange_weak where
  "g_atomic_compare_exchange_weak E expected desired s =
     (case atomic_compare_and_exchange_val_acq E desired expected s of (v, s) \<Rightarrow> (v = expected, v, s))"

definition g_atomic_exchange_acquire where "g_atomic_exchange_acquire E v = atomic_exchange_acq E v"
definition g_atomic_exchange_release where "g_atomic_exchange_release E v = atomic_exchange_rel E v"
definition g_atomic_fetch_add_acquire where "g_atomic_fetch_add_acquire E v = atomic_exchange_and_add_acq E v"
definition g_atomic_fetch_add_release where "g_atomic_fetch_add_release E v = atomic_exchange_and_add_rel E v"
definition g_atomic_fetch_and_acquire where "g_atomic_fetch_and_acquire n E m = atomic_and_val n E m"
definition g_atomic_fetch_or_acquire where "g_atomic_fetch_or_acquire n E m = atomic_or_val n E m"

section \<open>The loop\<close>

text \<open>The memory after the other threads have had \<open>k\<close> turns.\<close>

definition later :: "'a::len others \<Rightarrow> nat \<Rightarrow> 'a word amem \<Rightarrow> 'a word amem" where
  "later E k s = (touch E ^^ k) s"

lemma later_simps [simp]: "later E 0 s = s" "later E (Suc k) s = later E k (touch E s)"
  by (simp_all add: later_def funpow_swap1)

lemma later_Suc: "later E (Suc k) s = touch E (later E k s)"
  by (simp add: later_def)

lemma touch_simps [simp]: "a_val (touch E s) = E (a_clk s) (a_val s)" "a_clk (touch E s) = a_clk s + 1"
  by (simp_all add: touch_def)

lemma cas_acq_eq:
  "atomic_compare_and_exchange_bool_acq E newval oldval s =
     (if a_val (touch E s) = oldval then (False, (touch E s)\<lparr>a_val := newval\<rparr>) else (True, touch E s))"
  by (simp add: atomic_compare_and_exchange_bool_acq_def locked_def swap_if_def Let_def)

lemma cas_loop_Suc:
  "cas_loop (Suc n) E (cas_acq E) leave f s =
     (let v = a_val (touch E s); s2 = touch E (touch E s) in
      if leave v then Ret v (touch E s)
      else if a_val s2 = v then Ret v (s2\<lparr>a_val := f v\<rparr>) else cas_loop n E (cas_acq E) leave f s2)"
  by (simp add: load_word_def Let_def cas_acq_eq [of E "f (a_val (touch E s))" "a_val (touch E s)" "touch E s"]
      del: touch_simps)

declare cas_loop.simps(2) [simp del] cas_loop_Suc [simp]

lemma loop_linear:
  assumes "cas_loop n E (cas_acq E) leave f s = Ret v t"
  shows "\<exists>k. a_val (later E (Suc k) s) = v \<and>
    t = (if leave v then later E (Suc k) s else (later E (Suc k) s)\<lparr>a_val := f v\<rparr>)"
  using assms
proof (induction n arbitrary: s)
  case (Suc n)
  let ?s1 = "touch E s" let ?s2 = "touch E ?s1"
  show ?case
  proof (cases "leave (a_val ?s1)")
    case True
    with Suc.prems show ?thesis by (intro exI [of _ 0]) (auto simp: Let_def)
  next
    case l: False
    show ?thesis
    proof (cases "a_val ?s2 = a_val ?s1")
      case True
      with l Suc.prems show ?thesis
        by (intro exI [of _ 1]) (auto simp: Let_def simp del: touch_simps)
    next
      case False
      with l Suc.prems have "cas_loop n E (cas_acq E) leave f ?s2 = Ret v t"
        by (simp add: Let_def del: touch_simps)
      from Suc.IH [OF this] obtain k where "a_val (later E (Suc k) ?s2) = v \<and>
        t = (if leave v then later E (Suc k) ?s2 else (later E (Suc k) ?s2)\<lparr>a_val := f v\<rparr>)" by blast
      then show ?thesis by (intro exI [of _ "k + 2"]) simp
    qed
  qed
qed simp

corollary loop_locked:
  assumes "cas_loop n E (cas_acq E) never f s = Ret v t"
  shows "\<exists>k. locked E f (later E k s) = (v, t)"
  using loop_linear [OF assms] by (auto simp: locked_def Let_def later_Suc simp del: later_simps)

corollary loop_locked_snd:
  assumes "bnd (cas_loop n E (cas_acq E) never f s) (\<lambda>_ s. Ret () s) = Ret u t"
  shows "\<exists>k. snd (locked E f (later E k s)) = t"
proof -
  from assms obtain w where "cas_loop n E (cas_acq E) never f s = Ret w t" by (auto simp: bnd_eq_Ret)
  from loop_locked [OF this] obtain k where "locked E f (later E k s) = (w, t)" ..
  then have "snd (locked E f (later E k s)) = t" by simp
  then show ?thesis ..
qed

lemma loop_value:
  assumes "cas_loop n E (cas_acq E) leave f s = Ret v t"
  shows "\<exists>k. a_val (later E (Suc k) s) = v \<and> a_val t = (if leave v then v else f v)"
proof -
  from loop_linear [OF assms] obtain k where "a_val (later E (Suc k) s) = v \<and>
    t = (if leave v then later E (Suc k) s else (later E (Suc k) s)\<lparr>a_val := f v\<rparr>)" by blast
  then show ?thesis by (intro exI [of _ k]) simp
qed

text \<open>From clock \<open>c\<close> on the other threads leave the word alone.\<close>

definition quiet_from :: "nat \<Rightarrow> 'a::len others \<Rightarrow> bool" where
  "quiet_from c E \<longleftrightarrow> (\<forall>k\<ge>c. \<forall>w. E k w = w)"

lemma loop_returns:
  assumes "quiet_from c E" and "c - a_clk s < n"
  shows "\<exists>v t. cas_loop n E (cas_acq E) leave f s = Ret v t"
  using assms(2)
proof (induction n arbitrary: s)
  case (Suc n)
  let ?s1 = "touch E s" let ?s2 = "touch E ?s1"
  show ?case
  proof (cases "c \<le> a_clk s + 1")
    case True
    then have "a_val ?s2 = a_val ?s1" using assms(1) by (simp add: quiet_from_def)
    then show ?thesis by (simp add: Let_def del: touch_simps)
  next
    case False
    then have "c - a_clk ?s2 < n" using Suc.prems by simp
    from Suc.IH [OF this] show ?thesis
      by (auto simp: Let_def simp del: touch_simps)
  qed
qed simp

section \<open>Properties\<close>

text \<open>
  C28 (the generic operations do what the instructions do). Whatever the other threads do, a generic loop that
  returns has had the effect, at one moment of its run, of the one instruction the architecture has for the
  operation: it gives the value found at that moment (for the test-and-set, a non-zero value exactly
  when the instruction gives 1) and leaves the memory the instruction leaves.
\<close>

theorem generic_linearizes:
  "(g_atomic_exchange_acq n E x s = Ret v t \<longrightarrow> (\<exists>k. atomic_exchange_acq E x (later E k s) = (v, t))) \<and>
   (g_atomic_exchange_and_add_acq n E x s = Ret v t \<longrightarrow> (\<exists>k. atomic_exchange_and_add E x (later E k s) = (v, t))) \<and>
   (g_atomic_and n E x s = Ret u t \<longrightarrow> (\<exists>k. atomic_and E x (later E k s) = t)) \<and>
   (g_atomic_or n E x s = Ret u t \<longrightarrow> (\<exists>k. atomic_or E x (later E k s) = t)) \<and>
   (g_atomic_bit_test_set n E b s = Ret v t \<longrightarrow> b < LENGTH('a::len) \<longrightarrow>
      (\<exists>k. atomic_bit_test_set E b (later E k (s :: 'a word amem)) = (v \<noteq> 0, t)))"
proof -
  have bts: "\<exists>k. atomic_bit_test_set E b (later E k s) = (v \<noteq> 0, t)"
    if "g_atomic_bit_test_set n E b s = Ret v t" "b < LENGTH('a)"
  proof -
    from that(1) obtain w where w: "cas_loop n E (cas_acq E) never (\<lambda>v. v OR push_bit b 1) s = Ret w t"
      "v = w AND push_bit b 1" by (auto simp: g_atomic_bit_test_set_def Let_def bnd_eq_Ret)
    have "(v \<noteq> 0) = bit w b" using that(2) by (simp add: w(2) push_bit_eq_mult and_exp_eq_0_iff_not_bit flip: push_bit_eq_mult)
    moreover have "set_bit b x = x OR push_bit b 1" for x :: "'a word" by (simp add: set_bit_eq_or)
    moreover obtain k where "locked E (\<lambda>v. v OR push_bit b 1) (later E k s) = (w, t)"
      using loop_locked [OF w(1)] by blast
    ultimately have "atomic_bit_test_set E b (later E k s) = (v \<noteq> 0, t)"
      by (simp only: atomic_bit_test_set_def prod.case)
    then show ?thesis ..
  qed
  have "\<exists>k. arch_and_body locked E x (later E k s) = t" if "g_atomic_and n E x s = Ret u t"
    using that loop_locked_snd [of n E "\<lambda>v. v AND x" s] by (simp add: g_atomic_and_def arch_and_body_def)
  moreover have "\<exists>k. arch_or_body locked E x (later E k s) = t" if "g_atomic_or n E x s = Ret u t"
    using that loop_locked_snd [of n E "\<lambda>v. v OR x" s] by (simp add: g_atomic_or_def arch_or_body_def)
  ultimately show ?thesis
    using loop_locked [of n E "\<lambda>_. x" s] loop_locked [of n E "\<lambda>v. v + x" s] bts
    by (simp add: g_atomic_exchange_acq_def atomic_exchange_acq_def g_atomic_exchange_and_add_acq_def
        atomic_exchange_and_add_def atomic_and_def atomic_or_def)
qed

text \<open>Another thread that adds one before each of the first three accesses.\<close>

definition busy :: "32 others" where
  "busy k w = (if k < 3 then w + 1 else w)"

lemma busy_quiet: "quiet_from 3 busy"
  by (simp add: quiet_from_def busy_def)

theorem generic_linearizes_witness:
  "\<exists>v t k. g_atomic_exchange_and_add_acq 9 busy 10 \<lparr>a_val = 5, a_clk = 0\<rparr> = Ret v t \<and>
    atomic_exchange_and_add busy 10 (later busy k \<lparr>a_val = 5, a_clk = 0\<rparr>) = (v, t)"
proof -
  obtain v t where r: "g_atomic_exchange_and_add_acq 9 busy 10 \<lparr>a_val = 5, a_clk = 0\<rparr> = Ret v t"
    using loop_returns [OF busy_quiet, of "\<lparr>a_val = 5, a_clk = 0\<rparr>" 9 never "\<lambda>v. v + 10"]
    by (auto simp: g_atomic_exchange_and_add_acq_def simp del: cas_loop_Suc)
  with generic_linearizes [of 9 busy 10 "\<lparr>a_val = 5, a_clk = 0\<rparr>" v t "()" 0] show ?thesis by blast
qed

text \<open>
  C38 (the loops return). If the other threads leave the word alone from some moment on, every loop of the generic
  operations returns: with more rounds of fuel than there are turns left until then it does not run out.
\<close>

theorem retries_return:
  assumes "quiet_from c E" and "c - a_clk s < n"
  shows "(\<exists>v t. atomic_max n num E x s = Ret v t) \<and> (\<exists>v t. atomic_min n num E x s = Ret v t) \<and>
    (\<exists>v t. atomic_decrement_if_positive n num E s = Ret v t) \<and> (\<exists>v t. atomic_and_val n E x s = Ret v t) \<and>
    (\<exists>v t. atomic_or_val n E x s = Ret v t) \<and> (\<exists>v t. g_atomic_exchange_acq n E x s = Ret v t) \<and>
    (\<exists>v t. g_atomic_exchange_and_add_acq n E x s = Ret v t) \<and> (\<exists>v t. g_atomic_bit_test_set n E b s = Ret v t)"
proof -
  obtain w t where "cas_loop n E (cas_acq E) never (\<lambda>v. v OR push_bit b 1) s = Ret w t"
    using loop_returns [OF assms] by blast
  then have "\<exists>v t. g_atomic_bit_test_set n E b s = Ret v t"
    unfolding g_atomic_bit_test_set_def Let_def by (simp only: bnd_simps) blast
  then show ?thesis
    using loop_returns [OF assms]
    by (simp add: atomic_max_def atomic_min_def atomic_decrement_if_positive_def atomic_and_val_def atomic_or_val_def
        g_atomic_exchange_acq_def g_atomic_exchange_and_add_acq_def)
qed

theorem retries_return_witness: "\<exists>v t. atomic_max 9 uint busy 100 \<lparr>a_val = 5, a_clk = 0\<rparr> = Ret v t"
  using retries_return [OF busy_quiet, of "\<lparr>a_val = 5, a_clk = 0\<rparr>" 9 uint 100 0] by simp

text \<open>
  Conditional updates. A maximum, minimum or conditional decrement that returns has, at one moment of its
  run, found the value it gives and put the greater, the smaller, or the value less one if it is
  positive, in its place; so a decrement never takes the word below zero.
\<close>

lemma conditional_update:
  "(atomic_max n num E x s = Ret v t \<longrightarrow>
      (\<exists>k. a_val (later E (Suc k) s) = v \<and> a_val t = (if num v < num x then x else v))) \<and>
   (atomic_min n num E x s = Ret v t \<longrightarrow>
      (\<exists>k. a_val (later E (Suc k) s) = v \<and> a_val t = (if num x < num v then x else v))) \<and>
   (atomic_decrement_if_positive n num E s = Ret v t \<longrightarrow>
      (\<exists>k. a_val (later E (Suc k) s) = v \<and> a_val t = (if 0 < num v then v - 1 else v)))"
proof -
  have le: "(if num x \<le> num v then v else x) = (if num v < num x then x else v)"
    "(if num v \<le> num x then v else x) = (if num x < num v then x else v)"
    "(if num v \<le> 0 then v else v - 1) = (if 0 < num v then v - 1 else v)" by simp_all
  show ?thesis
    unfolding atomic_max_def atomic_min_def atomic_decrement_if_positive_def le [symmetric]
    using loop_value [of n E _ _ s v t] by blast
qed

lemma conditional_update_witness:
  "\<exists>v t k. atomic_decrement_if_positive 9 sint busy \<lparr>a_val = 0, a_clk = 3\<rparr> = Ret v t \<and>
    a_val (later busy (Suc k) \<lparr>a_val = 0, a_clk = 3\<rparr>) = v \<and> a_val t = (if 0 < sint v then v - 1 else v)"
proof -
  obtain v t where "atomic_decrement_if_positive 9 sint busy \<lparr>a_val = 0, a_clk = 3\<rparr> = Ret v t"
    using loop_returns [OF busy_quiet, of "\<lparr>a_val = 0, a_clk = 3\<rparr>" 9 "\<lambda>v. sint v \<le> 0" "\<lambda>v. v - 1"]
    by (auto simp: atomic_decrement_if_positive_def)
  with conditional_update [of 9 sint busy 0 "\<lparr>a_val = 0, a_clk = 3\<rparr>" v t] show ?thesis by blast
qed

section \<open>Single instructions\<close>

text \<open>What every instruction that changes the word promises, with the prefix or without: it reads the word as the
  others have left it at its first access, and at its end the word is what it computes from that.\<close>

locale rmw =
  fixes ins :: "'a::len others \<Rightarrow> ('a word \<Rightarrow> 'a word) \<Rightarrow> 'a word amem \<Rightarrow> 'a word \<times> 'a word amem"
  assumes reads: "fst (ins E f s) = E (a_clk s) (a_val s)"
    and stores: "a_val (snd (ins E f s)) = f (fst (ins E f s))"
begin

lemma add_body:
  "arch_add_body ins (arch_increment_body ins) (arch_decrement_body ins) const E x s = snd (ins E (\<lambda>v. v + x) s)"
  by (auto simp: arch_add_body_def arch_increment_body_def arch_decrement_body_def)

lemma add_value:
  "a_val (arch_add_body ins (arch_increment_body ins) (arch_decrement_body ins) const E x s) = E (a_clk s) (a_val s) + x"
  by (simp only: add_body stores reads)

lemma logic_value:
  "a_val (arch_and_body ins E x s) = E (a_clk s) (a_val s) AND x"
  "a_val (arch_or_body ins E x s) = E (a_clk s) (a_val s) OR x"
  by (simp_all only: arch_and_body_def arch_or_body_def stores reads)

end

interpretation lk: rmw locked
  by unfold_locales (simp_all add: locked_def Let_def)

interpretation cp: rmw "cprefix mt" for mt
  by unfold_locales (simp_all add: cprefix_def locked_def unlocked_def Let_def)

text \<open>Without the prefix the others have one more turn, in the middle; this gives them that turn after
  an instruction with the prefix.\<close>

definition settle :: "bool \<Rightarrow> 'a::len others \<Rightarrow> 'a word amem \<Rightarrow> 'a word amem" where
  "settle mt E t = (if mt then t else touch E t)"

lemma cprefix_agrees:
  assumes "mt \<or> (\<forall>w. E (a_clk s + 1) w = w)"
  shows "cprefix mt E f s = (fst (locked E f s), settle mt E (snd (locked E f s)))"
  using assms by (auto simp: cprefix_def locked_def unlocked_def Let_def settle_def touch_def)

text \<open>
  A \<open>catomic\<close> operation gives the result and leaves the memory of the atomic
  one if the thread's header says that there are more threads, or if no other thread acts between its
  read and its write: leaving out the prefix is right for a program with one thread. In any case the
  value it leaves depends on its first access alone, so what another thread does in between is lost.
\<close>

lemma catomic_agrees:
  "(mt \<or> (\<forall>w. E (a_clk s + 1) w = w) \<longrightarrow>
     catomic_exchange_and_add mt E x s =
       (fst (atomic_exchange_and_add E x s), settle mt E (snd (atomic_exchange_and_add E x s))) \<and>
     catomic_compare_and_exchange_bool_acq mt E x y s =
       (fst (atomic_compare_and_exchange_bool_acq E x y s), settle mt E (snd (atomic_compare_and_exchange_bool_acq E x y s))) \<and>
     catomic_add mt const E x s = settle mt E (atomic_add const E x s) \<and>
     catomic_increment mt E s = settle mt E (atomic_increment E s) \<and>
     catomic_decrement mt E s = settle mt E (atomic_decrement E s) \<and>
     catomic_and mt E x s = settle mt E (atomic_and E x s) \<and> catomic_or mt E x s = settle mt E (atomic_or E x s)) \<and>
   a_val (catomic_add mt const E x s) = E (a_clk s) (a_val s) + x \<and>
   a_val (catomic_and mt E x s) = E (a_clk s) (a_val s) AND x \<and>
   a_val (catomic_or mt E x s) = E (a_clk s) (a_val s) OR x"
proof (rule conjI, rule impI)
  assume "mt \<or> (\<forall>w. E (a_clk s + 1) w = w)"
  note ag = cprefix_agrees [where E = E and s = s, OF this]
  show "catomic_exchange_and_add mt E x s =
       (fst (atomic_exchange_and_add E x s), settle mt E (snd (atomic_exchange_and_add E x s))) \<and>
     catomic_compare_and_exchange_bool_acq mt E x y s =
       (fst (atomic_compare_and_exchange_bool_acq E x y s), settle mt E (snd (atomic_compare_and_exchange_bool_acq E x y s))) \<and>
     catomic_add mt const E x s = settle mt E (atomic_add const E x s) \<and>
     catomic_increment mt E s = settle mt E (atomic_increment E s) \<and>
     catomic_decrement mt E s = settle mt E (atomic_decrement E s) \<and>
     catomic_and mt E x s = settle mt E (atomic_and E x s) \<and> catomic_or mt E x s = settle mt E (atomic_or E x s)"
    by (simp add: ag catomic_exchange_and_add_def arch_exchange_and_add_body_def atomic_exchange_and_add_def
        catomic_compare_and_exchange_bool_acq_def catomic_compare_and_exchange_val_acq_def
        arch_c_compare_and_exchange_val_acq_def atomic_compare_and_exchange_bool_acq_def catomic_add_def atomic_add_def
        catomic_increment_def catomic_decrement_def atomic_increment_def atomic_decrement_def lk.add_body cp.add_body
        arch_increment_body_def arch_decrement_body_def catomic_and_def catomic_or_def atomic_and_def atomic_or_def
        arch_and_body_def arch_or_body_def arch_add_body_def split_beta)
qed (simp add: catomic_add_def catomic_increment_def [abs_def] catomic_decrement_def [abs_def] cp.add_value
    catomic_and_def catomic_or_def cp.logic_value)

text \<open>The operations that test agree with those of the architecture on objects of 4 and 8 bytes; on shorter ones, which
  are promoted, the generic test for 0 of an unsigned object never succeeds.\<close>

lemma tests_agree:
  fixes s :: "'a::len word amem"
  assumes "32 \<le> LENGTH('a)" and "num = uint \<or> num = sint"
  shows "g_atomic_increment_and_test num E s = atomic_increment_and_test E s"
    and "g_atomic_add_zero num E x s = atomic_add_zero E x s"
proof -
  have inj: "num v = num w \<longleftrightarrow> v = w" for v w :: "'a word"
    using assms(2) by (metis signed_word_eqI word_uint_eqI)
  moreover have "num 0 = 0" using assms(2) by auto
  ultimately have z: "num v = 0 \<longleftrightarrow> v = 0" for v by metis
  show "g_atomic_increment_and_test num E s = atomic_increment_and_test E s"
    using assms(1) by (simp add: g_atomic_increment_and_test_def atomic_increment_and_test_def c_add_def z
        atomic_exchange_and_add_def split_beta locked_def Let_def)
  show "g_atomic_add_zero num E x s = atomic_add_zero E x s"
    using assms(1) by (simp add: g_atomic_add_zero_def atomic_add_zero_def c_neg_def inj
        atomic_exchange_and_add_def split_beta locked_def Let_def eq_neg_iff_add_eq_0)
qed

lemma decrement_agrees: "g_atomic_decrement_and_test E s = atomic_decrement_and_test E s"
  by (simp add: g_atomic_decrement_and_test_def atomic_decrement_and_test_def atomic_exchange_and_add_def split_beta
      locked_def Let_def)

lemma short_test_never:
  fixes s :: "'a::len word amem"
  assumes "LENGTH('a) < 32"
  shows "\<not> fst (g_atomic_increment_and_test uint E s)"
proof -
  have "uint v + 1 \<noteq> 0" for v :: "'a word" using unsigned_greater_eq [of v, where 'a = int] by linarith
  then show ?thesis using assms by (simp add: g_atomic_increment_and_test_def c_add_def split_beta)
qed

text \<open>The C11 operations with and without the built-ins agree.\<close>

lemma c11_agree:
  "g_atomic_fetch_add_acquire E x s = atomic_fetch_add E x s"
  "g_atomic_fetch_add_release E x s = atomic_fetch_add E x s"
  "g_atomic_exchange_acquire E x s = atomic_exchange_builtin E x s"
  "g_atomic_exchange_release E x s = atomic_exchange_builtin E x s"
  "g_atomic_compare_exchange_weak E x y s = atomic_compare_exchange_weak False E x y s"
  by (simp_all add: g_atomic_fetch_add_acquire_def g_atomic_fetch_add_release_def atomic_exchange_and_add_rel_def
      atomic_exchange_and_add_acq_def atomic_exchange_and_add_def atomic_fetch_add_def g_atomic_exchange_acquire_def
      g_atomic_exchange_release_def atomic_exchange_rel_def atomic_exchange_acq_def atomic_exchange_builtin_def
      g_atomic_compare_exchange_weak_def atomic_compare_exchange_weak_def atomic_compare_and_exchange_val_acq_def
      locked_def swap_if_def Let_def)

end
