(* ===== verification/AtomicFallback.thy ===== *)
theory AtomicFallback
  imports Atomics
begin

unbundle bit_operations_syntax

text \<open>
  The names that \<open>source/atomic.h\<close> defines in terms of other operations when the architecture does not: the choice of
  the instruction by the size of the object, the release and relaxed variants, and the part without the compiler's built-ins.
  Shown: each does what the operation does that the architecture gives; of the fences between, sequentially consistent
  memory sees nothing.
\<close>

section \<open>By size\<close>

text \<open>\<open>__atomic_val_bysize\<close> and \<open>__atomic_bool_bysize\<close>: the operation for the width, or \<open>abort()\<close>.\<close>

definition atomic_val_bysize ::
  "nat \<Rightarrow> ('s \<Rightarrow> ('r, 's) out) \<Rightarrow> ('s \<Rightarrow> ('r, 's) out) \<Rightarrow> ('s \<Rightarrow> ('r, 's) out) \<Rightarrow> ('s \<Rightarrow> ('r, 's) out) \<Rightarrow> 's \<Rightarrow> ('r, 's) out" where
  "atomic_val_bysize sz op8 op16 op32 op64 s =
     (if sz = 1 then op8 s else if sz = 2 then op16 s else if sz = 4 then op32 s else if sz = 8 then op64 s else Abort)"

definition atomic_bool_bysize ::
  "nat \<Rightarrow> ('s \<Rightarrow> (bool, 's) out) \<Rightarrow> ('s \<Rightarrow> (bool, 's) out) \<Rightarrow> ('s \<Rightarrow> (bool, 's) out) \<Rightarrow> ('s \<Rightarrow> (bool, 's) out) \<Rightarrow> 's \<Rightarrow> (bool, 's) out" where
  "atomic_bool_bysize sz op8 op16 op32 op64 s =
     (if sz = 1 then op8 s else if sz = 2 then op16 s else if sz = 4 then op32 s else if sz = 8 then op64 s else Abort)"

lemma bysize_aborts:
  "sz \<notin> {1, 2, 4, 8} \<Longrightarrow> atomic_val_bysize sz a b c d s = Abort"
  "sz \<notin> {1, 2, 4, 8} \<Longrightarrow> atomic_bool_bysize sz a' b' c' d' t = Abort"
  by (simp_all add: atomic_val_bysize_def atomic_bool_bysize_def)

section \<open>Release variants and generic forms\<close>

definition atomic_compare_and_exchange_val_rel where
  "atomic_compare_and_exchange_val_rel E newval oldval = atomic_compare_and_exchange_val_acq E newval oldval"

definition atomic_compare_and_exchange_bool_rel where
  "atomic_compare_and_exchange_bool_rel E newval oldval = atomic_compare_and_exchange_bool_acq E newval oldval"

text \<open>Where these are named, the release forms of the atomic operations are not defined yet.\<close>

definition catomic_compare_and_exchange_val_rel where
  "catomic_compare_and_exchange_val_rel mt E newval oldval = catomic_compare_and_exchange_val_acq mt E newval oldval"

definition catomic_compare_and_exchange_bool_rel where
  "catomic_compare_and_exchange_bool_rel mt E newval oldval = catomic_compare_and_exchange_bool_acq mt E newval oldval"

definition g_atomic_exchange_and_add where
  "g_atomic_exchange_and_add E value = atomic_exchange_and_add_acq E value"

definition g_atomic_add where "g_atomic_add E value s = snd (atomic_exchange_and_add E value s)"
definition g_catomic_add where "g_catomic_add mt E value s = snd (catomic_exchange_and_add mt E value s)"
definition g_atomic_increment where "g_atomic_increment E = g_atomic_add E 1"
definition g_catomic_increment where "g_catomic_increment mt E = g_catomic_add mt E 1"

section \<open>Without the built-ins\<close>

text \<open>\<open>__asm ("" : "=r" (x) : "0" (*mem))\<close> is a read, the plain assignment a write.\<close>

definition g_atomic_load_relaxed where "g_atomic_load_relaxed E s = load_word E s"
definition g_atomic_load_acquire where
  "g_atomic_load_acquire E s = (case g_atomic_load_relaxed E s of (v, s) \<Rightarrow> (v, s))"
definition g_atomic_store_relaxed where "g_atomic_store_relaxed E v s = (touch E s)\<lparr>a_val := v\<rparr>"
definition g_atomic_store_release where "g_atomic_store_release E v s = g_atomic_store_relaxed E v s"

definition g_atomic_compare_exchange_weak_release where
  "g_atomic_compare_exchange_weak_release E expected desired s =
     (case atomic_compare_and_exchange_val_rel E desired expected s of (v, s) \<Rightarrow> (v = expected, v, s))"

definition g_atomic_fetch_add_relaxed where "g_atomic_fetch_add_relaxed E v = g_atomic_fetch_add_acquire E v"
definition g_atomic_fetch_add_acq_rel where "g_atomic_fetch_add_acq_rel E v = atomic_exchange_and_add_acq E v"
definition g_atomic_fetch_or_relaxed where "g_atomic_fetch_or_relaxed n E m = g_atomic_fetch_or_acquire n E m"

section \<open>Agreement\<close>

lemma add_fallbacks:
  "g_atomic_exchange_and_add E v s = atomic_exchange_and_add E v s"
  "g_atomic_add E v s = atomic_add const E v s"
  "g_catomic_add mt E v s = catomic_add mt const E v s"
  "g_atomic_increment E s = atomic_increment E s"
  "g_catomic_increment mt E s = catomic_increment mt E s"
  by (simp_all add: g_atomic_exchange_and_add_def atomic_exchange_and_add_acq_def g_atomic_add_def atomic_exchange_and_add_def
      g_catomic_add_def catomic_exchange_and_add_def arch_exchange_and_add_body_def atomic_add_def catomic_add_def arch_add_body_def
      g_atomic_increment_def g_catomic_increment_def atomic_increment_def catomic_increment_def arch_increment_body_def
      atomic_decrement_def catomic_decrement_def arch_decrement_body_def)

lemma c11_fallbacks:
  "g_atomic_load_acquire E s = atomic_load_relaxed E s"
  "g_atomic_store_release E v s = atomic_store_relaxed E v s"
  "g_atomic_compare_exchange_weak_release E x y s = atomic_compare_exchange_weak False E x y s"
  "g_atomic_fetch_add_relaxed E v s = atomic_fetch_add E v s"
  "g_atomic_fetch_add_acq_rel E v s = atomic_fetch_add E v s"
  by (simp_all add: g_atomic_load_acquire_def g_atomic_load_relaxed_def atomic_load_relaxed_def g_atomic_store_release_def
      g_atomic_store_relaxed_def atomic_store_relaxed_def g_atomic_fetch_add_relaxed_def c11_agree g_atomic_fetch_add_acq_rel_def
      flip: g_atomic_fetch_add_acquire_def)
    (simp add: g_atomic_compare_exchange_weak_release_def atomic_compare_and_exchange_val_rel_def
      flip: g_atomic_compare_exchange_weak_def c11_agree)

text \<open>A loop that returns has set the bits at one moment of its run.\<close>

lemma fetch_or_fallback:
  "g_atomic_fetch_or_relaxed n E m s = Ret v t \<Longrightarrow> \<exists>k. a_val (later E (Suc k) s) = v \<and> t = (later E (Suc k) s)\<lparr>a_val := v OR m\<rparr>"
  using loop_linear [of n E never "\<lambda>v. v OR m" s v t]
  by (simp add: g_atomic_fetch_or_relaxed_def g_atomic_fetch_or_acquire_def atomic_or_val_def)

end
