(* ===== verification/SyncTrack.thy ===== *)
theory SyncTrack
  imports Prelude
begin

unbundle bit_operations_syntax

text \<open>
  The diagnosis tool (\<open>diagnosis_tool/src/sync_track.cpp\<close>, \<open>sync_data.h\<close>): which memory the
  critical sections of interest touch, and which of it is touched by more than one thread. Pin
  calls the analysis routines with a thread number and addresses; Pin itself, the files and the
  command line are outside. An analysis routine is one step, as if Pin ran one at a time: the code takes no lock around
  the map, so threads that are inside \<open>doMemAccess\<close> at once are not modelled. The \<open>map\<close> from addresses to \<open>mem_track_t\<close> is a map, its order being
  used only to add up.
\<close>

section \<open>Data\<close>

record mem_track_t =
  thread_id :: u32
  mem_count :: u32

record SyncData =
  instcount :: u32
  inst_mem_access :: u32
  critical_sections :: u32

record tool =
  active_threads :: i16
  start_profile :: bool
  total_threads :: u32
  recording :: "u32 \<Rightarrow> bool"
  call_site :: "u64 list"
  data :: "u32 \<Rightarrow> SyncData"
  memAccessMap :: "u64 \<Rightarrow> mem_track_t option"

definition new_SyncData :: SyncData where
  "new_SyncData = \<lparr>instcount = 0, inst_mem_access = 0, critical_sections = 0\<rparr>"

section \<open>Analysis routines\<close>

definition ThreadBegin :: "u32 \<Rightarrow> tool \<Rightarrow> (unit, tool) out" where
  "ThreadBegin tid s =
     (let s = s\<lparr>active_threads := active_threads s + 1\<rparr> in
      assrt (tid < total_threads s)
        (Ret () (if \<not> start_profile s \<and> 1 <s active_threads s then s\<lparr>start_profile := True\<rparr> else s)))"

definition ThreadEnd :: "u32 \<Rightarrow> tool \<Rightarrow> tool" where
  "ThreadEnd tid s = s\<lparr>active_threads := active_threads s - 1\<rparr>"

definition ProcessLock :: "u64 \<Rightarrow> u32 \<Rightarrow> tool \<Rightarrow> tool" where
  "ProcessLock ret tid s =
     (if start_profile s \<and> ret \<in> set (call_site s)
      then let s = s\<lparr>data := (data s)(tid := (data s tid)\<lparr>critical_sections := critical_sections (data s tid) + 1\<rparr>)\<rparr>
           in s\<lparr>recording := (recording s)(tid := True)\<rparr>
      else s)"

definition ProcessUnlock :: "u32 \<Rightarrow> tool \<Rightarrow> tool" where
  "ProcessUnlock tid s = (if start_profile s then s\<lparr>recording := (recording s)(tid := False)\<rparr> else s)"

definition doMemAccess :: "u64 \<Rightarrow> u32 \<Rightarrow> tool \<Rightarrow> bool \<times> tool" where
  "doMemAccess addr tid s =
     (case memAccessMap s addr of
        Some e \<Rightarrow>
          let (shared_access, e) =
                (if thread_id e \<noteq> total_threads s
                 then if thread_id e \<noteq> tid then (True, e\<lparr>thread_id := total_threads s\<rparr>) else (False, e)
                 else (True, e));
              e = e\<lparr>mem_count := mem_count e + 1\<rparr>
          in (shared_access, s\<lparr>memAccessMap := (memAccessMap s)(addr \<mapsto> e)\<rparr>)
      | None \<Rightarrow> (False, s\<lparr>memAccessMap := (memAccessMap s)(addr \<mapsto> \<lparr>thread_id = tid, mem_count = 1\<rparr>)\<rparr>))"

text \<open>\<open>\<open>_raddr & !shared_data\<close>\<close> is the bitwise operator on an address and 0 or 1.\<close>

definition addr_and_not :: "u64 \<Rightarrow> bool \<Rightarrow> bool" where
  "addr_and_not a shared \<longleftrightarrow> a AND (if shared then 0 else 1) \<noteq> 0"

definition ProcessInst :: "u32 \<Rightarrow> bool \<Rightarrow> bool \<Rightarrow> u64 \<Rightarrow> u64 \<Rightarrow> u64 \<Rightarrow> tool \<Rightarrow> (unit, tool) out" where
  "ProcessInst tid is_mem_access is_stack_access waddr raddr raddr2 s =
     assrt (tid < total_threads s)
       (if recording s tid then
          let s = s\<lparr>data := (data s)(tid := (data s tid)\<lparr>instcount := instcount (data s tid) + 1\<rparr>)\<rparr>
          in if is_mem_access \<and> \<not> is_stack_access then
               assrt (waddr \<noteq> 0 \<or> raddr \<noteq> 0 \<or> raddr2 \<noteq> 0)
                 (let s = s\<lparr>data := (data s)(tid := (data s tid)\<lparr>inst_mem_access := inst_mem_access (data s tid) + 1\<rparr>)\<rparr>;
                      (shared, s) = (if waddr \<noteq> 0 then doMemAccess waddr tid s else (False, s));
                      (shared, s) = (if addr_and_not raddr shared then doMemAccess raddr tid s else (shared, s));
                      s = (if addr_and_not raddr2 shared then snd (doMemAccess raddr2 tid s) else s)
                  in Ret () s)
             else Ret () s
        else Ret () s)"

text \<open>The sums of \<open>Fini\<close>, over the threads and over the entries of the map in the order \<open>as\<close> of their
  addresses.\<close>

definition fini_threads :: "tool \<Rightarrow> u32 \<times> u32 \<times> u32" where
  "fini_threads s =
     (let ts = map word_of_nat [0..<unat (total_threads s)]
      in (sum_list (map (\<lambda>i. instcount (data s i)) ts), sum_list (map (\<lambda>i. inst_mem_access (data s i)) ts),
          sum_list (map (\<lambda>i. critical_sections (data s i)) ts)))"

fun fini_mem :: "tool \<Rightarrow> u64 list \<Rightarrow> u32 \<times> u32 \<Rightarrow> u32 \<times> u32" where
  "fini_mem s [] acc = acc"
| "fini_mem s (a # as) (mem_access_count, shared_access_count) =
     (case memAccessMap s a of
        None \<Rightarrow> fini_mem s as (mem_access_count, shared_access_count)
      | Some e \<Rightarrow> fini_mem s as (mem_access_count + mem_count e,
          if thread_id e = total_threads s then shared_access_count + mem_count e else shared_access_count))"

section \<open>What the map knows\<close>

text \<open>The accesses made so far, as pairs of an address and a thread, and what they say of one address.\<close>

definition touches :: "u64 \<Rightarrow> (u64 \<times> u32) list \<Rightarrow> u32 list" where
  "touches a tr = map snd (filter (\<lambda>x. fst x = a) tr)"

definition tracked :: "u32 \<Rightarrow> u32 list \<Rightarrow> mem_track_t option" where
  "tracked tot ts =
     (case ts of [] \<Rightarrow> None
      | t # _ \<Rightarrow> Some \<lparr>thread_id = if \<forall>u \<in> set ts. u = t then t else tot, mem_count = word_of_nat (length ts)\<rparr>)"

fun accesses :: "(u64 \<times> u32) list \<Rightarrow> tool \<Rightarrow> tool" where
  "accesses [] s = s"
| "accesses ((a, t) # tr) s = accesses tr (snd (doMemAccess a t s))"


lemma touches_simps [simp]:
  "touches a [] = []"
  "touches a (x # tr) = (if fst x = a then snd x # touches a tr else touches a tr)"
  "touches a (tr @ tr') = touches a tr @ touches a tr'"
  by (simp_all add: touches_def)

lemma doMemAccess_tracked:
  assumes "memAccessMap s a = tracked (total_threads s) ts" and "total_threads s \<notin> set ts"
    and "t \<noteq> total_threads s" and "doMemAccess a t s = (b, s')"
  shows "memAccessMap s' = (memAccessMap s)(a := tracked (total_threads s) (ts @ [t]))"
    and "b \<longleftrightarrow> (\<exists>u \<in> set ts. u \<noteq> t)" and "total_threads s' = total_threads s"
proof -
  have "memAccessMap s' = (memAccessMap s)(a := tracked (total_threads s) (ts @ [t])) \<and>
      (b \<longleftrightarrow> (\<exists>u \<in> set ts. u \<noteq> t)) \<and> total_threads s' = total_threads s"
    using assms
    by (cases ts) (auto simp: doMemAccess_def tracked_def Let_def split: if_splits)
  then show "memAccessMap s' = (memAccessMap s)(a := tracked (total_threads s) (ts @ [t]))"
    "b \<longleftrightarrow> (\<exists>u \<in> set ts. u \<noteq> t)" "total_threads s' = total_threads s" by blast+
qed

definition sees :: "(u64 \<times> u32) list \<Rightarrow> tool \<Rightarrow> bool" where
  "sees tr s \<longleftrightarrow> (\<forall>a. memAccessMap s a = tracked (total_threads s) (touches a tr)) \<and>
     total_threads s \<notin> snd ` set tr"

lemma touches_set: "set (touches a tr) \<subseteq> snd ` set tr"
  by (auto simp: touches_def)

lemma sees_step:
  assumes "sees tr s" and "t \<noteq> total_threads s" and "doMemAccess a t s = (b, s')"
  shows "sees (tr @ [(a, t)]) s' \<and> (b \<longleftrightarrow> (\<exists>u. (a, u) \<in> set tr \<and> u \<noteq> t)) \<and> total_threads s' = total_threads s"
proof -
  have ts: "memAccessMap s a = tracked (total_threads s) (touches a tr)" "total_threads s \<notin> set (touches a tr)"
    using assms(1) touches_set [of a tr] by (auto simp: sees_def)
  note d = doMemAccess_tracked [OF ts assms(2,3)]
  have "set (touches a tr) = {u. (a, u) \<in> set tr}" by (force simp: touches_def)
  with d assms(1,2) show ?thesis by (auto simp: sees_def)
qed

lemma sees_accesses:
  "sees tr s \<Longrightarrow> total_threads s \<notin> snd ` set tr' \<Longrightarrow>
     sees (tr @ tr') (accesses tr' s) \<and> total_threads (accesses tr' s) = total_threads s"
proof (induction tr' arbitrary: tr s)
  case Nil
  then show ?case by simp
next
  case (Cons x tr')
  obtain a t where x: "x = (a, t)" by (cases x)
  obtain b s' where d: "doMemAccess a t s = (b, s')" by fastforce
  from sees_step [OF Cons.prems(1) _ d] Cons.prems(2) x
  have s': "sees (tr @ [(a, t)]) s'" "total_threads s' = total_threads s" by auto
  from Cons.IH [OF s'(1)] s'(2) Cons.prems(2) x d show ?case by simp
qed

text \<open>
  C36 (the map implements the trace of accesses). Start with an empty map and let any threads of
  the tool make any accesses in any order. Then the map has an entry for exactly the addresses
  that were accessed; the entry counts all accesses of the address (modulo 2^32) and names the one
  thread that made them or, if there were several, the number \<open>total_threads\<close> that stands for
  shared; and the next access reports shared data exactly if another thread was there before.
\<close>

theorem mem_map_refines:
  assumes "memAccessMap s = Map.empty" and "\<forall>x \<in> set tr. snd x < total_threads s" and "t < total_threads s"
  shows "(\<forall>a. memAccessMap (accesses tr s) a = tracked (total_threads s) (touches a tr)) \<and>
    (fst (doMemAccess a t (accesses tr s)) \<longleftrightarrow> (\<exists>u. (a, u) \<in> set tr \<and> u \<noteq> t))"
proof -
  have "sees [] s" using assms(1) by (simp add: sees_def tracked_def)
  moreover have "total_threads s \<notin> snd ` set tr" using assms(2) by auto
  ultimately have s: "sees tr (accesses tr s)" "total_threads (accesses tr s) = total_threads s"
    using sees_accesses [of "[]" s tr] by simp_all
  obtain b s' where "doMemAccess a t (accesses tr s) = (b, s')" by fastforce
  with sees_step [OF s(1) _ this] s assms(3) show ?thesis by (auto simp: sees_def)
qed

definition demo_tool :: tool where
  "demo_tool = \<lparr>active_threads = 2, start_profile = True, total_threads = 4, recording = (\<lambda>_. True), call_site = [99],
     data = (\<lambda>_. new_SyncData), memAccessMap = Map.empty\<rparr>"

theorem mem_map_refines_witness:
  "memAccessMap (accesses [(8, 1), (16, 1), (8, 2), (8, 1)] demo_tool) 8 = Some \<lparr>thread_id = 4, mem_count = 3\<rparr> \<and>
   fst (doMemAccess 16 2 (accesses [(8, 1), (16, 1), (8, 2), (8, 1)] demo_tool))"
proof -
  have m: "memAccessMap demo_tool = Map.empty" "total_threads demo_tool = 4" by (simp_all add: demo_tool_def)
  from mem_map_refines [OF m(1), of "[(8, 1), (16, 1), (8, 2), (8, 1)]" 2 16]
  show ?thesis by (simp add: m(2) tracked_def)
qed

section \<open>The totals\<close>

lemma fini_mem_sum:
  "fini_mem s as (x, y) =
     (x + (\<Sum>a\<leftarrow>as. case memAccessMap s a of None \<Rightarrow> 0 | Some e \<Rightarrow> mem_count e),
      y + (\<Sum>a\<leftarrow>as. case memAccessMap s a of None \<Rightarrow> 0
        | Some e \<Rightarrow> if thread_id e = total_threads s then mem_count e else 0))"
  by (induction as arbitrary: x y) (auto split: option.split)

lemma sum_by_address:
  assumes "finite A" and "fst ` set tr \<subseteq> A"
  shows "(\<Sum>a\<in>A. if P a then length (touches a tr) else 0) = length (filter (\<lambda>x. P (fst x)) tr)"
  using assms(2)
proof (induction tr)
  case Nil
  then show ?case by simp
next
  case (Cons x tr)
  have "(\<Sum>a\<in>A. if P a then length (touches a (x # tr)) else 0) =
      (\<Sum>a\<in>A. (if P a then length (touches a tr) else 0) + (if fst x = a then (if P a then 1 else 0) else 0))"
    by (rule sum.cong) auto
  also have "\<dots> = length (filter (\<lambda>x. P (fst x)) tr) + (if P (fst x) then 1 else 0)"
    using Cons assms(1) by (simp add: sum.distrib)
  finally show ?case by simp
qed

text \<open>An address that at least two threads have touched.\<close>

definition shared_by :: "(u64 \<times> u32) list \<Rightarrow> u64 \<Rightarrow> bool" where
  "shared_by tr a \<longleftrightarrow> (\<exists>t u. (a, t) \<in> set tr \<and> (a, u) \<in> set tr \<and> t \<noteq> u)"

lemma tracked_shared:
  assumes "tot \<notin> set ts" and "tracked tot ts = Some e"
  shows "mem_count e = word_of_nat (length ts)" "thread_id e = tot \<longleftrightarrow> (\<exists>t\<in>set ts. \<exists>u\<in>set ts. t \<noteq> u)"
  using assms by (auto simp: tracked_def split: list.splits if_splits)

text \<open>
  The totals of the report. After any accesses, adding up the entries of the map in the order
  of any list of its addresses gives the number of all accesses, and the number of the accesses to
  those addresses that at least two threads have touched (both modulo 2^32): an access made before
  the address was shared counts as shared too.
\<close>

lemma sees_totals:
  assumes "sees tr s" and "distinct as" and "set as = dom (memAccessMap s)"
  shows "fini_mem s as (0, 0) =
    (word_of_nat (length tr), word_of_nat (length (filter (\<lambda>x. shared_by tr (fst x)) tr)))"
proof -
  have tot: "total_threads s \<notin> snd ` set tr" using assms(1) by (simp add: sees_def)
  let ?m = "memAccessMap s"
  have m: "?m a = tracked (total_threads s) (touches a tr)" for a using assms(1) by (simp add: sees_def)
  have nt: "total_threads s \<notin> set (touches a tr)" for a using tot touches_set [of a tr] by blast
  have sh: "shared_by tr a \<longleftrightarrow> (\<exists>t\<in>set (touches a tr). \<exists>u\<in>set (touches a tr). t \<noteq> u)" for a
    by (force simp: shared_by_def touches_def)
  have none: "touches a tr = []" if "?m a = None" for a
    using that m [of a] by (simp add: tracked_def split: list.splits)
  have sub: "fst ` set tr \<subseteq> set as"
  proof
    fix a assume "a \<in> fst ` set tr"
    then have "touches a tr \<noteq> []" by (auto simp: touches_def filter_empty_conv)
    with none [of a] show "a \<in> set as" using assms(3) by auto
  qed
  have e1: "(case ?m a of None \<Rightarrow> 0 | Some e \<Rightarrow> mem_count e) = word_of_nat (length (touches a tr))" for a
    using none [of a] tracked_shared(1) [OF nt, of a] m [of a] by (auto split: option.split)
  have e2: "(case ?m a of None \<Rightarrow> 0 | Some e \<Rightarrow> if thread_id e = total_threads s then mem_count e else 0) =
      word_of_nat (if shared_by tr a then length (touches a tr) else 0)" for a
    using none [of a] tracked_shared [OF nt, of a] m [of a] sh [of a] by (auto split: option.split)
  have "(\<Sum>a\<leftarrow>as. word_of_nat (length (touches a tr)) :: u32) = word_of_nat (length tr)"
    using sum_by_address [OF _ sub, of "\<lambda>_. True"] assms(2)
    by (simp add: sum_list_distinct_conv_sum_set flip: of_nat_sum)
  moreover have "(\<Sum>a\<leftarrow>as. word_of_nat (if shared_by tr a then length (touches a tr) else 0) :: u32) =
      word_of_nat (length (filter (\<lambda>x. shared_by tr (fst x)) tr))"
    using sum_by_address [OF _ sub, of "shared_by tr"] assms(2)
    by (simp add: sum_list_distinct_conv_sum_set flip: of_nat_sum)
  ultimately show ?thesis by (simp only: fini_mem_sum e1 e2 add_0)
qed

section \<open>Reads of even addresses\<close>

text \<open>
  Reads of even addresses are not tracked. The tests \<open>_raddr & !shared_data\<close> take the
  bitwise conjunction of an address with 0 or 1, so an instruction that only reads, from even
  addresses, is counted as an instruction with a memory access but leaves the map of accesses as
  it was, whoever runs it: data that two threads read and write at even addresses is tracked for
  the writes only.
\<close>

lemma even_reads_lost:
  assumes "raddr AND 1 = 0" and "raddr2 AND 1 = 0" and "ProcessInst tid True False 0 raddr raddr2 s = Ret () t"
  shows "memAccessMap t = memAccessMap s \<and>
    (recording s tid \<longrightarrow> inst_mem_access (data t tid) = inst_mem_access (data s tid) + 1)"
  using assms
  by (auto simp: ProcessInst_def assrt_eq_Ret addr_and_not_def Let_def split: if_splits)

lemma even_reads_lost_witness:
  "\<exists>t. ProcessInst 1 True False 0 4096 0 demo_tool = Ret () t \<and> memAccessMap t = Map.empty"
proof -
  obtain t where "ProcessInst 1 True False 0 4096 0 demo_tool = Ret () t"
    by (simp add: ProcessInst_def demo_tool_def addr_and_not_def Let_def)
  with even_reads_lost [OF _ _ this] show ?thesis by (simp add: demo_tool_def)
qed

section \<open>What is recorded\<close>

text \<open>Nothing is recorded before profiling is on, and then from a lock whose return address is one of
  the call sites to the next unlock of the same thread.\<close>

lemma recording_window:
  "(\<not> start_profile s \<longrightarrow> ProcessLock ret tid s = s \<and> ProcessUnlock tid s = s) \<and>
   (ret \<notin> set (call_site s) \<longrightarrow> ProcessLock ret tid s = s) \<and>
   (start_profile s \<and> ret \<in> set (call_site s) \<longrightarrow>
      recording (ProcessLock ret tid s) = (recording s)(tid := True) \<and>
      recording (ProcessUnlock tid (ProcessLock ret tid s)) = (recording s)(tid := False)) \<and>
   (\<forall>u. \<not> recording s u \<longrightarrow> (\<forall>t. ProcessInst u m st w r1 r2 s = Ret () t \<longrightarrow> t = s))"
  by (auto simp: ProcessLock_def ProcessUnlock_def ProcessInst_def assrt_eq_Ret Let_def)

section \<open>Instrumentation\<close>

text \<open>What \<open>Image\<close> asks Pin about an instruction, and the addresses Pin passes for its operands.\<close>

record ins =
  is_write :: bool
  is_read :: bool
  has_read2 :: bool
  stack_read :: bool
  stack_write :: bool
  fall_through :: bool
  write_ea :: u64
  read_ea :: u64
  read2_ea :: u64

text \<open>The call of \<open>ProcessInst\<close> that is inserted before it, if any: its arguments after the thread.\<close>

definition instrument :: "ins \<Rightarrow> (bool \<times> bool \<times> u64 \<times> u64 \<times> u64) option" where
  "instrument i =
     (if (is_write i \<or> is_read i) \<and> fall_through i then
        let isStackAccess = (if stack_read i \<or> stack_write i then True else False) in
        if is_write i \<and> is_read i \<and> has_read2 i
        then Some (True, isStackAccess, write_ea i, read_ea i, read2_ea i)
        else if is_write i \<and> is_read i \<and> \<not> has_read2 i
        then Some (True, isStackAccess, write_ea i, read_ea i, 0)
        else if is_write i \<and> \<not> is_read i then Some (True, isStackAccess, write_ea i, 0, 0)
        else if \<not> is_write i \<and> is_read i \<and> has_read2 i
        then Some (True, isStackAccess, 0, read_ea i, read2_ea i)
        else if \<not> is_write i \<and> is_read i \<and> \<not> has_read2 i then Some (True, isStackAccess, 0, read_ea i, 0)
        else Some (False, False, 0, 0, 0)
      else None)"

definition run_ins :: "u32 \<Rightarrow> ins \<Rightarrow> tool \<Rightarrow> (unit, tool) out" where
  "run_ins tid i s =
     (case instrument i of None \<Rightarrow> Ret () s
      | Some (is_mem_access, is_stack_access, w, r, r2) \<Rightarrow> ProcessInst tid is_mem_access is_stack_access w r r2 s)"

text \<open>The tool before the program starts.\<close>

definition new_tool :: "u32 \<Rightarrow> u64 list \<Rightarrow> tool" where
  "new_tool threads sites = \<lparr>active_threads = 1, start_profile = False, total_threads = threads,
     recording = (\<lambda>_. False), call_site = sites, data = (\<lambda>_. new_SyncData), memAccessMap = Map.empty\<rparr>"

definition ea_if :: "bool \<Rightarrow> u64 \<Rightarrow> u64" where
  "ea_if b a = (if b then a else 0)"

text \<open>
  Instrumentation. The case distinction of \<open>Image\<close> comes to this: an instruction that reads or
  writes memory and falls through gets a call with the address of each operand it has and 0 for the others, always
  flagged as a memory access; any other instruction gets none and is not counted. The last branch, for an
  instruction with no memory operand, is never taken, so the figure the report calls the number of all
  instructions is that of the instrumented memory instructions.
\<close>

lemma instrumented:
  "run_ins tid i s =
     (if (is_write i \<or> is_read i) \<and> fall_through i
      then ProcessInst tid True (stack_read i \<or> stack_write i) (ea_if (is_write i) (write_ea i))
             (ea_if (is_read i) (read_ea i)) (ea_if (is_read i \<and> has_read2 i) (read2_ea i)) s
      else Ret () s)"
  by (auto simp: run_ins_def instrument_def ea_if_def)

text \<open>Its assertions hold whenever Pin passes non-zero addresses.\<close>

lemma run_ins_returns:
  assumes "tid < total_threads s" and "is_write i \<Longrightarrow> write_ea i \<noteq> 0" and "is_read i \<Longrightarrow> read_ea i \<noteq> 0"
  shows "\<exists>t. run_ins tid i s = Ret () t"
  using assms by (auto simp: run_ins_def instrument_def ProcessInst_def Let_def split: prod.splits)

end
