(* ===== verification/ToolRun.thy ===== *)
theory ToolRun
  imports SyncTrack
begin

text \<open>
  A whole run of the diagnosis tool (\<open>diagnosis_tool/src/sync_track.cpp\<close>): what \<open>Image\<close> inserts into a loaded image, the call
  sites that \<open>ReadInput\<close> reads, the events of a program in the order in which Pin reports them, and what \<open>Fini\<close>
  writes. Shown: the figures are those of the events and of the accesses they make, the critical sections being from the return of a
  lock call at one of the call sites to the next unlock of the thread, once a second thread has been running.
\<close>

section \<open>Instrumenting an image\<close>

text \<open>What \<open>Image\<close> finds of an image: the two routines by name, and sections of routines of instructions.\<close>

record img_ins =
  is_original :: bool
  the_ins :: ins

record img =
  lock_rtn :: bool
  unlock_rtn :: bool
  secs :: "img_ins list list list"

datatype inserted = AfterLock | BeforeUnlock | BeforeIns ins

definition Image :: "img \<Rightarrow> inserted list" where
  "Image img =
     (if lock_rtn img then [AfterLock] else []) @ (if unlock_rtn img then [BeforeUnlock] else []) @
     concat (map (\<lambda>sec. concat (map (\<lambda>rtn. concat (map (\<lambda>i.
        if \<not> is_original i then [] else if instrument (the_ins i) \<noteq> None then [BeforeIns (the_ins i)] else []) rtn)) sec)) (secs img))"

text \<open>A call goes before exactly the original memory instructions that fall through.\<close>

lemma Image_instrumented:
  "BeforeIns i \<in> set (Image img) \<longleftrightarrow>
     (\<exists>sec \<in> set (secs img). \<exists>rtn \<in> set sec. \<exists>x \<in> set rtn.
        is_original x \<and> the_ins x = i \<and> (is_write i \<or> is_read i) \<and> fall_through i)"
proof -
  have "instrument i \<noteq> None \<longleftrightarrow> (is_write i \<or> is_read i) \<and> fall_through i" for i by (auto simp: instrument_def)
  then show ?thesis by (fastforce simp: Image_def split: if_splits)
qed

section \<open>Reading the call sites\<close>

text \<open>\<open>ss >> hex >> ret_address\<close>: white space, a sign, \<open>0x\<close> and hexadecimal digits; 0 if there is no digit, and the nearest
  \<open>long\<close> if the number is none.\<close>

definition hex_digit :: "char \<Rightarrow> nat option" where
  "hex_digit c =
     (let k = of_char c :: nat in
      if 48 \<le> k \<and> k \<le> 57 then Some (k - 48)
      else if 97 \<le> k \<and> k \<le> 102 then Some (k - 87)
      else if 65 \<le> k \<and> k \<le> 70 then Some (k - 55) else None)"

fun hex_digits :: "string \<Rightarrow> nat \<Rightarrow> nat" where
  "hex_digits [] v = v"
| "hex_digits (c # cs) v = (case hex_digit c of None \<Rightarrow> v | Some d \<Rightarrow> hex_digits cs (16 * v + d))"

definition is_space :: "char \<Rightarrow> bool" where
  "is_space c \<longleftrightarrow> (let k = of_char c :: nat in k = 32 \<or> 9 \<le> k \<and> k \<le> 13)"

definition strip_0x :: "string \<Rightarrow> string" where
  "strip_0x cs = (case cs of a # b # r \<Rightarrow> if a = CHR ''0'' \<and> (b = CHR ''x'' \<or> b = CHR ''X'') then r else cs | _ \<Rightarrow> cs)"

definition read_hex_long :: "string \<Rightarrow> i64" where
  "read_hex_long cs =
     (let cs = dropWhile is_space cs;
          neg = (cs \<noteq> [] \<and> hd cs = CHR ''-'');
          cs = (if cs \<noteq> [] \<and> hd cs \<in> {CHR ''-'', CHR ''+''} then tl cs else cs);
          v = int (hex_digits (strip_0x cs) 0)
      in word_of_int (if neg then max (- (2 ^ 63)) (- v) else min (2 ^ 63 - 1) v))"

definition ReadInput :: "string list \<Rightarrow> tool \<Rightarrow> tool" where
  "ReadInput lines s = s\<lparr>call_site := call_site s @ map read_hex_long lines\<rparr>"

definition tool_main :: "u32 \<Rightarrow> string list \<Rightarrow> tool" where
  "tool_main threads lines = ReadInput lines (new_tool threads [])"

section \<open>Running\<close>

datatype tev = Started u32 | Ended u32 | LockReturned u64 u32 | UnlockCalled u32 | Executed ins u32

fun tool_step :: "tev \<Rightarrow> tool \<Rightarrow> (unit, tool) out" where
  "tool_step (Started t) s = ThreadBegin t s"
| "tool_step (Ended t) s = Ret () (ThreadEnd t s)"
| "tool_step (LockReturned r t) s = Ret () (ProcessLock r t s)"
| "tool_step (UnlockCalled t) s = Ret () (ProcessUnlock t s)"
| "tool_step (Executed i t) s = run_ins t i s"

fun tool_run :: "tev list \<Rightarrow> tool \<Rightarrow> (unit, tool) out" where
  "tool_run [] s = Ret () s"
| "tool_run (e # es) s = bnd (tool_step e s) (\<lambda>_ s. tool_run es s)"

text \<open>What \<open>Fini\<close> writes to the file, \<open>as\<close> being the addresses of the map in order. It increments the
  number of critical sections of each thread after it has read it.\<close>

definition Fini :: "u64 list \<Rightarrow> tool \<Rightarrow> (string \<times> u32) list \<times> tool" where
  "Fini as s =
     (case fini_threads s of (inst, mem, cs) \<Rightarrow>
      case fini_mem s as (0, 0) of (mem_access_count, shared_access_count) \<Rightarrow>
        ([(''Total instruction: '', inst), (''Total memory access inst: '', mem), (''No of critical sections: '', cs),
          (''Total mem acces: '', mem_access_count), (''Total shared acess: '', shared_access_count)],
         s\<lparr>data := (\<lambda>t. if t < total_threads s
             then (data s t)\<lparr>critical_sections := critical_sections (data s t) + 1\<rparr> else data s t)\<rparr>))"

section \<open>What the events say\<close>

fun running :: "tev list \<Rightarrow> int" where
  "running [] = 1"
| "running (Started t # es) = running es + 1"
| "running (Ended t # es) = running es - 1"
| "running (e # es) = running es"

text \<open>A thread started while another was counted as running.\<close>

definition profiling :: "tev list \<Rightarrow> bool" where
  "profiling es \<longleftrightarrow> (\<exists>pre t post. es = pre @ Started t # post \<and> 0 < running pre)"

definition recorded :: "u64 list \<Rightarrow> tev list \<Rightarrow> u32 \<Rightarrow> bool" where
  "recorded sites es t \<longleftrightarrow>
     (\<exists>pre r post. es = pre @ LockReturned r t # post \<and> profiling pre \<and> r \<in> set sites \<and> UnlockCalled t \<notin> set post)"

text \<open>How often \<open>P\<close> holds of the events before an event and of the event.\<close>

definition occ :: "(tev list \<Rightarrow> tev \<Rightarrow> bool) \<Rightarrow> tev list \<Rightarrow> nat" where
  "occ P es = length (filter (\<lambda>k. P (take k es) (es ! k)) [0..<length es])"

definition counted_inst :: "u64 list \<Rightarrow> u32 set \<Rightarrow> tev list \<Rightarrow> tev \<Rightarrow> bool" where
  "counted_inst sites T pre e \<longleftrightarrow>
     (\<exists>i t. e = Executed i t \<and> t \<in> T \<and> recorded sites pre t \<and> (is_write i \<or> is_read i) \<and> fall_through i)"

definition counted_mem :: "u64 list \<Rightarrow> u32 set \<Rightarrow> tev list \<Rightarrow> tev \<Rightarrow> bool" where
  "counted_mem sites T pre e \<longleftrightarrow> (\<exists>i t. e = Executed i t \<and> t \<in> T \<and> recorded sites pre t \<and> (is_write i \<or> is_read i) \<and>
     fall_through i \<and> \<not> stack_read i \<and> \<not> stack_write i)"

definition counted_cs :: "u64 list \<Rightarrow> u32 set \<Rightarrow> tev list \<Rightarrow> tev \<Rightarrow> bool" where
  "counted_cs sites T pre e \<longleftrightarrow> (\<exists>r t. e = LockReturned r t \<and> t \<in> T \<and> profiling pre \<and> r \<in> set sites)"

lemma occ_Nil [simp]: "occ P [] = 0"
  by (simp add: occ_def)

lemma occ_snoc [simp]: "occ P (es @ [e]) = occ P es + (if P es e then 1 else 0)"
proof -
  have "filter (\<lambda>k. P (take k (es @ [e])) ((es @ [e]) ! k)) [0..<length es] = filter (\<lambda>k. P (take k es) (es ! k)) [0..<length es]"
    by (rule filter_cong) (auto simp: nth_append)
  then show ?thesis by (simp add: occ_def)
qed

lemma running_snoc: "running (es @ [e]) = running es + (case e of Started t \<Rightarrow> 1 | Ended t \<Rightarrow> - 1 | _ \<Rightarrow> 0)"
  by (induction es rule: running.induct) (auto split: tev.split)

lemma profiling_snoc:
  "profiling (es @ [e]) \<longleftrightarrow> profiling es \<or> (\<exists>t. e = Started t \<and> 0 < running es)"
proof
  assume "profiling (es @ [e])"
  then obtain pre t post where x: "es @ [e] = pre @ Started t # post" "0 < running pre" unfolding profiling_def by blast
  show "profiling es \<or> (\<exists>t. e = Started t \<and> 0 < running es)"
  proof (cases post rule: rev_cases)
    case (snoc ys y)
    then have "es = pre @ Started t # ys" using x(1) by simp
    then show ?thesis using x(2) unfolding profiling_def by blast
  qed (use x in auto)
next
  assume "profiling es \<or> (\<exists>t. e = Started t \<and> 0 < running es)"
  then show "profiling (es @ [e])" unfolding profiling_def by (metis append_Cons append_assoc)
qed

lemma profiling_append: "profiling pre \<Longrightarrow> profiling (pre @ post)"
  unfolding profiling_def by (metis append_Cons append_assoc)

lemma recorded_profiling: "recorded sites es t \<Longrightarrow> profiling es"
  unfolding recorded_def using profiling_append by blast

lemma recorded_snoc:
  "recorded sites (es @ [e]) t \<longleftrightarrow> (\<exists>r. e = LockReturned r t \<and> profiling es \<and> r \<in> set sites) \<or>
     recorded sites es t \<and> e \<noteq> UnlockCalled t"
proof
  assume "recorded sites (es @ [e]) t"
  then obtain pre r post where x: "es @ [e] = pre @ LockReturned r t # post" "profiling pre" "r \<in> set sites"
    "UnlockCalled t \<notin> set post" unfolding recorded_def by blast
  show "(\<exists>r. e = LockReturned r t \<and> profiling es \<and> r \<in> set sites) \<or> recorded sites es t \<and> e \<noteq> UnlockCalled t"
  proof (cases post rule: rev_cases)
    case (snoc ys y)
    then have "es = pre @ LockReturned r t # ys" "e = y" using x(1) by simp_all
    then show ?thesis using x snoc unfolding recorded_def by auto
  qed (use x in auto)
next
  assume "(\<exists>r. e = LockReturned r t \<and> profiling es \<and> r \<in> set sites) \<or> recorded sites es t \<and> e \<noteq> UnlockCalled t"
  then show "recorded sites (es @ [e]) t"
  proof
    assume "recorded sites es t \<and> e \<noteq> UnlockCalled t"
    then obtain pre r post where "es = pre @ LockReturned r t # post" "profiling pre" "r \<in> set sites"
      "UnlockCalled t \<notin> set (post @ [e])" unfolding recorded_def by auto
    then show ?thesis unfolding recorded_def by (metis append_Cons append_assoc)
  next
    assume "\<exists>r. e = LockReturned r t \<and> profiling es \<and> r \<in> set sites"
    then obtain r where "es @ [e] = es @ LockReturned r t # []" "profiling es" "r \<in> set sites" by blast
    then show ?thesis unfolding recorded_def by fastforce
  qed
qed

section \<open>The state follows the events\<close>

lemma tool_run_snoc: "tool_run (es @ [e]) s = bnd (tool_run es s) (\<lambda>_. tool_step e)"
proof (induction es arbitrary: s)
  case Nil
  then show ?case by (cases "tool_step e s") simp_all
next
  case (Cons x es)
  then show ?case by (cases "tool_step x s") simp_all
qed

fun tid_of :: "tev \<Rightarrow> u32" where
  "tid_of (Started t) = t" | "tid_of (Ended t) = t" | "tid_of (LockReturned r t) = t" | "tid_of (UnlockCalled t) = t"
| "tid_of (Executed i t) = t"

definition follows :: "u32 \<Rightarrow> u64 list \<Rightarrow> tev list \<Rightarrow> tool \<Rightarrow> bool" where
  "follows n sites es s \<longleftrightarrow> active_threads s = word_of_int (running es) \<and> start_profile s = profiling es \<and>
     total_threads s = n \<and> (\<forall>t. recording s t = recorded sites es t) \<and> call_site s = sites \<and>
     (\<forall>t. instcount (data s t) = word_of_nat (occ (counted_inst sites {t}) es) \<and>
        inst_mem_access (data s t) = word_of_nat (occ (counted_mem sites {t}) es) \<and>
        critical_sections (data s t) = word_of_nat (occ (counted_cs sites {t}) es))"

lemma follows_new: "follows n sites [] (new_tool n sites)"
  by (simp add: follows_def new_tool_def profiling_def recorded_def new_SyncData_def)

lemma signed_running:
  fixes k :: int
  assumes "- (2 ^ 15) \<le> k" and "k + 1 < 2 ^ 15"
  shows "1 <s (word_of_int k + 1 :: i16) \<longleftrightarrow> 0 < k"
proof -
  have e: "word_of_int k + 1 = (word_of_int (k + 1) :: i16)" by simp
  have t: "signed_take_bit (LENGTH(16) - Suc 0) (k + 1) = k + 1"
    by (rule signed_take_bit_int_eq_self) (use assms in simp_all)
  have "sint (word_of_int (k + 1) :: i16) = k + 1" unfolding signed_of_int t by simp
  then show ?thesis unfolding e word_sless_alt by simp
qed

lemma doMemAccess_frame:
  "doMemAccess a t s = (b, s') \<Longrightarrow> \<exists>m. s' = s\<lparr>memAccessMap := m\<rparr>"
  by (auto simp: doMemAccess_def Let_def split: option.splits if_splits)

lemma doMemAccess_keeps [simp]:
  "active_threads (snd (doMemAccess a t s)) = active_threads s" "start_profile (snd (doMemAccess a t s)) = start_profile s"
  "total_threads (snd (doMemAccess a t s)) = total_threads s" "recording (snd (doMemAccess a t s)) = recording s"
  "call_site (snd (doMemAccess a t s)) = call_site s" "data (snd (doMemAccess a t s)) = data s"
  using doMemAccess_frame [of a t s] by (cases "doMemAccess a t s"; auto)+

lemma ProcessInst_effect:
  assumes "ProcessInst tid True st w r r2 s = Ret () s'"
  shows "active_threads s' = active_threads s" "start_profile s' = start_profile s" "total_threads s' = total_threads s"
    "recording s' = recording s" "call_site s' = call_site s"
    "data s' = (if recording s tid then (data s)(tid := (data s tid)\<lparr>instcount := instcount (data s tid) + 1,
       inst_mem_access := inst_mem_access (data s tid) + (if st then 0 else 1)\<rparr>) else data s)"
proof -
  have "active_threads s' = active_threads s \<and> start_profile s' = start_profile s \<and> total_threads s' = total_threads s \<and>
    recording s' = recording s \<and> call_site s' = call_site s \<and>
    data s' = (if recording s tid then (data s)(tid := (data s tid)\<lparr>instcount := instcount (data s tid) + 1,
       inst_mem_access := inst_mem_access (data s tid) + (if st then 0 else 1)\<rparr>) else data s)"
    using assms
    by (auto simp: ProcessInst_def assrt_eq_Ret Let_def split: if_splits prod.splits dest!: doMemAccess_frame)
  then show "active_threads s' = active_threads s" "start_profile s' = start_profile s" "total_threads s' = total_threads s"
    "recording s' = recording s" "call_site s' = call_site s"
    "data s' = (if recording s tid then (data s)(tid := (data s tid)\<lparr>instcount := instcount (data s tid) + 1,
       inst_mem_access := inst_mem_access (data s tid) + (if st then 0 else 1)\<rparr>) else data s)" by blast+
qed

lemma counted_snoc [simp]:
  "counted_inst sites T es (Executed i t) \<longleftrightarrow> t \<in> T \<and> recorded sites es t \<and> (is_write i \<or> is_read i) \<and> fall_through i"
  "counted_mem sites T es (Executed i t) \<longleftrightarrow> t \<in> T \<and> recorded sites es t \<and> (is_write i \<or> is_read i) \<and> fall_through i \<and>
     \<not> stack_read i \<and> \<not> stack_write i"
  "counted_cs sites T es (LockReturned r t) \<longleftrightarrow> t \<in> T \<and> profiling es \<and> r \<in> set sites"
  "\<not> counted_inst sites T es (Started t)" "\<not> counted_inst sites T es (Ended t)" "\<not> counted_inst sites T es (LockReturned r t)"
  "\<not> counted_inst sites T es (UnlockCalled t)"
  "\<not> counted_mem sites T es (Started t)" "\<not> counted_mem sites T es (Ended t)" "\<not> counted_mem sites T es (LockReturned r t)"
  "\<not> counted_mem sites T es (UnlockCalled t)"
  "\<not> counted_cs sites T es (Started t)" "\<not> counted_cs sites T es (Ended t)" "\<not> counted_cs sites T es (Executed i t)"
  "\<not> counted_cs sites T es (UnlockCalled t)"
  by (auto simp: counted_inst_def counted_mem_def counted_cs_def)

lemma follows_step:
  assumes f: "follows n sites es s" and st: "tool_step e s = Ret () s'"
    and b: "- (2 ^ 15) \<le> running es" "running es + 1 < 2 ^ 15"
  shows "follows n sites (es @ [e]) s'"
proof (cases e)
  case (Started t)
  then show ?thesis
    using f st signed_running [OF b]
    by (auto simp: follows_def ThreadBegin_def assrt_eq_Ret Let_def running_snoc profiling_snoc recorded_snoc split: if_splits)
next
  case (Ended t)
  then show ?thesis
    using f st by (auto simp: follows_def ThreadEnd_def running_snoc profiling_snoc recorded_snoc)
next
  case (LockReturned r t)
  then show ?thesis
    using f st
    by (cases "profiling es \<and> r \<in> set sites")
      (auto simp: follows_def ProcessLock_def Let_def running_snoc profiling_snoc recorded_snoc add.commute
          split: if_splits)
next
  case (UnlockCalled t)
  have "\<not> recorded sites es u" if "\<not> profiling es" for u
    using that recorded_profiling by blast
  then show ?thesis
    using f st UnlockCalled
    by (auto simp: follows_def ProcessUnlock_def running_snoc profiling_snoc recorded_snoc split: if_splits)
next
  case (Executed i t)
  show ?thesis
  proof (cases "(is_write i \<or> is_read i) \<and> fall_through i")
    case True
    then have p: "ProcessInst t True (stack_read i \<or> stack_write i) (ea_if (is_write i) (write_ea i))
        (ea_if (is_read i) (read_ea i)) (ea_if (is_read i \<and> has_read2 i) (read2_ea i)) s = Ret () s'"
      using st Executed by (auto simp: instrumented split: if_splits)
    show ?thesis
      using f True Executed
      by (auto simp: follows_def ProcessInst_effect [OF p] running_snoc profiling_snoc recorded_snoc add.commute)
  next
    case False
    then have "s' = s" using st Executed by (auto simp: instrumented split: if_splits)
    then show ?thesis
      using f False Executed by (auto simp: follows_def running_snoc profiling_snoc recorded_snoc)
  qed
qed

section \<open>The accesses that are followed\<close>

text \<open>What one instruction of a thread adds to the accesses \<open>tr\<close> so far: its write, then the first and the second
  address it reads. An address read is followed only if it is odd and the address before it was not
  found to be shared, for \<open>_raddr & !shared_data\<close> is the bitwise operator on the address and 0 or 1.\<close>

definition met_other :: "(u64 \<times> u32) list \<Rightarrow> u64 \<Rightarrow> u32 \<Rightarrow> bool" where
  "met_other tr a t \<longleftrightarrow> (\<exists>u. (a, u) \<in> set tr \<and> u \<noteq> t)"

definition ins_accesses :: "(u64 \<times> u32) list \<Rightarrow> u32 \<Rightarrow> u64 \<Rightarrow> u64 \<Rightarrow> u64 \<Rightarrow> (u64 \<times> u32) list" where
  "ins_accesses tr t w r r2 =
     (let tr1 = (if w \<noteq> 0 then tr @ [(w, t)] else tr);
          shared1 = (if w \<noteq> 0 then met_other tr w t else False);
          follow = (odd r \<and> \<not> shared1);
          tr2 = (if follow then tr1 @ [(r, t)] else tr1);
          shared2 = (if follow then met_other tr1 r t else shared1)
      in if odd r2 \<and> \<not> shared2 then tr2 @ [(r2, t)] else tr2)"

text \<open>The accesses of a run.\<close>

fun followed :: "u64 list \<Rightarrow> tev list \<Rightarrow> (u64 \<times> u32) list \<Rightarrow> tev list \<Rightarrow> (u64 \<times> u32) list" where
  "followed sites pre tr [] = tr"
| "followed sites pre tr (e # es) =
     followed sites (pre @ [e])
       (case e of Executed i t \<Rightarrow>
          if counted_mem sites UNIV pre e
          then ins_accesses tr t (ea_if (is_write i) (write_ea i)) (ea_if (is_read i) (read_ea i))
                 (ea_if (is_read i \<and> has_read2 i) (read2_ea i))
          else tr
        | _ \<Rightarrow> tr) es"

definition trace :: "u64 list \<Rightarrow> tev list \<Rightarrow> (u64 \<times> u32) list" where
  "trace sites es = followed sites [] [] es"

lemma followed_snoc:
  "followed sites pre tr (es @ [e]) = followed sites (pre @ es) (followed sites pre tr es) [e]"
  by (induction sites pre tr es rule: followed.induct) simp_all

lemma trace_snoc:
  "trace sites (es @ [e]) =
     (case e of Executed i t \<Rightarrow>
        if counted_mem sites UNIV es e
        then ins_accesses (trace sites es) t (ea_if (is_write i) (write_ea i)) (ea_if (is_read i) (read_ea i))
               (ea_if (is_read i \<and> has_read2 i) (read2_ea i))
        else trace sites es
      | _ \<Rightarrow> trace sites es)"
  by (cases e) (simp_all add: trace_def followed_snoc del: counted_snoc)

lemma sees_cong:
  "memAccessMap s' = memAccessMap s \<Longrightarrow> total_threads s' = total_threads s \<Longrightarrow> sees tr s' = sees tr s"
  by (simp add: sees_def)

lemma sees_if:
  assumes "sees tr s" and "t \<noteq> total_threads s" and "(if c then doMemAccess a t s else (d, s)) = (b, s')"
  shows "sees (if c then tr @ [(a, t)] else tr) s'" "b \<longleftrightarrow> (if c then met_other tr a t else d)"
    "total_threads s' = total_threads s"
  using sees_step [OF assms(1,2), of a] assms by (auto simp: met_other_def split: if_splits)

lemma odd_and: "a AND (if b then 0 else 1) \<noteq> (0 :: u64) \<longleftrightarrow> odd a \<and> \<not> b"
  by (simp add: and_one_eq odd_iff_mod_2_eq_one)

text \<open>An instruction makes exactly these accesses.\<close>

lemma ProcessInst_sees:
  assumes "ProcessInst t True st w r r2 s = Ret () s'" and "sees tr s"
  shows "sees (if recording s t \<and> \<not> st then ins_accesses tr t w r r2 else tr) s'"
proof (cases "recording s t \<and> \<not> st")
  case False
  with assms(1) have k: "memAccessMap s' = memAccessMap s" "total_threads s' = total_threads s"
    by (auto simp: ProcessInst_def assrt_eq_Ret Let_def split: if_splits)
  from assms(2) have "sees tr s'" using sees_cong [OF k] by simp
  then show ?thesis using False by (simp only: if_False)
next
  case True
  let ?s0 = "s\<lparr>data := (data s)(t := (data s t)\<lparr>instcount := instcount (data s t) + 1\<rparr>)\<rparr>"
  let ?s = "?s0\<lparr>data := (data ?s0)(t := (data ?s0 t)\<lparr>inst_mem_access := inst_mem_access (data ?s0 t) + 1\<rparr>)\<rparr>"
  obtain sh1 s1 where a1: "(if w \<noteq> 0 then doMemAccess w t ?s else (False, ?s)) = (sh1, s1)" by fastforce
  obtain sh2 s2 where a2: "(if addr_and_not r sh1 then doMemAccess r t s1 else (sh1, s1)) = (sh2, s2)" by fastforce
  obtain sh3 s3 where a3: "(if addr_and_not r2 sh2 then doMemAccess r2 t s2 else (sh2, s2)) = (sh3, s3)" by fastforce
  have lt: "t < total_threads s" and s': "s' = s3"
    using assms(1) True a1 a2 a3
    by (auto simp: ProcessInst_def assrt_eq_Ret Let_def split: if_splits)
  have t: "t \<noteq> total_threads ?s" using lt by auto
  have "sees tr ?s" using assms(2) by (simp add: sees_def)
  note 1 = sees_if [OF this t a1]
  have "t \<noteq> total_threads s1" using t 1(3) by simp
  note 2 = sees_if [OF 1(1) this a2]
  have "t \<noteq> total_threads s2" using t 1(3) 2(3) by simp
  note 3 = sees_if [OF 2(1) this a3]
  show ?thesis
    using 3(1) unfolding s' if_P [OF True] ins_accesses_def Let_def 2(2) 1(2) addr_and_not_def odd_and .
qed

lemma sees_event:
  assumes f: "follows n sites es s" and m: "sees (trace sites es) s" and st: "tool_step e s = Ret () s'"
  shows "sees (trace sites (es @ [e])) s'"
proof -
  have keeps: "memAccessMap s' = memAccessMap s \<and> total_threads s' = total_threads s" if "\<nexists>i t. e = Executed i t"
    using st that by (cases e)
      (auto simp: ThreadBegin_def ThreadEnd_def ProcessLock_def ProcessUnlock_def assrt_eq_Ret Let_def split: if_splits)
  show ?thesis
  proof (cases e)
    case (Executed i t)
    show ?thesis
    proof (cases "(is_write i \<or> is_read i) \<and> fall_through i")
      case True
      then have p: "ProcessInst t True (stack_read i \<or> stack_write i) (ea_if (is_write i) (write_ea i))
          (ea_if (is_read i) (read_ea i)) (ea_if (is_read i \<and> has_read2 i) (read2_ea i)) s = Ret () s'"
        using st Executed by (auto simp: instrumented split: if_splits)
      have "counted_mem sites UNIV es e \<longleftrightarrow> recording s t \<and> \<not> (stack_read i \<or> stack_write i)"
        using f True by (simp add: Executed follows_def)
      with ProcessInst_sees [OF p m] show ?thesis by (simp add: trace_snoc Executed)
    next
      case False
      then have "s' = s" using st Executed by (auto simp: instrumented split: if_splits)
      moreover have "\<not> counted_mem sites UNIV es (Executed i t)" using False by auto
      ultimately show ?thesis using m by (simp add: trace_snoc Executed del: counted_snoc)
    qed
  qed (use m keeps sees_cong [of s' s "trace sites es"] in \<open>simp_all add: trace_snoc\<close>)
qed

section \<open>The figures of the report\<close>

definition starts :: "tev list \<Rightarrow> nat" where
  "starts es = length (filter (\<lambda>e. \<exists>t. e = Started t) es)"

definition ends :: "tev list \<Rightarrow> nat" where
  "ends es = length (filter (\<lambda>e. \<exists>t. e = Ended t) es)"

lemma running_eq: "running es = 1 + int (starts es) - int (ends es)"
  by (induction es rule: running.induct) (simp_all add: starts_def ends_def)

lemma follows_run:
  assumes "tool_run es (new_tool n sites) = Ret () s" and "starts es < 2 ^ 15 - 2" and "ends es < 2 ^ 15"
  shows "follows n sites es s \<and> sees (trace sites es) s"
  using assms
proof (induction es arbitrary: s rule: rev_induct)
  case Nil
  moreover have "sees (trace sites []) (new_tool n sites)" by (simp add: sees_def trace_def new_tool_def tracked_def)
  ultimately show ?case using follows_new [of n sites] by simp
next
  case (snoc e es)
  obtain s1 where s1: "tool_run es (new_tool n sites) = Ret () s1" "tool_step e s1 = Ret () s"
    using snoc.prems(1) by (cases "tool_run es (new_tool n sites)") (simp_all add: tool_run_snoc)
  have c: "starts es < 2 ^ 15 - 2" "ends es < 2 ^ 15" using snoc.prems(2,3) by (auto simp: starts_def ends_def)
  note ih = snoc.IH [OF s1(1) c]
  have "follows n sites (es @ [e]) s"
    by (rule follows_step [OF ih [THEN conjunct1] s1(2)]) (use c in \<open>simp_all add: running_eq\<close>)
  with sees_event [OF ih [THEN conjunct1] ih [THEN conjunct2] s1(2)] show ?case by blast
qed

text \<open>Adding up the threads.\<close>

lemma occ_sum:
  assumes "finite T" and "\<And>pre e. P T pre e \<longleftrightarrow> tid_of e \<in> T \<and> P {tid_of e} pre e"
    and "\<And>t pre e. P {t} pre e \<Longrightarrow> tid_of e = t"
  shows "(\<Sum>t\<in>T. occ (P {t}) es) = occ (P T) es"
proof (induction es rule: rev_induct)
  case (snoc e es)
  have "(\<Sum>t\<in>T. occ (P {t}) (es @ [e])) = occ (P T) es + (\<Sum>t\<in>T. if P {t} es e then 1 else 0)"
    using snoc by (simp add: sum.distrib)
  also have "(\<Sum>t\<in>T. if P {t} es e then 1 else 0) = (if P T es e then 1 else 0 :: nat)"
  proof (cases "P T es e")
    case True
    then have "tid_of e \<in> T" "P {tid_of e} es e" using assms(2) by blast+
    moreover have "P {t} es e \<longleftrightarrow> t = tid_of e" for t using calculation(2) assms(3) by blast
    ultimately show ?thesis using assms(1) True by simp
  next
    case False
    have "\<not> P {t} es e" if "t \<in> T" for t using False assms(2) [of es e] assms(3) [of t es e] that by blast
    then show ?thesis using False by simp
  qed
  finally show ?case by simp
qed simp

lemma occ_cong:
  assumes "\<And>e pre. e \<in> set es \<Longrightarrow> P pre e \<longleftrightarrow> Q pre e"
  shows "occ P es = occ Q es"
proof -
  have "filter (\<lambda>k. P (take k es) (es ! k)) [0..<length es] = filter (\<lambda>k. Q (take k es) (es ! k)) [0..<length es]"
    by (rule filter_cong) (use assms in auto)
  then show ?thesis by (simp add: occ_def)
qed

lemma counted_by:
  "counted_inst sites T pre e \<longleftrightarrow> tid_of e \<in> T \<and> counted_inst sites {tid_of e} pre e"
  "counted_mem sites T pre e \<longleftrightarrow> tid_of e \<in> T \<and> counted_mem sites {tid_of e} pre e"
  "counted_cs sites T pre e \<longleftrightarrow> tid_of e \<in> T \<and> counted_cs sites {tid_of e} pre e"
  "counted_inst sites {t} pre e \<Longrightarrow> tid_of e = t" "counted_mem sites {t} pre e \<Longrightarrow> tid_of e = t"
  "counted_cs sites {t} pre e \<Longrightarrow> tid_of e = t"
  by (cases e; auto)+

lemma thread_sum:
  fixes n :: u32
  assumes "\<And>t. f t = (word_of_nat (g t) :: u32)"
  shows "sum_list (map (\<lambda>t. f t) (map word_of_nat [0..<unat n])) = word_of_nat (\<Sum>t | t < n. g t)"
proof -
  have u: "unat (word_of_nat k :: u32) = k" if "k < unat n" for k
    using that unsigned_less [of n, where 'a = nat] by (simp add: unsigned_of_nat take_bit_nat_eq_self)
  have inj: "distinct (map word_of_nat [0..<unat n] :: u32 list)"
    unfolding distinct_map by (auto intro!: inj_onI) (metis u)
  have all: "set (map word_of_nat [0..<unat n] :: u32 list) = {t. t < n}"
  proof (intro set_eqI iffI)
    fix t :: u32 assume "t \<in> {t. t < n}"
    then have "t = word_of_nat (unat t)" "unat t < unat n" by (simp_all add: word_less_nat_alt)
    then show "t \<in> set (map word_of_nat [0..<unat n])" by force
  next
    fix t :: u32 assume "t \<in> set (map word_of_nat [0..<unat n])"
    then obtain k where k: "t = word_of_nat k" "k < unat n" by auto
    then have "unat t = k" using u by simp
    then show "t \<in> {t. t < n}" using k by (simp add: word_less_nat_alt)
  qed
  show ?thesis
    unfolding sum_list_distinct_conv_sum_set [OF inj] all assms of_nat_sum ..
qed


text \<open>Two threads enter a critical section and load the byte at 17 there; the first also loads one on its stack, and
  one after it has left.\<close>

definition demo_load :: "bool \<Rightarrow> ins" where
  "demo_load stack = \<lparr>is_write = False, is_read = True, has_read2 = False, stack_read = stack,
     stack_write = False, fall_through = True, write_ea = 0, read_ea = 17, read2_ea = 0\<rparr>"

definition demo_events :: "tev list" where
  "demo_events = (((((((([] @ [Started 0]) @ [Started 1]) @ [LockReturned 255 0]) @ [Executed (demo_load False) 0]) @
     [Executed (demo_load True) 0]) @ [UnlockCalled 0]) @ [Executed (demo_load False) 0]) @ [LockReturned 255 1]) @
     [Executed (demo_load False) 1]"

lemma read_ff: "read_hex_long ''0xff'' = 255"
  by code_simp

lemma demo_occ:
  "occ (counted_inst [255] UNIV) demo_events = 3" "occ (counted_mem [255] UNIV) demo_events = 2"
  "occ (counted_cs [255] UNIV) demo_events = 2"
  unfolding demo_events_def
  by (simp_all only: occ_Nil occ_snoc counted_snoc recorded_snoc profiling_snoc running_snoc demo_load_def)
    (simp_all add: recorded_def profiling_def)

lemma demo_trace: "trace [255] demo_events = [(17, 0), (17, 1)]"
proof -
  have none: "\<not> recorded [255] [] t" "\<not> profiling []" for t by (simp_all add: recorded_def profiling_def)
  have e: "demo_events = [Started 0, Started 1, LockReturned 255 0, Executed (demo_load False) 0, Executed (demo_load True) 0,
      UnlockCalled 0, Executed (demo_load False) 0, LockReturned 255 1, Executed (demo_load False) 1]"
    by (simp add: demo_events_def)
  show ?thesis
    unfolding trace_def e
    by (simp del: append_Nil append_Cons append_assoc
        add: recorded_snoc profiling_snoc running_snoc none demo_load_def ins_accesses_def met_other_def ea_if_def Let_def)
qed

text \<open>A run returns if the threads are among those announced and no operand is at address 0.\<close>

definition well_addressed :: "tev \<Rightarrow> bool" where
  "well_addressed e \<longleftrightarrow> (\<forall>i t. e = Executed i t \<longrightarrow> (is_write i \<longrightarrow> write_ea i \<noteq> 0) \<and> (is_read i \<longrightarrow> read_ea i \<noteq> 0))"

lemma tool_step_returns:
  assumes "tid_of e < total_threads s" and "well_addressed e"
  shows "\<exists>s'. tool_step e s = Ret () s' \<and> total_threads s' = total_threads s"
proof (cases e)
  case (Executed i t)
  with assms run_ins_returns [of t s i] obtain s' where s': "run_ins t i s = Ret () s'" by (auto simp: well_addressed_def)
  have "total_threads s' = total_threads s"
  proof (cases "(is_write i \<or> is_read i) \<and> fall_through i")
    case True
    with s' have "ProcessInst t True (stack_read i \<or> stack_write i) (ea_if (is_write i) (write_ea i))
        (ea_if (is_read i) (read_ea i)) (ea_if (is_read i \<and> has_read2 i) (read2_ea i)) s = Ret () s'"
      by (auto simp: instrumented split: if_splits)
    then show ?thesis by (rule ProcessInst_effect(3))
  next
    case False
    with s' show ?thesis by (auto simp: instrumented split: if_splits)
  qed
  with s' Executed show ?thesis by simp
qed (use assms in \<open>auto simp: ThreadBegin_def ThreadEnd_def ProcessLock_def ProcessUnlock_def Let_def assrt_def\<close>)

lemma tool_run_returns:
  assumes "\<forall>e\<in>set es. tid_of e < total_threads s \<and> well_addressed e"
  shows "\<exists>s'. tool_run es s = Ret () s'"
  using assms
proof (induction es arbitrary: s)
  case (Cons e es)
  then obtain s1 where "tool_step e s = Ret () s1" "total_threads s1 = total_threads s"
    using tool_step_returns [of e s] by auto
  with Cons show ?case by simp
qed simp


end
