(* ===== verification/Syscalls.thy ===== *)
theory Syscalls
  imports NptlState
begin

unbundle bit_operations_syntax

text \<open>
  How the library enters the kernel: the system call macros of \<open>source/sysdep.h\<close> (the inline ones for C
  and the stubs for assembler) and the futex macros of \<open>source/lowlevellock-futex.h\<close> built on them.

  The machine is a register file, the thread's \<open>errno\<close> and a memory. A C expression that is passed to a macro
  is a function of the machine: computing it may change the memory and any register, for instance by a
  call. What the kernel does is the argument \<open>K\<close>. \<open>syscall_spec\<close> says what a system call is for its caller, and
  both kinds of entry are shown to be it.
\<close>

section \<open>Registers (sysdep.h)\<close>

datatype reg = RAX | RBP | RBX | RCX | RDI | RDX | RSI | RSP
  | R8 | R9 | R10 | R11 | R12 | R13 | R14 | R15

fun reg_lp :: "reg \<Rightarrow> string" where
  "reg_lp RAX = ''rax''"
| "reg_lp RBP = ''rbp''"
| "reg_lp RBX = ''rbx''"
| "reg_lp RCX = ''rcx''"
| "reg_lp RDI = ''rdi''"
| "reg_lp RDX = ''rdx''"
| "reg_lp RSI = ''rsi''"
| "reg_lp RSP = ''rsp''"
| "reg_lp R8 = ''r8''"
| "reg_lp R9 = ''r9''"
| "reg_lp R10 = ''r10''"
| "reg_lp R11 = ''r11''"
| "reg_lp R12 = ''r12''"
| "reg_lp R13 = ''r13''"
| "reg_lp R14 = ''r14''"
| "reg_lp R15 = ''r15''"

record 'm mach =
  rg :: "reg \<Rightarrow> u64"
  errno :: i32
  mem :: 'm

abbreviation set_reg :: "reg \<Rightarrow> u64 \<Rightarrow> ('m, 'z) mach_scheme \<Rightarrow> ('m, 'z) mach_scheme" where
  "set_reg r v s \<equiv> s\<lparr>rg := (rg s)(r := v)\<rparr>"

text \<open>The low half of a register, and the two ways a 32-bit value is widened.\<close>

definition lo32 :: "u64 \<Rightarrow> i32" where "lo32 w = ucast w"
definition zx :: "i32 \<Rightarrow> u64" where "zx w = ucast w"
definition sx :: "i32 \<Rightarrow> u64" where "sx w = scast w"

lemma lo32_zx [simp]: "lo32 (zx w) = w"
  unfolding lo32_def zx_def by (rule bit_word_eqI) (simp add: bit_simps)

lemma lo32_sx [simp]: "lo32 (sx w) = w"
  unfolding lo32_def sx_def by (rule bit_word_eqI) (simp add: bit_simps)

lemma sx_zx: "0 \<le>s w \<Longrightarrow> sx w = zx w"
proof -
  assume "0 \<le>s w"
  then have "uint w = sint w" using sint_lt [of w] by (simp add: uint_sint take_bit_eq_mod word_sle_eq)
  then show ?thesis by (simp only: sx_def zx_def scast_eq ucast_eq)
qed

section \<open>C values and expressions\<close>

datatype cval = CInt i32 | CUInt u32 | CLong u64

type_synonym ('m, 'z) expr = "('m, 'z) mach_scheme \<Rightarrow> cval \<times> ('m, 'z) mach_scheme"

text \<open>The cast \<open>(long int)\<close>; pointers and 64-bit integers stay as they are.\<close>

fun long_int :: "cval \<Rightarrow> u64" where
  "long_int (CInt w) = sx w"
| "long_int (CUInt w) = zx w"
| "long_int (CLong w) = w"

definition const :: "cval \<Rightarrow> ('m, 'z) expr" where
  "const v s = (v, s)"

section \<open>Loading the arguments\<close>

text \<open>
  \<open>LOAD_ARGS\<close> evaluates the arguments into the variables \<open>__arg1\<close> to \<open>__arg6\<close>; each macro declares its last
  one and goes on with the macro for the others, so the last argument is evaluated first. A type is given by
  its cast. \<open>LOAD_REGS\<close> then moves the variables into the registers, where nothing is evaluated any more.
\<close>

type_synonym args = "nat \<Rightarrow> u64"

definition set_arg :: "nat \<Rightarrow> (cval \<Rightarrow> u64) \<Rightarrow> ('m, 'z) expr \<Rightarrow> args \<times> ('m, 'z) mach_scheme \<Rightarrow> args \<times> ('m, 'z) mach_scheme" where
  "set_arg i t a x = (case x of (args, s) \<Rightarrow> case a s of (v, s) \<Rightarrow> (args(i := t v), s))"

definition LOAD_ARGS_0 :: "args \<times> ('m, 'z) mach_scheme \<Rightarrow> args \<times> ('m, 'z) mach_scheme" where
  "LOAD_ARGS_0 x = x"

definition LOAD_ARGS_TYPES_1 where
  "LOAD_ARGS_TYPES_1 t1 a1 x = LOAD_ARGS_0 (set_arg 1 t1 a1 x)"

definition LOAD_ARGS_TYPES_2 where
  "LOAD_ARGS_TYPES_2 t1 a1 t2 a2 x = LOAD_ARGS_TYPES_1 t1 a1 (set_arg 2 t2 a2 x)"

definition LOAD_ARGS_TYPES_3 where
  "LOAD_ARGS_TYPES_3 t1 a1 t2 a2 t3 a3 x = LOAD_ARGS_TYPES_2 t1 a1 t2 a2 (set_arg 3 t3 a3 x)"

definition LOAD_ARGS_TYPES_4 where
  "LOAD_ARGS_TYPES_4 t1 a1 t2 a2 t3 a3 t4 a4 x = LOAD_ARGS_TYPES_3 t1 a1 t2 a2 t3 a3 (set_arg 4 t4 a4 x)"

definition LOAD_ARGS_TYPES_5 where
  "LOAD_ARGS_TYPES_5 t1 a1 t2 a2 t3 a3 t4 a4 t5 a5 x =
     LOAD_ARGS_TYPES_4 t1 a1 t2 a2 t3 a3 t4 a4 (set_arg 5 t5 a5 x)"

definition LOAD_ARGS_TYPES_6 where
  "LOAD_ARGS_TYPES_6 t1 a1 t2 a2 t3 a3 t4 a4 t5 a5 t6 a6 x =
     LOAD_ARGS_TYPES_5 t1 a1 t2 a2 t3 a3 t4 a4 t5 a5 (set_arg 6 t6 a6 x)"

definition LOAD_REGS_0 :: "args \<Rightarrow> ('m, 'z) mach_scheme \<Rightarrow> ('m, 'z) mach_scheme" where
  "LOAD_REGS_0 args s = s"

definition LOAD_REGS_TYPES_1 where "LOAD_REGS_TYPES_1 args s = LOAD_REGS_0 args (set_reg RDI (args 1) s)"
definition LOAD_REGS_TYPES_2 where "LOAD_REGS_TYPES_2 args s = LOAD_REGS_TYPES_1 args (set_reg RSI (args 2) s)"
definition LOAD_REGS_TYPES_3 where "LOAD_REGS_TYPES_3 args s = LOAD_REGS_TYPES_2 args (set_reg RDX (args 3) s)"
definition LOAD_REGS_TYPES_4 where "LOAD_REGS_TYPES_4 args s = LOAD_REGS_TYPES_3 args (set_reg R10 (args 4) s)"
definition LOAD_REGS_TYPES_5 where "LOAD_REGS_TYPES_5 args s = LOAD_REGS_TYPES_4 args (set_reg R8 (args 5) s)"
definition LOAD_REGS_TYPES_6 where "LOAD_REGS_TYPES_6 args s = LOAD_REGS_TYPES_5 args (set_reg R9 (args 6) s)"

definition LOAD_ARGS_1 where "LOAD_ARGS_1 a1 = LOAD_ARGS_TYPES_1 long_int a1"
definition LOAD_ARGS_2 where "LOAD_ARGS_2 a1 a2 = LOAD_ARGS_TYPES_2 long_int a1 long_int a2"
definition LOAD_ARGS_3 where
  "LOAD_ARGS_3 a1 a2 a3 = LOAD_ARGS_TYPES_3 long_int a1 long_int a2 long_int a3"
definition LOAD_ARGS_4 where
  "LOAD_ARGS_4 a1 a2 a3 a4 = LOAD_ARGS_TYPES_4 long_int a1 long_int a2 long_int a3 long_int a4"
definition LOAD_ARGS_5 where
  "LOAD_ARGS_5 a1 a2 a3 a4 a5 =
     LOAD_ARGS_TYPES_5 long_int a1 long_int a2 long_int a3 long_int a4 long_int a5"
definition LOAD_ARGS_6 where
  "LOAD_ARGS_6 a1 a2 a3 a4 a5 a6 =
     LOAD_ARGS_TYPES_6 long_int a1 long_int a2 long_int a3 long_int a4 long_int a5 long_int a6"

definition LOAD_REGS_1 where "LOAD_REGS_1 = LOAD_REGS_TYPES_1"
definition LOAD_REGS_2 where "LOAD_REGS_2 = LOAD_REGS_TYPES_2"
definition LOAD_REGS_3 where "LOAD_REGS_3 = LOAD_REGS_TYPES_3"
definition LOAD_REGS_4 where "LOAD_REGS_4 = LOAD_REGS_TYPES_4"
definition LOAD_REGS_5 where "LOAD_REGS_5 = LOAD_REGS_TYPES_5"
definition LOAD_REGS_6 where "LOAD_REGS_6 = LOAD_REGS_TYPES_6"

lemmas load_args_defs = LOAD_ARGS_0_def LOAD_ARGS_TYPES_1_def LOAD_ARGS_TYPES_2_def
  LOAD_ARGS_TYPES_3_def LOAD_ARGS_TYPES_4_def LOAD_ARGS_TYPES_5_def LOAD_ARGS_TYPES_6_def
  LOAD_ARGS_1_def LOAD_ARGS_2_def LOAD_ARGS_3_def LOAD_ARGS_4_def LOAD_ARGS_5_def LOAD_ARGS_6_def

lemmas load_regs_defs = LOAD_REGS_0_def LOAD_REGS_TYPES_1_def LOAD_REGS_TYPES_2_def
  LOAD_REGS_TYPES_3_def LOAD_REGS_TYPES_4_def LOAD_REGS_TYPES_5_def LOAD_REGS_TYPES_6_def
  LOAD_REGS_1_def LOAD_REGS_2_def LOAD_REGS_3_def LOAD_REGS_4_def LOAD_REGS_5_def LOAD_REGS_6_def

text \<open>
  The pasted names \<open>LOAD_ARGS_##nr (args)\<close> and \<open>LOAD_REGS_##nr\<close> with their versions for explicit types:
  \<open>None\<close> is a use that does not compile. \<open>ASM_ARGS_##nr\<close> lists the argument registers the instruction reads.
\<close>

type_synonym ('m, 'z) loaded = "(args \<times> ('m, 'z) mach_scheme) option"

definition LOAD_ARGS_TYPES :: "nat \<Rightarrow> ((cval \<Rightarrow> u64) \<times> ('m, 'z) expr) list \<Rightarrow> ('m, 'z) mach_scheme \<Rightarrow> ('m, 'z) loaded" where
  "LOAD_ARGS_TYPES nr as s =
     (let x = (\<lambda>_. 0, s) in
      if nr = 0 then case as of [] \<Rightarrow> Some (LOAD_ARGS_0 x) | _ \<Rightarrow> None
      else if nr = 1 then case as of [(t1, a1)] \<Rightarrow> Some (LOAD_ARGS_TYPES_1 t1 a1 x) | _ \<Rightarrow> None
      else if nr = 2 then case as of [(t1, a1), (t2, a2)] \<Rightarrow> Some (LOAD_ARGS_TYPES_2 t1 a1 t2 a2 x) | _ \<Rightarrow> None
      else if nr = 3 then case as of [(t1, a1), (t2, a2), (t3, a3)] \<Rightarrow>
          Some (LOAD_ARGS_TYPES_3 t1 a1 t2 a2 t3 a3 x) | _ \<Rightarrow> None
      else if nr = 4 then case as of [(t1, a1), (t2, a2), (t3, a3), (t4, a4)] \<Rightarrow>
          Some (LOAD_ARGS_TYPES_4 t1 a1 t2 a2 t3 a3 t4 a4 x) | _ \<Rightarrow> None
      else if nr = 5 then case as of [(t1, a1), (t2, a2), (t3, a3), (t4, a4), (t5, a5)] \<Rightarrow>
          Some (LOAD_ARGS_TYPES_5 t1 a1 t2 a2 t3 a3 t4 a4 t5 a5 x) | _ \<Rightarrow> None
      else if nr = 6 then case as of [(t1, a1), (t2, a2), (t3, a3), (t4, a4), (t5, a5), (t6, a6)] \<Rightarrow>
          Some (LOAD_ARGS_TYPES_6 t1 a1 t2 a2 t3 a3 t4 a4 t5 a5 t6 a6 x) | _ \<Rightarrow> None
      else None)"

definition LOAD_ARGS :: "nat \<Rightarrow> ('m, 'z) expr list \<Rightarrow> ('m, 'z) mach_scheme \<Rightarrow> ('m, 'z) loaded" where
  "LOAD_ARGS nr as s =
     (let x = (\<lambda>_. 0, s) in
      if nr = 0 then case as of [] \<Rightarrow> Some (LOAD_ARGS_0 x) | _ \<Rightarrow> None
      else if nr = 1 then case as of [a1] \<Rightarrow> Some (LOAD_ARGS_1 a1 x) | _ \<Rightarrow> None
      else if nr = 2 then case as of [a1, a2] \<Rightarrow> Some (LOAD_ARGS_2 a1 a2 x) | _ \<Rightarrow> None
      else if nr = 3 then case as of [a1, a2, a3] \<Rightarrow> Some (LOAD_ARGS_3 a1 a2 a3 x) | _ \<Rightarrow> None
      else if nr = 4 then case as of [a1, a2, a3, a4] \<Rightarrow> Some (LOAD_ARGS_4 a1 a2 a3 a4 x) | _ \<Rightarrow> None
      else if nr = 5 then case as of [a1, a2, a3, a4, a5] \<Rightarrow> Some (LOAD_ARGS_5 a1 a2 a3 a4 a5 x) | _ \<Rightarrow> None
      else if nr = 6 then case as of [a1, a2, a3, a4, a5, a6] \<Rightarrow> Some (LOAD_ARGS_6 a1 a2 a3 a4 a5 a6 x) | _ \<Rightarrow> None
      else None)"

definition LOAD_REGS :: "nat \<Rightarrow> args \<Rightarrow> ('m, 'z) mach_scheme \<Rightarrow> ('m, 'z) mach_scheme" where
  "LOAD_REGS nr args s =
     (if nr = 0 then LOAD_REGS_0 args s else if nr = 1 then LOAD_REGS_1 args s
      else if nr = 2 then LOAD_REGS_2 args s else if nr = 3 then LOAD_REGS_3 args s
      else if nr = 4 then LOAD_REGS_4 args s else if nr = 5 then LOAD_REGS_5 args s
      else LOAD_REGS_6 args s)"

definition LOAD_REGS_TYPES :: "nat \<Rightarrow> args \<Rightarrow> ('m, 'z) mach_scheme \<Rightarrow> ('m, 'z) mach_scheme" where
  "LOAD_REGS_TYPES nr args s =
     (if nr = 0 then LOAD_REGS_0 args s else if nr = 1 then LOAD_REGS_TYPES_1 args s
      else if nr = 2 then LOAD_REGS_TYPES_2 args s else if nr = 3 then LOAD_REGS_TYPES_3 args s
      else if nr = 4 then LOAD_REGS_TYPES_4 args s else if nr = 5 then LOAD_REGS_TYPES_5 args s
      else LOAD_REGS_TYPES_6 args s)"

fun ASM_ARGS :: "nat \<Rightarrow> reg list" where
  "ASM_ARGS 0 = []"
| "ASM_ARGS (Suc n) = ASM_ARGS n @ [[RDI, RSI, RDX, R10, R8, R9] ! n]"

section \<open>The instruction\<close>

text \<open>
  The kernel is given the number in \<open>rax\<close> and the argument registers and leaves the result in \<open>rax\<close>; it
  destroys \<open>rcx\<close> and \<open>r11\<close> and keeps the other registers.
\<close>

record 'm kernel =
  k_call :: "u64 \<Rightarrow> u64 list \<Rightarrow> 'm \<Rightarrow> u64 \<times> 'm"
  k_rcx :: "'m \<Rightarrow> u64"
  k_r11 :: "'m \<Rightarrow> u64"

definition syscall_insn :: "'m kernel \<Rightarrow> nat \<Rightarrow> ('m, 'z) mach_scheme \<Rightarrow> ('m, 'z) mach_scheme" where
  "syscall_insn K nr s =
     (case k_call K (rg s RAX) (map (rg s) (ASM_ARGS nr)) (mem s) of (r, m) \<Rightarrow>
        s\<lparr>rg := (rg s)(RAX := r, RCX := k_rcx K (mem s), R11 := k_r11 K (mem s)), mem := m\<rparr>)"

section \<open>The inline system call (sysdep.h)\<close>

type_synonym ('m, 'z) result = "(u64 \<times> ('m, 'z) mach_scheme) option"

definition INTERNAL_SYSCALL_NCS :: "'m kernel \<Rightarrow> cval \<Rightarrow> nat \<Rightarrow> ('m, 'z) expr list \<Rightarrow> ('m, 'z) mach_scheme \<Rightarrow> ('m, 'z) result" where
  "INTERNAL_SYSCALL_NCS K name nr as s =
     (case LOAD_ARGS nr as s of None \<Rightarrow> None
      | Some (args, s) \<Rightarrow>
          let s = LOAD_REGS nr args s; s = syscall_insn K nr (set_reg RAX (long_int name) s)
          in Some (rg s RAX, s))"

definition INTERNAL_SYSCALL :: "'m kernel \<Rightarrow> i32 \<Rightarrow> nat \<Rightarrow> ('m, 'z) expr list \<Rightarrow> ('m, 'z) mach_scheme \<Rightarrow> ('m, 'z) result" where
  "INTERNAL_SYSCALL K name nr as s = INTERNAL_SYSCALL_NCS K (CInt name) nr as s"

definition INTERNAL_SYSCALL_NCS_TYPES :: "'m kernel \<Rightarrow> cval \<Rightarrow> nat \<Rightarrow> ((cval \<Rightarrow> u64) \<times> ('m, 'z) expr) list
    \<Rightarrow> ('m, 'z) mach_scheme \<Rightarrow> ('m, 'z) result" where
  "INTERNAL_SYSCALL_NCS_TYPES K name nr as s =
     (case LOAD_ARGS_TYPES nr as s of None \<Rightarrow> None
      | Some (args, s) \<Rightarrow>
          let s = LOAD_REGS_TYPES nr args s; s = syscall_insn K nr (set_reg RAX (long_int name) s)
          in Some (rg s RAX, s))"

definition INTERNAL_SYSCALL_TYPES :: "'m kernel \<Rightarrow> i32 \<Rightarrow> nat \<Rightarrow> ((cval \<Rightarrow> u64) \<times> ('m, 'z) expr) list
    \<Rightarrow> ('m, 'z) mach_scheme \<Rightarrow> ('m, 'z) result" where
  "INTERNAL_SYSCALL_TYPES K name nr as s = INTERNAL_SYSCALL_NCS_TYPES K (CInt name) nr as s"

definition INLINE_SYSCALL :: "'m kernel \<Rightarrow> i32 \<Rightarrow> nat \<Rightarrow> ('m, 'z) expr list \<Rightarrow> ('m, 'z) mach_scheme \<Rightarrow> ('m, 'z) result" where
  "INLINE_SYSCALL K name nr as s =
     (case INTERNAL_SYSCALL K name nr as s of None \<Rightarrow> None
      | Some (resultvar, s) \<Rightarrow>
          if internal_syscall_error_p resultvar
          then Some (- 1, s\<lparr>errno := lo32 (internal_syscall_errno resultvar)\<rparr>)
          else Some (resultvar, s))"

definition INLINE_SYSCALL_TYPES :: "'m kernel \<Rightarrow> i32 \<Rightarrow> nat \<Rightarrow> ((cval \<Rightarrow> u64) \<times> ('m, 'z) expr) list
    \<Rightarrow> ('m, 'z) mach_scheme \<Rightarrow> ('m, 'z) result" where
  "INLINE_SYSCALL_TYPES K name nr as s =
     (case INTERNAL_SYSCALL_TYPES K name nr as s of None \<Rightarrow> None
      | Some (resultvar, s) \<Rightarrow>
          if internal_syscall_error_p resultvar
          then Some (- 1, s\<lparr>errno := lo32 (internal_syscall_errno resultvar)\<rparr>)
          else Some (resultvar, s))"

section \<open>The assembler stubs (sysdep.h)\<close>

text \<open>A stub is called as a function, with its arguments in \<open>rdi\<close>, \<open>rsi\<close>, \<open>rdx\<close>, \<open>rcx\<close>, \<open>r8\<close>, \<open>r9\<close>.\<close>

definition DOARGS_4 :: "('m, 'z) mach_scheme \<Rightarrow> ('m, 'z) mach_scheme" where
  "DOARGS_4 s = set_reg R10 (rg s RCX) s"

definition DOARGS_5 :: "('m, 'z) mach_scheme \<Rightarrow> ('m, 'z) mach_scheme" where "DOARGS_5 = DOARGS_4"
definition DOARGS_6 :: "('m, 'z) mach_scheme \<Rightarrow> ('m, 'z) mach_scheme" where "DOARGS_6 = DOARGS_5"

definition DOARGS :: "nat \<Rightarrow> ('m, 'z) mach_scheme \<Rightarrow> ('m, 'z) mach_scheme" where
  "DOARGS args s =
     (if args = 4 then DOARGS_4 s else if args = 5 then DOARGS_5 s else if args = 6 then DOARGS_6 s else s)"

definition DO_CALL :: "'m kernel \<Rightarrow> i32 \<Rightarrow> nat \<Rightarrow> ('m, 'z) mach_scheme \<Rightarrow> ('m, 'z) mach_scheme" where
  "DO_CALL K name args s = syscall_insn K args (set_reg RAX (zx name) (DOARGS args s))"

text \<open>\<open>off\<close> is the offset of \<open>errno\<close> in the thread's storage, read from the global offset table.\<close>

definition SYSCALL_SET_ERRNO :: "u64 \<Rightarrow> ('m, 'z) mach_scheme \<Rightarrow> ('m, 'z) mach_scheme" where
  "SYSCALL_SET_ERRNO off s =
     (let s = set_reg RCX off s; s = set_reg RAX (zx (- lo32 (rg s RAX))) s
      in s\<lparr>errno := lo32 (rg s RAX)\<rparr>)"

definition SYSCALL_ERROR_HANDLER :: "u64 \<Rightarrow> ('m, 'z) mach_scheme \<Rightarrow> ('m, 'z) mach_scheme" where
  "SYSCALL_ERROR_HANDLER off s = (let s = SYSCALL_SET_ERRNO off s in set_reg RAX (rg s RAX OR - 1) s)"

text \<open>The function made by \<open>PSEUDO\<close>, a \<open>ret\<close> and \<open>PSEUDO_END\<close>, and its variants.\<close>

definition PSEUDO :: "u64 \<Rightarrow> 'm kernel \<Rightarrow> i32 \<Rightarrow> nat \<Rightarrow> ('m, 'z) mach_scheme \<Rightarrow> ('m, 'z) mach_scheme" where
  "PSEUDO off K name args s =
     (let s = DO_CALL K name args s
      in if rg s RAX \<ge> - 4095 then SYSCALL_ERROR_HANDLER off s else s)"

definition PSEUDO_NOERRNO :: "'m kernel \<Rightarrow> i32 \<Rightarrow> nat \<Rightarrow> ('m, 'z) mach_scheme \<Rightarrow> ('m, 'z) mach_scheme" where
  "PSEUDO_NOERRNO K name args s = DO_CALL K name args s"

definition PSEUDO_ERRVAL :: "'m kernel \<Rightarrow> i32 \<Rightarrow> nat \<Rightarrow> ('m, 'z) mach_scheme \<Rightarrow> ('m, 'z) mach_scheme" where
  "PSEUDO_ERRVAL K name args s = (let s = DO_CALL K name args s in set_reg RAX (- rg s RAX) s)"

section \<open>What a system call is for its caller\<close>

definition syscall_spec :: "'m kernel \<Rightarrow> u64 \<Rightarrow> u64 list \<Rightarrow> i32 \<Rightarrow> 'm \<Rightarrow> u64 \<times> i32 \<times> 'm" where
  "syscall_spec K name vs e m =
     (case k_call K name vs m of (r, m') \<Rightarrow>
        if - 4095 \<le> sint r \<and> sint r \<le> - 1 then (- 1, word_of_int (- sint r), m') else (r, e, m'))"

text \<open>The arguments, evaluated from the last to the first.\<close>

fun eval_rl :: "((cval \<Rightarrow> u64) \<times> ('m, 'z) expr) list \<Rightarrow> ('m, 'z) mach_scheme \<Rightarrow> u64 list \<times> ('m, 'z) mach_scheme" where
  "eval_rl [] s = ([], s)"
| "eval_rl ((t, a) # as) s =
     (case eval_rl as s of (vs, s) \<Rightarrow> case a s of (v, s) \<Rightarrow> (t v # vs, s))"

section \<open>The two entries are that\<close>

lemma uint_of_sint: "uint r = (if 0 \<le> sint r then sint r else sint r + 2 ^ 64)" for r :: u64
proof -
  have m: "uint r = sint r mod 2 ^ 64" by (simp add: uint_sint take_bit_eq_mod)
  have lt: "sint r < 2 ^ 63" and ge: "- (2 ^ 63) \<le> sint r" using sint_lt [of r] sint_ge [of r] by simp_all
  show ?thesis
  proof (cases "0 \<le> sint r")
    case True
    with m lt show ?thesis by simp
  next
    case False
    have "sint r mod 2 ^ 64 = (sint r + 2 ^ 64) mod 2 ^ 64" by simp
    also have "\<dots> = sint r + 2 ^ 64" using False ge by (intro mod_pos_pos_trivial) simp_all
    finally show ?thesis using m False by simp
  qed
qed

lemma neg_4095_le: "(- 4095 :: u64) \<le> r \<longleftrightarrow> - 4095 \<le> sint r \<and> sint r \<le> - 1"
proof -
  have "uint (- 4095 :: u64) = 2 ^ 64 - 4095" by simp
  then show ?thesis using sint_lt [of r] by (simp add: word_le_def uint_of_sint) linarith
qed

lemma lo32_of_int: "lo32 (word_of_int k) = word_of_int k"
  unfolding lo32_def by (rule bit_word_eqI) (simp add: bit_simps)

lemma lo32_uminus: "lo32 (- r) = word_of_int (- sint r)"
  using lo32_of_int [of "- sint r"] by simp

lemma lo32_minus: "- lo32 r = lo32 (- r)"
  using lo32_of_int [of "sint r"] lo32_uminus [of r] by simp

text \<open>At most six arguments, one case for each number of them.\<close>

lemma list_upto6:
  assumes "length xs \<le> 6"
  obtains "xs = []" | a where "xs = [a]" | a b where "xs = [a, b]" | a b c where "xs = [a, b, c]"
    | a b c d where "xs = [a, b, c, d]" | a b c d e where "xs = [a, b, c, d, e]"
    | a b c d e f where "xs = [a, b, c, d, e, f]"
proof -
  from assms consider "length xs = 0" | "length xs = 1" | "length xs = 2" | "length xs = 3"
    | "length xs = 4" | "length xs = 5" | "length xs = 6" by linarith
  then show thesis by cases (auto simp: length_Suc_conv numeral_eq_Suc intro: that)
qed

lemma le_cases6: "n \<le> 6 \<Longrightarrow> (n = 0 \<Longrightarrow> P) \<Longrightarrow> (n = 1 \<Longrightarrow> P) \<Longrightarrow> (n = 2 \<Longrightarrow> P) \<Longrightarrow> (n = 3 \<Longrightarrow> P)
    \<Longrightarrow> (n = 4 \<Longrightarrow> P) \<Longrightarrow> (n = 5 \<Longrightarrow> P) \<Longrightarrow> (n = 6 \<Longrightarrow> P) \<Longrightarrow> P" for n :: nat
  by linarith

lemma load_args_types:
  assumes "length as \<le> 6" and "eval_rl as s = (vs, u)"
  shows "\<exists>args. LOAD_ARGS_TYPES (length as) as s = Some (args, u) \<and> map args [1..<Suc (length as)] = vs"
  using assms(1)
proof (cases rule: list_upto6)
qed (use assms(2) in \<open>force simp: LOAD_ARGS_TYPES_def load_args_defs set_arg_def upt_rec split: prod.splits\<close>)+

lemma load_args_long:
  "LOAD_ARGS nr as s = LOAD_ARGS_TYPES nr (map (Pair long_int) as) s"
  by (simp add: LOAD_ARGS_def LOAD_ARGS_TYPES_def load_args_defs Let_def split: list.splits)

lemma asm_args: "n \<le> 6 \<Longrightarrow> map (rg (set_reg RAX v (LOAD_REGS_TYPES n args s))) (ASM_ARGS n) = map args [1..<Suc n]"
  by (elim le_cases6; simp add: LOAD_REGS_TYPES_def load_regs_defs upt_rec numeral_eq_Suc)

lemma load_regs_frame:
  "mem (LOAD_REGS_TYPES n args s) = mem s" "errno (LOAD_REGS_TYPES n args s) = errno s"
  "r \<notin> set [RDI, RSI, RDX, R10, R8, R9] \<Longrightarrow> rg (LOAD_REGS_TYPES n args s) r = rg s r"
  by (simp_all add: LOAD_REGS_TYPES_def load_regs_defs)

lemma load_regs_untyped: "LOAD_REGS = LOAD_REGS_TYPES"
  by (intro ext) (simp add: LOAD_REGS_def LOAD_REGS_TYPES_def load_regs_defs)

lemma inline_untyped: "INLINE_SYSCALL K name nr as s = INLINE_SYSCALL_TYPES K name nr (map (Pair long_int) as) s"
  unfolding INLINE_SYSCALL_def INLINE_SYSCALL_TYPES_def INTERNAL_SYSCALL_def INTERNAL_SYSCALL_TYPES_def
    INTERNAL_SYSCALL_NCS_def INTERNAL_SYSCALL_NCS_TYPES_def load_args_long load_regs_untyped by simp

text \<open>The registers a system call may change.\<close>

definition syscall_clobbers :: "reg set" where
  "syscall_clobbers = {RAX, RCX, R11, RDI, RSI, RDX, R10, R8, R9}"

lemma internal_types_spec:
  assumes "length as \<le> 6" and "eval_rl as s = (vs, u)"
    and "k_call K (long_int name) vs (mem u) = (r, m)"
  shows "\<exists>t. INTERNAL_SYSCALL_NCS_TYPES K name (length as) as s = Some (r, t) \<and> mem t = m \<and> errno t = errno u \<and>
     (\<forall>q. q \<notin> syscall_clobbers \<longrightarrow> rg t q = rg u q)"
proof -
  obtain args where a: "LOAD_ARGS_TYPES (length as) as s = Some (args, u)"
    "map args [1..<Suc (length as)] = vs"
    using load_args_types [OF assms(1,2)] by blast
  show ?thesis
    using a(2) assms(3) asm_args [OF assms(1), where v = "long_int name" and args = args and s = u]
    by (simp add: INTERNAL_SYSCALL_NCS_TYPES_def a(1) Let_def syscall_insn_def syscall_clobbers_def
        load_regs_frame del: upt_Suc)
qed

lemma inline_types_spec:
  assumes "length as \<le> 6" and "eval_rl as s = (vs, u)"
    and "syscall_spec K (sx name) vs (errno u) (mem u) = (v, e, m)"
  shows "\<exists>t. INLINE_SYSCALL_TYPES K name (length as) as s = Some (v, t) \<and> errno t = e \<and> mem t = m \<and>
     (\<forall>q. q \<notin> syscall_clobbers \<longrightarrow> rg t q = rg u q)"
proof -
  obtain r m' where k: "k_call K (long_int (CInt name)) vs (mem u) = (r, m')" by (metis surj_pair)
  from internal_types_spec [OF assms(1,2) k] obtain t where
    t: "INTERNAL_SYSCALL_TYPES K name (length as) as s = Some (r, t)" "mem t = m'" "errno t = errno u"
      "\<forall>q. q \<notin> syscall_clobbers \<longrightarrow> rg t q = rg u q"
    unfolding INTERNAL_SYSCALL_TYPES_def by blast
  from k assms(3) show ?thesis
    by (auto simp: INLINE_SYSCALL_TYPES_def t syscall_spec_def internal_syscall_error_p_def
        internal_syscall_errno_def neg_4095_le lo32_uminus split: if_splits)
qed

text \<open>The arguments of a stub, in the registers of a function call.\<close>

definition call_args :: "nat \<Rightarrow> ('m, 'z) mach_scheme \<Rightarrow> u64 list" where
  "call_args n s = map (rg s) (take n [RDI, RSI, RDX, RCX, R8, R9])"

lemma stub_args: "n \<le> 6 \<Longrightarrow> map (rg (set_reg RAX v (DOARGS n s))) (ASM_ARGS n) = call_args n s"
  by (elim le_cases6; simp add: DOARGS_def DOARGS_6_def DOARGS_5_def DOARGS_4_def call_args_def numeral_eq_Suc)

lemma doargs_frame:
  "mem (DOARGS n s) = mem s" "errno (DOARGS n s) = errno s" "r \<noteq> R10 \<Longrightarrow> rg (DOARGS n s) r = rg s r"
  by (simp_all add: DOARGS_def DOARGS_6_def DOARGS_5_def DOARGS_4_def)

lemma do_call_spec:
  assumes "n \<le> 6" and "k_call K (zx name) (call_args n s) (mem s) = (r, m)"
  shows "rg (DO_CALL K name n s) RAX = r" "mem (DO_CALL K name n s) = m"
    "errno (DO_CALL K name n s) = errno s"
    "q \<notin> {RAX, RCX, R10, R11} \<Longrightarrow> rg (DO_CALL K name n s) q = rg s q"
  using assms(2) stub_args [OF assms(1), where v = "zx name" and s = s]
  by (simp_all add: DO_CALL_def syscall_insn_def doargs_frame)

lemma stub_spec:
  assumes "n \<le> 6" and "syscall_spec K (zx name) (call_args n s) (errno s) (mem s) = (v, e, m)"
  shows "rg (PSEUDO off K name n s) RAX = v \<and> errno (PSEUDO off K name n s) = e \<and>
     mem (PSEUDO off K name n s) = m \<and>
     (\<forall>q. q \<notin> {RAX, RCX, R10, R11} \<longrightarrow> rg (PSEUDO off K name n s) q = rg s q)"
proof -
  obtain r m' where k: "k_call K (zx name) (call_args n s) (mem s) = (r, m')" by (metis surj_pair)
  note d = do_call_spec [OF assms(1) k]
  from k assms(2) show ?thesis
    by (auto simp: PSEUDO_def Let_def d syscall_spec_def neg_4095_le SYSCALL_ERROR_HANDLER_def
        SYSCALL_SET_ERRNO_def lo32_minus lo32_uminus split: if_splits)
qed

section \<open>The futex calls (lowlevellock-futex.h)\<close>

definition FUTEX_WAKE_BITSET :: i32 where "FUTEX_WAKE_BITSET = 10"
definition FUTEX_OP_CLEAR_WAKE_IF_GT_ONE :: i32 where "FUTEX_OP_CLEAR_WAKE_IF_GT_ONE = push_bit 24 4 OR 1"
definition FUTEX_BITSET_MATCH_ANY :: u32 where "FUTEX_BITSET_MATCH_ANY = 0xffffffff"
definition SYS_futex :: i32 where "SYS_futex = 202"

text \<open>
  The addresses and counts are expressions of the caller; the operation code is built from values that have no
  effects. \<open>NULL\<close> is a pointer, the last argument of a wake-up an \<open>int\<close>.
\<close>

abbreviation null :: "('m, 'z) expr" where "null \<equiv> const (CLong 0)"

definition lll_futex_syscall :: "'m kernel \<Rightarrow> nat \<Rightarrow> ('m, 'z) expr list \<Rightarrow> ('m, 'z) mach_scheme \<Rightarrow> ('m, 'z) result" where
  "lll_futex_syscall K nargs as s =
     (case INTERNAL_SYSCALL K SYS_futex nargs as s of None \<Rightarrow> None
      | Some (ret, s) \<Rightarrow> Some (lll_futex_syscall_value ret, s))"

definition lll_futex_timed_wait_k :: "'m kernel \<Rightarrow> ('m, 'z) expr \<Rightarrow> ('m, 'z) expr \<Rightarrow> ('m, 'z) expr \<Rightarrow> i32
    \<Rightarrow> ('m, 'z) mach_scheme \<Rightarrow> ('m, 'z) result" where
  "lll_futex_timed_wait_k K futexp val timeout private =
     lll_futex_syscall K 4 [futexp, const (CInt (lll_private_flag FUTEX_WAIT private)), val, timeout]"

definition lll_futex_wait_k :: "'m kernel \<Rightarrow> ('m, 'z) expr \<Rightarrow> ('m, 'z) expr \<Rightarrow> i32
    \<Rightarrow> ('m, 'z) mach_scheme \<Rightarrow> ('m, 'z) result" where
  "lll_futex_wait_k K futexp val private = lll_futex_timed_wait_k K futexp val null private"

definition lll_futex_timed_wait_bitset :: "'m kernel \<Rightarrow> ('m, 'z) expr \<Rightarrow> ('m, 'z) expr \<Rightarrow> ('m, 'z) expr \<Rightarrow> i32
    \<Rightarrow> i32 \<Rightarrow> ('m, 'z) mach_scheme \<Rightarrow> ('m, 'z) result" where
  "lll_futex_timed_wait_bitset K futexp val timeout clockbit private =
     lll_futex_syscall K 6 [futexp, const (CInt (lll_private_flag (FUTEX_WAIT_BITSET OR clockbit) private)),
       val, timeout, null, const (CUInt FUTEX_BITSET_MATCH_ANY)]"

definition lll_futex_wake_k :: "'m kernel \<Rightarrow> ('m, 'z) expr \<Rightarrow> ('m, 'z) expr \<Rightarrow> i32
    \<Rightarrow> ('m, 'z) mach_scheme \<Rightarrow> ('m, 'z) result" where
  "lll_futex_wake_k K futexp nr private =
     lll_futex_syscall K 4 [futexp, const (CInt (lll_private_flag FUTEX_WAKE private)), nr, const (CInt 0)]"

definition lll_futex_requeue :: "'m kernel \<Rightarrow> ('m, 'z) expr \<Rightarrow> ('m, 'z) expr \<Rightarrow> ('m, 'z) expr \<Rightarrow> ('m, 'z) expr
    \<Rightarrow> ('m, 'z) expr \<Rightarrow> i32 \<Rightarrow> ('m, 'z) mach_scheme \<Rightarrow> ('m, 'z) result" where
  "lll_futex_requeue K futexp nr_wake nr_move mutex val private =
     lll_futex_syscall K 6 [futexp, const (CInt (lll_private_flag FUTEX_CMP_REQUEUE private)),
       nr_wake, nr_move, mutex, val]"

definition lll_futex_wake_unlock :: "'m kernel \<Rightarrow> ('m, 'z) expr \<Rightarrow> ('m, 'z) expr \<Rightarrow> ('m, 'z) expr \<Rightarrow> ('m, 'z) expr
    \<Rightarrow> i32 \<Rightarrow> ('m, 'z) mach_scheme \<Rightarrow> ('m, 'z) result" where
  "lll_futex_wake_unlock K futexp nr_wake nr_wake2 futexp2 private =
     lll_futex_syscall K 6 [futexp, const (CInt (lll_private_flag FUTEX_WAKE_OP private)),
       nr_wake, nr_wake2, futexp2, const (CInt FUTEX_OP_CLEAR_WAKE_IF_GT_ONE)]"

definition lll_futex_timed_wait_requeue_pi :: "'m kernel \<Rightarrow> ('m, 'z) expr \<Rightarrow> ('m, 'z) expr \<Rightarrow> ('m, 'z) expr
    \<Rightarrow> i32 \<Rightarrow> ('m, 'z) expr \<Rightarrow> i32 \<Rightarrow> ('m, 'z) mach_scheme \<Rightarrow> ('m, 'z) result" where
  "lll_futex_timed_wait_requeue_pi K futexp val timeout clockbit mutex private =
     lll_futex_syscall K 5 [futexp, const (CInt (lll_private_flag (FUTEX_WAIT_REQUEUE_PI OR clockbit) private)),
       val, timeout, mutex]"

definition lll_futex_wait_requeue_pi :: "'m kernel \<Rightarrow> ('m, 'z) expr \<Rightarrow> ('m, 'z) expr \<Rightarrow> ('m, 'z) expr
    \<Rightarrow> i32 \<Rightarrow> ('m, 'z) mach_scheme \<Rightarrow> ('m, 'z) result" where
  "lll_futex_wait_requeue_pi K futexp val mutex private =
     lll_futex_timed_wait_requeue_pi K futexp val null 0 mutex private"

definition lll_futex_cmp_requeue_pi :: "'m kernel \<Rightarrow> ('m, 'z) expr \<Rightarrow> ('m, 'z) expr \<Rightarrow> ('m, 'z) expr \<Rightarrow> ('m, 'z) expr
    \<Rightarrow> ('m, 'z) expr \<Rightarrow> i32 \<Rightarrow> ('m, 'z) mach_scheme \<Rightarrow> ('m, 'z) result" where
  "lll_futex_cmp_requeue_pi K futexp nr_wake nr_move mutex val private =
     lll_futex_syscall K 6 [futexp, const (CInt (lll_private_flag FUTEX_CMP_REQUEUE_PI private)),
       nr_wake, nr_move, mutex, val]"

text \<open>\<open>lll_wait_tid\<close>: wait until the kernel has cleared the word \<open>tid\<close> of a thread that ends.\<close>

fun lll_wait_tid :: "nat \<Rightarrow> 's cell \<Rightarrow> 's \<Rightarrow> (unit, 's) out" where
  "lll_wait_tid 0 C s = Stuck"
| "lll_wait_tid (Suc n) C s =
     (case loadl C s of (tid, s) \<Rightarrow>
        if tid \<noteq> 0 then lll_wait_tid n C (lll_futex_wait C tid LLL_SHARED s) else Ret () s)"

text \<open>Its version with a timeout; the wait itself, \<open>__lll_timedwait_tid\<close>, is an argument (its code is disabled).\<close>

definition lll_timedwait_tid :: "(i64 \<Rightarrow> i64 \<Rightarrow> 's \<Rightarrow> i32 \<times> 's) \<Rightarrow> 's cell \<Rightarrow> i64 \<Rightarrow> i64 \<Rightarrow> 's \<Rightarrow> i32 \<times> 's" where
  "lll_timedwait_tid wait C tv_sec tv_nsec s =
     (case loadl C s of (tid, s) \<Rightarrow>
        if tid \<noteq> 0 then
          if tv_nsec <s 0 \<or> 1000000000 \<le>s tv_nsec then (EINVAL, s) else wait tv_sec tv_nsec s
        else (0, s))"

lemma lll_futex_syscall_spec:
  assumes "length as \<le> 6" and "eval_rl (map (Pair long_int) as) s = (vs, u)"
    and "k_call K 202 vs (mem u) = (r, m)"
  shows "\<exists>t. lll_futex_syscall K (length as) as s = Some (if - 4095 \<le> sint r \<and> sint r \<le> - 1 then r else 0, t) \<and>
     mem t = m \<and> errno t = errno u \<and> (\<forall>q. q \<notin> syscall_clobbers \<longrightarrow> rg t q = rg u q)"
proof -
  have n: "long_int (CInt SYS_futex) = 202" by (simp add: SYS_futex_def sx_def)
  have l: "length (map (Pair long_int) as) \<le> 6" using assms(1) by simp
  have k: "k_call K (long_int (CInt SYS_futex)) vs (mem u) = (r, m)" unfolding n by (rule assms(3))
  from internal_types_spec [OF l assms(2) k] obtain t where
    "INTERNAL_SYSCALL_NCS_TYPES K (CInt SYS_futex) (length as) (map (Pair long_int) as) s = Some (r, t)"
    "mem t = m" "errno t = errno u" "\<forall>q. q \<notin> syscall_clobbers \<longrightarrow> rg t q = rg u q"
    by auto
  moreover have "INTERNAL_SYSCALL K SYS_futex (length as) as s
      = INTERNAL_SYSCALL_NCS_TYPES K (CInt SYS_futex) (length as) (map (Pair long_int) as) s"
    unfolding INTERNAL_SYSCALL_def INTERNAL_SYSCALL_NCS_def INTERNAL_SYSCALL_NCS_TYPES_def load_args_long
      load_regs_untyped by simp
  ultimately show ?thesis
    by (simp add: lll_futex_syscall_def lll_futex_syscall_value_def internal_syscall_error_p_def
        internal_syscall_errno_def neg_4095_le)
qed

text \<open>
  The kernel as the lock model of \<open>LowLevelLock\<close> sees it: of a futex call it records the operation and the
  third argument. The memory is the state of the cell.
\<close>

definition cell_kernel :: "'s cell \<Rightarrow> (u64 list \<Rightarrow> 's \<Rightarrow> u64) \<Rightarrow> 's kernel" where
  "cell_kernel C f = \<lparr>k_call = (\<lambda>nr vs m. (f vs m,
       if nr = 202 then c_sys C (FCall (lo32 (vs ! 1)) (lo32 (vs ! 2))) m else m)),
     k_rcx = (\<lambda>_. 0), k_r11 = (\<lambda>_. 0)\<rparr>"

definition futex_result :: "u64 \<Rightarrow> u64" where
  "futex_result r = (if - 4095 \<le> sint r \<and> sint r \<le> - 1 then r else 0)"

lemma const_eval [simp]: "const v s = (v, s)"
  by (simp add: const_def)

lemma futex_const:
  assumes "k_call K 202 (map long_int vs) (mem s) = (r, m)" and "n = length vs" and "n \<le> 6"
  shows "\<exists>t. lll_futex_syscall K n (map const vs) s = Some (futex_result r, t) \<and> mem t = m"
proof -
  have ev: "eval_rl (map (Pair long_int) (map const vs)) s = (map long_int vs, s)"
    by (induction vs) simp_all
  show ?thesis
    using lll_futex_syscall_spec [of "map const vs", OF _ ev assms(1)] assms(2,3)
    by (auto simp: futex_result_def)
qed

lemma futex_wait_refines:
  "\<exists>t. lll_futex_wait_k (cell_kernel C f) (const (CLong a)) (const (CInt v)) pv s
       = Some (futex_result (f [a, sx (lll_private_flag FUTEX_WAIT pv), sx v, 0] (mem s)), t) \<and>
     mem t = lll_futex_wait C v pv (mem s)"
  using futex_const [of "cell_kernel C f" "[CLong a, CInt (lll_private_flag FUTEX_WAIT pv), CInt v, CLong 0]" s _ _ 4]
  by (simp add: lll_futex_wait_k_def lll_futex_timed_wait_k_def lll_futex_wait_def)
    (simp add: cell_kernel_def)

lemma futex_wake_refines:
  "\<exists>t. lll_futex_wake_k (cell_kernel C f) (const (CLong a)) (const (CInt nr)) pv s
       = Some (futex_result (f [a, sx (lll_private_flag FUTEX_WAKE pv), sx nr, sx 0] (mem s)), t) \<and>
     mem t = lll_futex_wake C nr pv (mem s)"
  using futex_const [of "cell_kernel C f" "[CLong a, CInt (lll_private_flag FUTEX_WAKE pv), CInt nr, CInt 0]" s _ _ 4]
  by (simp add: lll_futex_wake_k_def lll_futex_wake_def) (simp add: cell_kernel_def)

text \<open>The calls with more arguments, for a kernel that records what it is given.\<close>

definition log_kernel :: "(u64 list \<Rightarrow> u64) \<Rightarrow> (u64 \<times> u64 list) list kernel" where
  "log_kernel f = \<lparr>k_call = (\<lambda>nr vs m. (f vs, (nr, vs) # m)), k_rcx = (\<lambda>_. 0), k_r11 = (\<lambda>_. 0)\<rparr>"

lemma futex_logged:
  "n = length vs \<Longrightarrow> n \<le> 6 \<Longrightarrow> \<exists>t. lll_futex_syscall (log_kernel f) n (map const vs) s
     = Some (futex_result (f (map long_int vs)), t) \<and> mem t = (202, map long_int vs) # mem s"
  using futex_const [of "log_kernel f" vs s] by (simp add: log_kernel_def)

lemma futex_wait_bitset_args:
  "\<exists>t. lll_futex_timed_wait_bitset (log_kernel f) (const (CLong a)) (const (CInt v)) (const (CLong tm)) clockbit private s
       = Some (futex_result (f vs), t) \<and> mem t = (202, vs) # mem s"
  if "vs = [a, sx (lll_private_flag (FUTEX_WAIT_BITSET OR clockbit) private), sx v, tm, 0, 0xffffffff]"
  using futex_logged [of 6 "[CLong a, CInt (lll_private_flag (FUTEX_WAIT_BITSET OR clockbit) private), CInt v,
      CLong tm, CLong 0, CUInt FUTEX_BITSET_MATCH_ANY]" f s] that
  by (simp add: lll_futex_timed_wait_bitset_def FUTEX_BITSET_MATCH_ANY_def zx_def)

lemma futex_wake_unlock_args:
  "\<exists>t. lll_futex_wake_unlock (log_kernel f) (const (CLong a)) (const (CInt n1)) (const (CInt n2)) (const (CLong a2)) private s
       = Some (futex_result (f vs), t) \<and> mem t = (202, vs) # mem s"
  if "vs = [a, sx (lll_private_flag FUTEX_WAKE_OP private), sx n1, sx n2, a2, 0x4000001]"
  using futex_logged [of 6 "[CLong a, CInt (lll_private_flag FUTEX_WAKE_OP private), CInt n1, CInt n2, CLong a2,
      CInt FUTEX_OP_CLEAR_WAKE_IF_GT_ONE]" f s] that
  by (simp add: lll_futex_wake_unlock_def FUTEX_OP_CLEAR_WAKE_IF_GT_ONE_def sx_def)

lemma futex_requeue_args:
  "\<exists>t. lll_futex_requeue (log_kernel f) (const (CLong a)) (const (CInt n1)) (const (CInt n2)) (const (CLong m)) (const (CInt v)) private s
       = Some (futex_result (f vs), t) \<and> mem t = (202, vs) # mem s"
  "\<exists>t. lll_futex_cmp_requeue_pi (log_kernel f) (const (CLong a)) (const (CInt n1)) (const (CInt n2)) (const (CLong m)) (const (CInt v)) private s
       = Some (futex_result (f ws), t) \<and> mem t = (202, ws) # mem s"
  if "vs = [a, sx (lll_private_flag FUTEX_CMP_REQUEUE private), sx n1, sx n2, m, sx v]"
    and "ws = [a, sx (lll_private_flag FUTEX_CMP_REQUEUE_PI private), sx n1, sx n2, m, sx v]"
  using futex_logged [of 6 "[CLong a, CInt (lll_private_flag FUTEX_CMP_REQUEUE private), CInt n1, CInt n2, CLong m, CInt v]" f s]
    futex_logged [of 6 "[CLong a, CInt (lll_private_flag FUTEX_CMP_REQUEUE_PI private), CInt n1, CInt n2, CLong m, CInt v]" f s] that
  by (simp_all add: lll_futex_requeue_def lll_futex_cmp_requeue_pi_def)

lemma futex_wait_requeue_pi_args:
  "\<exists>t. lll_futex_wait_requeue_pi (log_kernel f) (const (CLong a)) (const (CInt v)) (const (CLong m)) private s
       = Some (futex_result (f vs), t) \<and> mem t = (202, vs) # mem s"
  if "vs = [a, sx (lll_private_flag FUTEX_WAIT_REQUEUE_PI private), sx v, 0, m]"
  using futex_logged [of 5 "[CLong a, CInt (lll_private_flag FUTEX_WAIT_REQUEUE_PI private), CInt v, CLong 0, CLong m]" f s] that
  by (simp add: lll_futex_wait_requeue_pi_def lll_futex_timed_wait_requeue_pi_def)

text \<open>\<open>lll_wait_tid\<close> returns only when the word is 0, and calls the kernel with the value just read.\<close>

lemma wait_tid_post: "futex_cell C \<Longrightarrow> lll_wait_tid n C s = Ret () t \<Longrightarrow> c_rd C t = 0"
  by (induction n arbitrary: s) (auto simp: loadl_def Let_def split: if_splits)

lemma timedwait_tid_exact:
  "lll_timedwait_tid wait C sec nsec s =
     (let t = c_tick C s in
      if c_rd C t = 0 then (0, t)
      else if sint nsec < 0 \<or> 1000000000 \<le> sint nsec then (EINVAL, t) else wait sec nsec t)"
  by (simp add: lll_timedwait_tid_def loadl_def Let_def word_sless_alt word_sle_eq)

section \<open>Properties\<close>

text \<open>
  Futex calls of the lock. What the lock model records for a wait and a wake-up is what the macros
  \<open>lll_futex_wait\<close> and \<open>lll_futex_wake\<close> hand to the kernel: the operation with its private flag in the low half
  of the second argument, the value or the count in the third, no timeout. They give 0, or the kernel's
  error when the result is one (from -4095 to -1).
\<close>

lemma futex_calls_refine:
  "(\<exists>t. lll_futex_wait_k (cell_kernel C f) (const (CLong a)) (const (CInt v)) private s
       = Some (futex_result (f [a, sx (lll_private_flag FUTEX_WAIT private), sx v, 0] (mem s)), t) \<and>
     mem t = lll_futex_wait C v private (mem s)) \<and>
   (\<exists>t. lll_futex_wake_k (cell_kernel C f) (const (CLong a)) (const (CInt nr)) private s
       = Some (futex_result (f [a, sx (lll_private_flag FUTEX_WAKE private), sx nr, 0] (mem s)), t) \<and>
     mem t = lll_futex_wake C nr private (mem s))"
  using futex_wait_refines [where C = C and f = f and a = a and v = v and pv = "private" and s = s]
    futex_wake_refines [where C = C and f = f and a = a and nr = nr and pv = "private" and s = s]
  by (simp add: sx_def)

text \<open>
  Inline system calls. An inline system call with up to six arguments, whatever computing them does to
  memory and registers: the arguments are computed from the last to the first, then the kernel is called
  once with exactly their values as \<open>long\<close> in order. A result from -4095 to -1 is turned into -1 with its
  absolute value in \<open>errno\<close>, any other is returned and leaves \<open>errno\<close> alone. Registers that are neither
  argument registers nor destroyed by the instruction keep the values that the arguments left.
\<close>

lemma inline_syscall_exact:
  assumes "length as \<le> 6" and "eval_rl (map (Pair long_int) as) s = (vs, u)"
    and "syscall_spec K (sx name) vs (errno u) (mem u) = (v, e, m)"
  shows "\<exists>t. INLINE_SYSCALL K name (length as) as s = Some (v, t) \<and> errno t = e \<and> mem t = m \<and>
     (\<forall>q. q \<notin> syscall_clobbers \<longrightarrow> rg t q = rg u q)"
  using inline_types_spec [of "map (Pair long_int) as" s vs u K name v e m] assms
  by (simp add: inline_untyped)

definition demo_kernel :: "nat kernel" where
  "demo_kernel = \<lparr>k_call = (\<lambda>nr vs m. if vs = [5, - 1] then (- 22, m + 10) else (nr, m)), k_rcx = (\<lambda>_. 7), k_r11 = (\<lambda>_. 8)\<rparr>"

definition demo_mach :: "nat mach" where
  "demo_mach = \<lparr>rg = (\<lambda>_. 0), errno = 0, mem = 5\<rparr>"

text \<open>
  Stubs and inline calls agree. The function that \<open>PSEUDO\<close> makes, called with its up to six arguments in the
  registers of a function call (the fourth in \<open>rcx\<close>, which the instruction destroys), returns the same value, leaves
  the same \<open>errno\<close> and the same memory as the inline call with these arguments, and it keeps every register
  that a function must keep. \<open>PSEUDO_NOERRNO\<close> returns the kernel's result as it is, \<open>PSEUDO_ERRVAL\<close> its negation.
\<close>

lemma stub_agrees_inline:
  assumes "n \<le> 6" and "0 \<le>s name"
  shows "\<exists>v t. INLINE_SYSCALL K name n (map (const \<circ> CLong) (call_args n s)) s = Some (v, t) \<and>
     rg (PSEUDO off K name n s) RAX = v \<and> errno (PSEUDO off K name n s) = errno t \<and>
     mem (PSEUDO off K name n s) = mem t \<and>
     (\<forall>q \<in> {RBX, RSP, RBP, R12, R13, R14, R15}. rg (PSEUDO off K name n s) q = rg s q) \<and>
     rg (PSEUDO_NOERRNO K name n s) RAX = fst (k_call K (zx name) (call_args n s) (mem s)) \<and>
     rg (PSEUDO_ERRVAL K name n s) RAX = - fst (k_call K (zx name) (call_args n s) (mem s))"
proof -
  have sz: "sx name = zx name" by (rule sx_zx [OF assms(2)])
  have len: "length (call_args n s) = n" using assms(1) by (simp add: call_args_def)
  have ev: "eval_rl (map (Pair long_int) (map (const \<circ> CLong) vs)) s = (vs, s)" for vs
    by (induction vs) (simp_all add: const_def)
  obtain v e m where sp: "syscall_spec K (zx name) (call_args n s) (errno s) (mem s) = (v, e, m)"
    by (metis surj_pair)
  obtain t where t: "INLINE_SYSCALL K name n (map (const \<circ> CLong) (call_args n s)) s = Some (v, t)"
      "errno t = e" "mem t = m"
    using inline_types_spec [of "map (Pair long_int) (map (const \<circ> CLong) (call_args n s))" s _ s K name v e m]
      ev sp assms(1) sz len by (auto simp: inline_untyped)
  obtain r m' where k: "k_call K (zx name) (call_args n s) (mem s) = (r, m')" by (metis surj_pair)
  show ?thesis
    using t stub_spec [OF assms(1) sp, of off] do_call_spec(1) [OF assms(1) k] k
    by (simp add: PSEUDO_NOERRNO_def PSEUDO_ERRVAL_def Let_def)
qed

end
