(* ===== verification/LockAsm.thy ===== *)
theory LockAsm
  imports Syscalls
begin

unbundle bit_operations_syntax

text \<open>
  The machine code of the lock: the routines of \<open>source/lowlevellock.S\<close> and the inline assembler of
  \<open>source/lowlevellock.h\<close> that calls them, instruction by instruction, on the registers of \<open>Syscalls\<close>, a stack and
  a lock word.

  \<open>LowLevelLock\<close> says in terms of the word alone what these sequences do. Here that is proved of the
  instructions: a sequence returns exactly if its description does, with the same state; it returns to its
  caller; and it changes no register beyond those that the operands and the clobber list of the inline
  assembler name, and no memory but the lock word and three slots of the stack below the red zone.
\<close>

section \<open>The machine\<close>

record 's amach = "'s mach" +
  zf :: bool
  stk :: "u64 \<Rightarrow> u64"

datatype insn =
    MovlImm i32 reg | MovlRR reg reg | XorlImm i32 reg | XorqRR reg reg
  | CmplRR reg reg | TestlRR reg reg | Jz nat | Jnz nat
  | Pushq reg | Popq reg | SubqImm u64 reg | AddqImm u64 reg | Retq | Callq "insn list"
  | Lea reg
  | LockCmpxchgl reg | Xchgl reg | LockDecl | LockAndl i32 | MovlMem i32
  | SyscallI

text \<open>
  What the code runs on: the word it works on, at the address \<open>a_lock\<close>; the kernel's results; the return addresses
  of the call of a routine and of the calls it makes. The instructions without a register operand for
  memory work on the word that \<open>%rdi\<close> points to or, in the inline sequences, on the operand \<open>futex\<close>.
\<close>

record 's code_env =
  a_cell :: "'s cell"
  a_lock :: u64
  a_res :: "'s \<Rightarrow> u64"
  a_rcx :: "'s \<Rightarrow> u64"
  a_r11 :: "'s \<Rightarrow> u64"
  a_ret :: u64

text \<open>A futex call on the word. A wait must not have a timeout in \<open>%r10\<close>; the wake-up does not read it.\<close>

definition futex_ok :: "'s code_env \<Rightarrow> 's amach \<Rightarrow> bool" where
  "futex_ok A m \<longleftrightarrow> rg m RAX = zx SYS_futex \<and> rg m RDI = a_lock A \<and>
     (lo32 (rg m RSI) AND NOT FUTEX_PRIVATE_FLAG = FUTEX_WAIT \<longrightarrow> rg m R10 = 0)"

definition futex_insn :: "'s code_env \<Rightarrow> 's amach \<Rightarrow> 's amach" where
  "futex_insn A m =
     m\<lparr>rg := (rg m)(RAX := a_res A (mem m), RCX := a_rcx A (mem m), R11 := a_r11 A (mem m)),
       mem := c_sys (a_cell A) (FCall (lo32 (rg m RSI)) (lo32 (rg m RDX))) (mem m)\<rparr>"

definition push :: "u64 \<Rightarrow> 's amach \<Rightarrow> 's amach" where
  "push v m = (let p = rg m RSP - 8 in (set_reg RSP p m)\<lparr>stk := (stk m)(p := v)\<rparr>)"

definition cmpxchgl_insn :: "'s code_env \<Rightarrow> reg \<Rightarrow> 's amach \<Rightarrow> 's amach" where
  "cmpxchgl_insn A r m =
     (case cmpxchg (a_cell A) (lo32 (rg m r)) (lo32 (rg m RAX)) (mem m) of (v, s) \<Rightarrow>
        (if v = lo32 (rg m RAX) then m\<lparr>mem := s, zf := True\<rparr> else (set_reg RAX (zx v) m)\<lparr>mem := s, zf := False\<rparr>))"

text \<open>What one instruction does: go on at a position, return, call a routine, or fault.\<close>

datatype 's effect = Next nat "'s amach" | Done "'s amach" | Enter "insn list" "'s amach" | Fault

definition ok_next :: "bool \<Rightarrow> nat \<Rightarrow> 's amach \<Rightarrow> 's effect" where
  "ok_next b pc m = (if b then Next pc m else Fault)"

fun exec :: "'s code_env \<Rightarrow> u64 \<Rightarrow> nat \<Rightarrow> 's amach \<Rightarrow> insn \<Rightarrow> 's effect" where
  "exec A ra pc m (MovlImm v r) = Next (Suc pc) (set_reg r (zx v) m)"
| "exec A ra pc m (MovlRR r q) = Next (Suc pc) (set_reg q (zx (lo32 (rg m r))) m)"
| "exec A ra pc m (XorlImm v r) = Next (Suc pc) (set_reg r (zx (lo32 (rg m r) XOR v)) m)"
| "exec A ra pc m (XorqRR r q) = Next (Suc pc) (set_reg q (rg m q XOR rg m r) m)"
| "exec A ra pc m (CmplRR r q) = Next (Suc pc) (m\<lparr>zf := (lo32 (rg m q) = lo32 (rg m r))\<rparr>)"
| "exec A ra pc m (TestlRR r q) = Next (Suc pc) (m\<lparr>zf := (lo32 (rg m q) AND lo32 (rg m r) = 0)\<rparr>)"
| "exec A ra pc m (Jz l) = Next (if zf m then l else Suc pc) m"
| "exec A ra pc m (Jnz l) = Next (if zf m then Suc pc else l) m"
| "exec A ra pc m (Pushq r) = Next (Suc pc) (push (rg m r) m)"
| "exec A ra pc m (Popq r) = Next (Suc pc) (m\<lparr>rg := (rg m)(RSP := rg m RSP + 8, r := stk m (rg m RSP))\<rparr>)"
| "exec A ra pc m (SubqImm v r) = Next (Suc pc) (set_reg r (rg m r - v) m)"
| "exec A ra pc m (AddqImm v r) = Next (Suc pc) (set_reg r (rg m r + v) m)"
| "exec A ra pc m Retq = (if stk m (rg m RSP) = ra then Done (set_reg RSP (rg m RSP + 8) m) else Fault)"
| "exec A ra pc m (Callq Q) = Enter Q (push (a_ret A) m)"
| "exec A ra pc m (Lea r) = Next (Suc pc) (set_reg r (a_lock A) m)"
| "exec A ra pc m (LockCmpxchgl r) = Next (Suc pc) (cmpxchgl_insn A r m)"
| "exec A ra pc m (Xchgl r) =
     (case xchgl (a_cell A) (lo32 (rg m r)) (mem m) of (v, s) \<Rightarrow>
        ok_next (rg m RDI = a_lock A) (Suc pc) ((set_reg r (zx v) m)\<lparr>mem := s\<rparr>))"
| "exec A ra pc m LockDecl = (case decl (a_cell A) (mem m) of (v, s) \<Rightarrow> Next (Suc pc) (m\<lparr>mem := s, zf := (v = 0)\<rparr>))"
| "exec A ra pc m (LockAndl i) = (case andl (a_cell A) i (mem m) of (v, s) \<Rightarrow> Next (Suc pc) (m\<lparr>mem := s, zf := (v = 0)\<rparr>))"
| "exec A ra pc m (MovlMem v) = ok_next (rg m RDI = a_lock A) (Suc pc) (m\<lparr>mem := storel (a_cell A) v (mem m)\<rparr>)"
| "exec A ra pc m SyscallI = ok_next (futex_ok A m) (Suc pc) (futex_insn A m)"

text \<open>
  \<open>run k A ra P pc m\<close> runs the program \<open>P\<close> from position \<open>pc\<close> for at most \<open>k\<close> instructions; \<open>ra\<close> is the
  address it has to return to. A program that has no \<open>retq\<close> (an inline sequence) ends at its last
  position.
\<close>

fun run :: "nat \<Rightarrow> 's code_env \<Rightarrow> u64 \<Rightarrow> insn list \<Rightarrow> nat \<Rightarrow> 's amach \<Rightarrow> (unit, 's amach) out" where
  "run 0 A ra P pc m = Stuck"
| "run (Suc k) A ra P pc m =
     (if length P \<le> pc then Ret () m else
      case exec A ra pc m (P ! pc) of
        Next pc m \<Rightarrow> run k A ra P pc m
      | Done m \<Rightarrow> Ret () m
      | Enter Q m \<Rightarrow> bnd (run k A (a_ret A) Q 0 m) (\<lambda>_ m. run k A ra P (Suc pc) m)
      | Fault \<Rightarrow> Abort)"

section \<open>The routines (lowlevellock.S)\<close>

definition lock_wait_private_code :: "insn list" where
  "lock_wait_private_code =
    [Pushq R10, Pushq RDX, XorqRR R10 R10, MovlImm 2 RDX, MovlImm LOAD_PRIVATE_FUTEX_WAIT RSI,
     CmplRR RDX RAX, Jnz 9,
     MovlImm SYS_futex RAX, SyscallI,
     MovlRR RDX RAX, Xchgl RAX, TestlRR RAX RAX, Jnz 7,
     Popq RDX, Popq R10, Retq]"

definition lock_wait_code :: "insn list" where
  "lock_wait_code =
    [Pushq R10, Pushq RDX, XorqRR R10 R10, MovlImm 2 RDX, XorlImm (FUTEX_WAIT OR FUTEX_PRIVATE_FLAG) RSI,
     CmplRR RDX RAX, Jnz 9,
     MovlImm SYS_futex RAX, SyscallI,
     MovlRR RDX RAX, Xchgl RAX, TestlRR RAX RAX, Jnz 7,
     Popq RDX, Popq R10, Retq]"

definition unlock_wake_private_code :: "insn list" where
  "unlock_wake_private_code =
    [Pushq RSI, Pushq RDX,
     MovlMem 0, MovlImm LOAD_PRIVATE_FUTEX_WAKE RSI, MovlImm 1 RDX, MovlImm SYS_futex RAX, SyscallI,
     Popq RDX, Popq RSI, Retq]"

definition unlock_wake_code :: "insn list" where
  "unlock_wake_code =
    [Pushq RSI, Pushq RDX,
     MovlMem 0, XorlImm (FUTEX_WAKE OR FUTEX_PRIVATE_FLAG) RSI, MovlImm 1 RDX, MovlImm SYS_futex RAX, SyscallI,
     Popq RDX, Popq RSI, Retq]"

section \<open>The inline sequences (lowlevellock.h)\<close>

text \<open>After the locked instruction: jump over the call, or step over the red zone and call the routine.\<close>

definition slow_path :: "insn list \<Rightarrow> insn list" where
  "slow_path routine = [Jz 6, Lea RDI, SubqImm 128 RSP, Callq routine, AddqImm 128 RSP]"

text \<open>
  The registers that the operands of the sequences name: the value for the free word is in \<open>%esi\<close> for the constant
  \<open>LLL_PRIVATE\<close> and in \<open>%edi\<close> otherwise, \<open>%esi\<close> then being \<open>private\<close>; \<open>%eax\<close> is 0.
\<close>

definition lll_lock_code :: "bool \<Rightarrow> insn list" where
  "lll_lock_code const_private =
     (if const_private then LockCmpxchgl RSI # slow_path lock_wait_private_code
      else LockCmpxchgl RDI # slow_path lock_wait_code)"

definition lll_lock_ops :: "bool \<Rightarrow> i32 \<Rightarrow> 's amach \<Rightarrow> 's amach" where
  "lll_lock_ops const_private private m =
     (if const_private then m\<lparr>rg := (rg m)(RSI := zx 1, RAX := zx 0)\<rparr>
      else m\<lparr>rg := (rg m)(RDI := zx 1, RAX := zx 0, RSI := zx private)\<rparr>)"

definition lll_cond_lock_code :: "insn list" where
  "lll_cond_lock_code = LockCmpxchgl RDI # slow_path lock_wait_code"

definition lll_cond_lock_ops :: "i32 \<Rightarrow> 's amach \<Rightarrow> 's amach" where
  "lll_cond_lock_ops private m = m\<lparr>rg := (rg m)(RDI := zx 2, RAX := zx 0, RSI := zx private)\<rparr>"

definition lll_unlock_code :: "bool \<Rightarrow> insn list" where
  "lll_unlock_code const_private =
     LockDecl # slow_path (if const_private then unlock_wake_private_code else unlock_wake_code)"

definition lll_unlock_ops :: "bool \<Rightarrow> i32 \<Rightarrow> 's amach \<Rightarrow> 's amach" where
  "lll_unlock_ops const_private private m = (if const_private then m else set_reg RSI (zx private) m)"

definition lll_robust_unlock_code :: "insn list" where
  "lll_robust_unlock_code = LockAndl FUTEX_WAITERS # slow_path unlock_wake_code"

definition lll_robust_unlock_ops :: "i32 \<Rightarrow> 's amach \<Rightarrow> 's amach" where
  "lll_robust_unlock_ops private m = set_reg RSI (zx private) m"

section \<open>Running\<close>

definition runs :: "'s code_env \<Rightarrow> u64 \<Rightarrow> insn list \<Rightarrow> nat \<Rightarrow> 's amach \<Rightarrow> 's amach \<Rightarrow> bool" where
  "runs A ra P pc m m' \<longleftrightarrow> (\<exists>k. run k A ra P pc m = Ret () m')"

lemma run_mono: "run k A ra P pc m = Ret () m' \<Longrightarrow> k \<le> k' \<Longrightarrow> run k' A ra P pc m = Ret () m'"
proof (induction k arbitrary: k' ra P pc m m')
  case 0
  then show ?case by simp
next
  case (Suc k)
  from Suc.prems(2) obtain j where j: "k' = Suc j" "k \<le> j" by (cases k') auto
  show ?case
  proof (cases "length P \<le> pc")
    case True
    with Suc.prems(1) j show ?thesis by simp
  next
    case False
    show ?thesis
    proof (cases "exec A ra pc m (P ! pc)")
      case (Enter Q m1)
      with Suc.prems(1) False obtain m2 where
        "run k A (a_ret A) Q 0 m1 = Ret () m2" "run k A ra P (Suc pc) m2 = Ret () m'"
        by (auto simp: bnd_eq_Ret)
      with Suc.IH [OF _ j(2)] Enter False j(1) show ?thesis by simp
    qed (use Suc.prems(1) False j(1) Suc.IH [OF _ j(2)] in simp_all)
  qed
qed

lemma runs_fun: "runs A ra P pc m m1 \<Longrightarrow> runs A ra P pc m m2 \<Longrightarrow> m1 = m2"
  unfolding runs_def by (metis run_mono linear out.inject(1))

text \<open>One step of a run, in both directions.\<close>

lemma runs_Suc: "runs A ra P pc m m' \<longleftrightarrow> (\<exists>k. run (Suc k) A ra P pc m = Ret () m')"
  unfolding runs_def by (metis run.simps(1) out.distinct(3) not0_implies_Suc)

lemma runs_end: "length P \<le> pc \<Longrightarrow> runs A ra P pc m m' \<longleftrightarrow> m' = m"
  by (auto simp: runs_Suc)

lemma runs_next:
  "pc < length P \<Longrightarrow> exec A ra pc m (P ! pc) = Next pc' m1 \<Longrightarrow> runs A ra P pc m m' \<longleftrightarrow> runs A ra P pc' m1 m'"
  by (simp add: runs_Suc [of A ra P pc]) (simp add: runs_def)

lemma runs_done:
  "pc < length P \<Longrightarrow> exec A ra pc m (P ! pc) = Done m1 \<Longrightarrow> runs A ra P pc m m' \<longleftrightarrow> m' = m1"
  by (auto simp: runs_Suc)

lemma runs_enter:
  assumes "pc < length P" and "exec A ra pc m (P ! pc) = Enter Q m1"
  shows "runs A ra P pc m m' \<longleftrightarrow> (\<exists>m2. runs A (a_ret A) Q 0 m1 m2 \<and> runs A ra P (Suc pc) m2 m')"
proof
  assume "runs A ra P pc m m'"
  then show "\<exists>m2. runs A (a_ret A) Q 0 m1 m2 \<and> runs A ra P (Suc pc) m2 m'"
    using assms by (auto simp: runs_Suc [of A ra P pc] out_ret) (auto simp: runs_def)
next
  assume "\<exists>m2. runs A (a_ret A) Q 0 m1 m2 \<and> runs A ra P (Suc pc) m2 m'"
  then obtain m2 j k where "run j A (a_ret A) Q 0 m1 = Ret () m2" "run k A ra P (Suc pc) m2 = Ret () m'"
    by (auto simp: runs_def)
  then have "run (Suc (max j k)) A ra P pc m = Ret () m'"
    using assms by (simp add: run_mono [of j _ _ _ _ _ _ "max j k"] run_mono [of k _ _ _ _ _ _ "max j k"])
  then show "runs A ra P pc m m'" unfolding runs_def by blast
qed

lemma run_next:
  "run k A ra P pc m = Ret () m' \<Longrightarrow> pc < length P \<Longrightarrow> exec A ra pc m (P ! pc) = Next pc' m1 \<Longrightarrow>
     \<exists>j<k. run j A ra P pc' m1 = Ret () m'"
  by (cases k) auto

section \<open>The waiting loop\<close>

text \<open>Both waiting routines are the same from position 5 on.\<close>

definition waits :: "insn list \<Rightarrow> bool" where
  "waits P \<longleftrightarrow> length P = 16 \<and> drop 5 P = [CmplRR RDX RAX, Jnz 9, MovlImm SYS_futex RAX, SyscallI,
     MovlRR RDX RAX, Xchgl RAX, TestlRR RAX RAX, Jnz 7, Popq RDX, Popq R10, Retq]"

lemma waits_code: "waits lock_wait_private_code" "waits lock_wait_code"
  by (simp_all add: waits_def lock_wait_private_code_def lock_wait_code_def)

lemma waits_nth:
  assumes "waits P"
  shows "length P = 16" "P ! 5 = CmplRR RDX RAX" "P ! 6 = Jnz 9" "P ! 7 = MovlImm SYS_futex RAX"
    "P ! 8 = SyscallI" "P ! 9 = MovlRR RDX RAX" "P ! 10 = Xchgl RAX" "P ! 11 = TestlRR RAX RAX"
    "P ! 12 = Jnz 7" "P ! 13 = Popq RDX" "P ! 14 = Popq R10" "P ! 15 = Retq"
proof -
  have len: "length P = 16" using assms by (simp add: waits_def)
  have "P ! (5 + i) = drop 5 P ! i" for i using len by simp
  from this [of 0] this [of 1] this [of 2] this [of 3] this [of 4] this [of 5] this [of 6] this [of 7]
    this [of 8] this [of 9] this [of 10]
  show "length P = 16" "P ! 5 = CmplRR RDX RAX" "P ! 6 = Jnz 9" "P ! 7 = MovlImm SYS_futex RAX"
    "P ! 8 = SyscallI" "P ! 9 = MovlRR RDX RAX" "P ! 10 = Xchgl RAX" "P ! 11 = TestlRR RAX RAX"
    "P ! 12 = Jnz 7" "P ! 13 = Popq RDX" "P ! 14 = Popq R10" "P ! 15 = Retq"
    using assms by (simp_all add: waits_def)
qed

definition kept :: "reg set \<Rightarrow> 's amach \<Rightarrow> 's amach \<Rightarrow> bool" where
  "kept S m m' \<longleftrightarrow> (\<forall>r. r \<notin> S \<longrightarrow> rg m' r = rg m r) \<and> stk m' = stk m"

definition ready :: "'s code_env \<Rightarrow> i32 \<Rightarrow> 's amach \<Rightarrow> bool" where
  "ready A op m \<longleftrightarrow> rg m RDX = zx 2 \<and> rg m RDI = a_lock A \<and> rg m R10 = 0 \<and> lo32 (rg m RSI) = op"

lemma kept_trans: "kept S m m1 \<Longrightarrow> kept S m1 m2 \<Longrightarrow> kept S m m2"
  by (simp add: kept_def)

lemma ready_kept: "kept {RAX, RCX, R11} m m' \<Longrightarrow> ready A op m \<Longrightarrow> ready A op m'"
  by (simp add: kept_def ready_def)

text \<open>The state after one exchange, and after the call that follows when it failed.\<close>

definition after_xchg :: "'s code_env \<Rightarrow> 's amach \<Rightarrow> 's amach" where
  "after_xchg A m = (case xchgl (a_cell A) 2 (mem m) of (v, s) \<Rightarrow>
     (set_reg RAX (zx v) (set_reg RAX (zx 2) m))\<lparr>mem := s, zf := (v = 0)\<rparr>)"

definition after_call :: "'s code_env \<Rightarrow> 's amach \<Rightarrow> 's amach" where
  "after_call A m = futex_insn A (set_reg RAX (zx SYS_futex) m)"

lemma zx_zero [simp]: "zx 0 = 0"
  by (simp add: zx_def)

lemma lo32_zero [simp]: "lo32 0 = 0"
  by (simp add: lo32_def)

lemma wait_exec:
  assumes w: "waits P" and r: "ready A op m"
  shows "run k A ra P 9 m = Ret () m' \<Longrightarrow>
      \<exists>j<k. run j A ra P (if fst (xchgl (a_cell A) 2 (mem m)) = 0 then 13 else 7) (after_xchg A m) = Ret () m'"
    and "runs A ra P 9 m m' \<longleftrightarrow>
      runs A ra P (if fst (xchgl (a_cell A) 2 (mem m)) = 0 then 13 else 7) (after_xchg A m) m'"
proof -
  note n = waits_nth [OF w]
  obtain v s where x: "xchgl (a_cell A) 2 (mem m) = (v, s)" by (metis surj_pair)
  let ?m1 = "set_reg RAX (zx 2) m" let ?m2 = "(set_reg RAX (zx v) ?m1)\<lparr>mem := s\<rparr>"
  have e: "exec A ra 9 m (P ! 9) = Next 10 ?m1" "exec A ra 10 ?m1 (P ! 10) = Next 11 ?m2"
    "exec A ra 11 ?m2 (P ! 11) = Next 12 (after_xchg A m)"
    "exec A ra 12 (after_xchg A m) (P ! 12)
       = Next (if fst (xchgl (a_cell A) 2 (mem m)) = 0 then 13 else 7) (after_xchg A m)"
    using r x by (simp_all add: n ready_def ok_next_def after_xchg_def)
  have l: "9 < length P" "10 < length P" "11 < length P" "12 < length P" by (simp_all add: n)
  show "run k A ra P 9 m = Ret () m' \<Longrightarrow>
      \<exists>j<k. run j A ra P (if fst (xchgl (a_cell A) 2 (mem m)) = 0 then 13 else 7) (after_xchg A m) = Ret () m'"
    by (drule run_next [OF _ l(1) e(1)], elim exE conjE, drule run_next [OF _ l(2) e(2)], elim exE conjE,
        drule run_next [OF _ l(3) e(3)], elim exE conjE, drule run_next [OF _ l(4) e(4)])
      (meson less_trans)
  show "runs A ra P 9 m m' \<longleftrightarrow>
      runs A ra P (if fst (xchgl (a_cell A) 2 (mem m)) = 0 then 13 else 7) (after_xchg A m) m'"
    unfolding runs_next [OF l(1) e(1)] runs_next [OF l(2) e(2)] runs_next [OF l(3) e(3)] runs_next [OF l(4) e(4)] ..
qed

lemma call_exec:
  assumes w: "waits P" and r: "ready A op m"
  shows "run k A ra P 7 m = Ret () m' \<Longrightarrow> \<exists>j<k. run j A ra P 9 (after_call A m) = Ret () m'"
    and "runs A ra P 7 m m' \<longleftrightarrow> runs A ra P 9 (after_call A m) m'"
proof -
  note n = waits_nth [OF w]
  let ?m1 = "set_reg RAX (zx SYS_futex) m"
  have e: "exec A ra 7 m (P ! 7) = Next 8 ?m1" "exec A ra 8 ?m1 (P ! 8) = Next 9 (after_call A m)"
    using r by (simp_all add: n ready_def ok_next_def after_call_def futex_ok_def)
  have l: "7 < length P" "8 < length P" by (simp_all add: n)
  show "run k A ra P 7 m = Ret () m' \<Longrightarrow> \<exists>j<k. run j A ra P 9 (after_call A m) = Ret () m'"
    by (drule run_next [OF _ l(1) e(1)], elim exE conjE, drule run_next [OF _ l(2) e(2)]) (meson less_trans)
  show "runs A ra P 7 m m' \<longleftrightarrow> runs A ra P 9 (after_call A m) m'"
    unfolding runs_next [OF l(1) e(1)] runs_next [OF l(2) e(2)] ..
qed

lemma after_kept:
  "kept {RAX, RCX, R11} m (after_xchg A m)" "kept {RAX, RCX, R11} m (after_call A m)"
  by (simp_all add: kept_def after_xchg_def after_call_def futex_insn_def split: prod.splits)

lemma after_mem:
  "mem (after_xchg A m) = snd (xchgl (a_cell A) 2 (mem m))"
  "ready A op m \<Longrightarrow> mem (after_call A m) = c_sys (a_cell A) (FCall op 2) (mem m)"
  by (simp_all add: after_xchg_def after_call_def futex_insn_def ready_def split: prod.splits)

text \<open>The loop in one direction and the other.\<close>

lemma wait_loop_returns:
  assumes w: "waits P"
  shows "run k A ra P 9 m = Ret () m' \<Longrightarrow> ready A op m \<Longrightarrow>
    \<exists>n t m1. lll_wait_xchg n (a_cell A) op (mem m) = Ret () t \<and> mem m1 = t \<and> kept {RAX, RCX, R11} m m1 \<and>
      runs A ra P 13 m1 m'"
proof (induction k arbitrary: m rule: less_induct)
  case (less k)
  obtain j where j: "j < k"
    "run j A ra P (if fst (xchgl (a_cell A) 2 (mem m)) = 0 then 13 else 7) (after_xchg A m) = Ret () m'"
    using wait_exec(1) [OF w less.prems(2,1)] by blast
  show ?case
  proof (cases "fst (xchgl (a_cell A) 2 (mem m)) = 0")
    case True
    have "lll_wait_xchg (Suc 0) (a_cell A) op (mem m) = Ret () (mem (after_xchg A m))"
      using True by (cases "xchgl (a_cell A) 2 (mem m)") (simp add: after_mem)
    moreover have "runs A ra P 13 (after_xchg A m) m'" using True j(2) by (auto simp: runs_def)
    ultimately show ?thesis using after_kept(1) by blast
  next
    case False
    let ?m2 = "after_call A (after_xchg A m)"
    have r1: "ready A op (after_xchg A m)" by (rule ready_kept [OF after_kept(1) less.prems(2)])
    have r2: "ready A op ?m2" by (rule ready_kept [OF after_kept(2) r1])
    obtain i where i: "i < j" "run i A ra P 9 ?m2 = Ret () m'" 
      using call_exec(1) [OF w r1, of j ra m'] False j(2) by auto
    obtain n t m1 where ih: "lll_wait_xchg n (a_cell A) op (mem ?m2) = Ret () t" "mem m1 = t"
      "kept {RAX, RCX, R11} ?m2 m1" "runs A ra P 13 m1 m'"
      using less.IH [OF less_trans [OF i(1) j(1)] i(2) r2] by blast
    have "lll_wait_xchg (Suc n) (a_cell A) op (mem m) = Ret () t"
      using False ih(1) by (cases "xchgl (a_cell A) 2 (mem m)") (simp add: after_mem(1) after_mem(2) [OF r1])
    moreover have "kept {RAX, RCX, R11} m m1" using kept_trans [OF kept_trans [OF after_kept] ih(3)] .
    ultimately show ?thesis using ih by blast
  qed
qed

lemma wait_loop_runs:
  assumes w: "waits P"
  shows "lll_wait_xchg n (a_cell A) op (mem m) = Ret () t \<Longrightarrow> ready A op m \<Longrightarrow>
    \<exists>m1. mem m1 = t \<and> kept {RAX, RCX, R11} m m1 \<and> (\<forall>m'. runs A ra P 13 m1 m' \<longrightarrow> runs A ra P 9 m m')"
proof (induction n arbitrary: m)
  case 0
  then show ?case by simp
next
  case (Suc n)
  show ?case
  proof (cases "fst (xchgl (a_cell A) 2 (mem m)) = 0")
    case True
    with Suc.prems have "mem (after_xchg A m) = t" by (simp add: after_mem split: prod.splits)
    then show ?thesis
      using wait_exec(2) [OF w Suc.prems(2)] True after_kept(1) by (intro exI [of _ "after_xchg A m"]) simp
  next
    case False
    let ?m2 = "after_call A (after_xchg A m)"
    have r1: "ready A op (after_xchg A m)" by (rule ready_kept [OF after_kept(1) Suc.prems(2)])
    have r2: "ready A op ?m2" by (rule ready_kept [OF after_kept(2) r1])
    have "lll_wait_xchg n (a_cell A) op (mem ?m2) = Ret () t"
      using False Suc.prems(1) by (cases "xchgl (a_cell A) 2 (mem m)") (simp add: after_mem(1) after_mem(2) [OF r1])
    from Suc.IH [OF this r2] obtain m1 where m1: "mem m1 = t" "kept {RAX, RCX, R11} ?m2 m1"
      "\<forall>m'. runs A ra P 13 m1 m' \<longrightarrow> runs A ra P 9 ?m2 m'" by blast
    have "kept {RAX, RCX, R11} m m1" using kept_trans [OF kept_trans [OF after_kept] m1(2)] .
    then show ?thesis using m1 wait_exec(2) [OF w Suc.prems(2)] call_exec(2) [OF w r1] False by auto
  qed
qed

section \<open>The waiting routines\<close>

definition starts :: "(i32 \<Rightarrow> i32) \<Rightarrow> insn list \<Rightarrow> bool" where
  "starts f P \<longleftrightarrow> (\<exists>i v. take 5 P = [Pushq R10, Pushq RDX, XorqRR R10 R10, MovlImm 2 RDX, i] \<and>
     (i = MovlImm v RSI \<and> f = (\<lambda>_. v) \<or> i = XorlImm v RSI \<and> f = (\<lambda>x. x XOR v)))"

lemma starts_code:
  "starts (\<lambda>_. LOAD_PRIVATE_FUTEX_WAIT) lock_wait_private_code" "starts LOAD_FUTEX_WAIT lock_wait_code"
  by (auto simp: starts_def lock_wait_private_code_def lock_wait_code_def LOAD_FUTEX_WAIT_def)

definition entered :: "(i32 \<Rightarrow> i32) \<Rightarrow> 's amach \<Rightarrow> 's amach" where
  "entered f m = (let m2 = push (rg m RDX) (push (rg m R10) m)
     in (m2\<lparr>rg := (rg m2)(R10 := rg m2 R10 XOR rg m2 R10, RDX := zx 2, RSI := zx (f (lo32 (rg m2 RSI))))\<rparr>)
          \<lparr>zf := (lo32 (rg m2 RAX) = 2)\<rparr>)"

lemma wait_entry:
  assumes w: "waits P" and s: "starts f P"
  shows "runs A ra P 0 m m' \<longleftrightarrow> runs A ra P (if lo32 (rg m RAX) = 2 then 7 else 9) (entered f m) m'"
proof -
  obtain i where i: "take 5 P = [Pushq R10, Pushq RDX, XorqRR R10 R10, MovlImm 2 RDX, i]"
    "exec A ra 4 q i = Next 5 (set_reg RSI (zx (f (lo32 (rg q RSI)))) q)" for q
    using s unfolding starts_def by (elim exE conjE disjE) simp_all
  note n = waits_nth [OF w]
  have p: "P ! k = take 5 P ! k" if "k < 5" for k using n(1) that by simp
  let ?m1 = "push (rg m R10) m" let ?m2 = "push (rg ?m1 RDX) ?m1"
  let ?m3 = "set_reg R10 (rg ?m2 R10 XOR rg ?m2 R10) ?m2" let ?m4 = "set_reg RDX (zx 2) ?m3"
  let ?m5 = "set_reg RSI (zx (f (lo32 (rg ?m4 RSI)))) ?m4"
  let ?m6 = "?m5\<lparr>zf := (lo32 (rg ?m5 RAX) = lo32 (rg ?m5 RDX))\<rparr>"
  have c: "P ! 0 = Pushq R10" "P ! 1 = Pushq RDX" "P ! 2 = XorqRR R10 R10" "P ! 3 = MovlImm 2 RDX" "P ! 4 = i"
    using p [of 0] p [of 1] p [of 2] p [of 3] p [of 4] by (simp_all add: i(1))
  have e: "exec A ra 0 m (P ! 0) = Next 1 ?m1" "exec A ra 1 ?m1 (P ! 1) = Next 2 ?m2"
    "exec A ra 2 ?m2 (P ! 2) = Next 3 ?m3" "exec A ra 3 ?m3 (P ! 3) = Next 4 ?m4"
    "exec A ra 4 ?m4 (P ! 4) = Next 5 ?m5" "exec A ra 5 ?m5 (P ! 5) = Next 6 ?m6"
    "exec A ra 6 ?m6 (P ! 6) = Next (if zf ?m6 then 7 else 9) ?m6"
    unfolding c n by (simp_all add: i(2))
  have l: "0 < length P" "1 < length P" "2 < length P" "3 < length P" "4 < length P" "5 < length P" "6 < length P"
    by (simp_all add: n)
  have z: "zf (entered f m) = (lo32 (rg m RAX) = 2)" and m: "?m6 = entered f m"
    by (simp_all add: entered_def push_def Let_def)
  have "runs A ra P 0 m m' \<longleftrightarrow> runs A ra P (if zf ?m6 then 7 else 9) ?m6 m'"
    unfolding runs_next [OF l(1) e(1)] runs_next [OF l(2) e(2)] runs_next [OF l(3) e(3)]
      runs_next [OF l(4) e(4)] runs_next [OF l(5) e(5)] runs_next [OF l(6) e(6)] runs_next [OF l(7) e(7)] ..
  then show ?thesis unfolding m z .
qed

lemma runs_fault: "pc < length P \<Longrightarrow> exec A ra pc m (P ! pc) = Fault \<Longrightarrow> \<not> runs A ra P pc m m'"
  by (simp add: runs_Suc)

lemma wait_exit:
  assumes w: "waits P"
  shows "runs A ra P 13 m m' \<longleftrightarrow> stk m (rg m RSP + 16) = ra \<and>
     m' = m\<lparr>rg := (rg m)(RDX := stk m (rg m RSP), R10 := stk m (rg m RSP + 8), RSP := rg m RSP + 24)\<rparr>"
proof -
  note n = waits_nth [OF w]
  let ?m1 = "m\<lparr>rg := (rg m)(RSP := rg m RSP + 8, RDX := stk m (rg m RSP))\<rparr>"
  let ?m2 = "?m1\<lparr>rg := (rg ?m1)(RSP := rg ?m1 RSP + 8, R10 := stk m (rg ?m1 RSP))\<rparr>"
  have e: "exec A ra 13 m (P ! 13) = Next 14 ?m1" "exec A ra 14 ?m1 (P ! 14) = Next 15 ?m2"
    by (simp_all add: n)
  have l: "13 < length P" "14 < length P" "15 < length P" by (simp_all add: n)
  have a: "rg m RSP + 8 + 8 = rg m RSP + 16" by simp
  show ?thesis
  proof (cases "stk m (rg m RSP + 16) = ra")
    case True
    then have x: "exec A ra 15 ?m2 (P ! 15) = Done (set_reg RSP (rg ?m2 RSP + 8) ?m2)" by (simp add: n a)
    show ?thesis
      unfolding runs_next [OF l(1) e(1)] runs_next [OF l(2) e(2)] runs_done [OF l(3) x]
      using True by (simp add: fun_upd_twist add.commute [of 24])
  next
    case False
    then have x: "exec A ra 15 ?m2 (P ! 15) = Fault" by (simp add: n a)
    show ?thesis
      unfolding runs_next [OF l(1) e(1)] runs_next [OF l(2) e(2)]
      using runs_fault [OF l(3) x] False by simp
  qed
qed

text \<open>
  What a routine leaves when it returns, having been called with the return address on top of the stack: the
  stack pointer above it, the registers outside \<open>S\<close>, and the stack except the two slots it pushed to.
\<close>

definition left_by :: "reg set \<Rightarrow> 's amach \<Rightarrow> 's amach \<Rightarrow> bool" where
  "left_by S m m' \<longleftrightarrow> rg m' RSP = rg m RSP + 8 \<and> (\<forall>r. r \<notin> S \<longrightarrow> r \<noteq> RSP \<longrightarrow> rg m' r = rg m r) \<and>
     (\<forall>a. a \<notin> {rg m RSP - 8, rg m RSP - 16} \<longrightarrow> stk m' a = stk m a)"

lemma slots: "p - 8 \<noteq> p" "p - 16 \<noteq> p" "p - 16 \<noteq> p - 8" "p - 8 - 8 = p - 16" for p :: u64
proof -
  have d: "p - a = p - b \<longleftrightarrow> a = b" for a b by simp
  show "p - 8 \<noteq> p" "p - 16 \<noteq> p" "p - 16 \<noteq> p - 8" using d [of 8 0] d [of 16 0] d [of 16 8] by simp_all
  show "p - 8 - 8 = p - 16" by simp
qed

lemma entered_sels:
  "rg (entered f m) RSP = rg m RSP - 16" "rg (entered f m) RDX = zx 2" "rg (entered f m) R10 = 0"
  "rg (entered f m) RSI = zx (f (lo32 (rg m RSI)))" "mem (entered f m) = mem m"
  "r \<notin> {RSP, RDX, R10, RSI} \<Longrightarrow> rg (entered f m) r = rg m r"
  "stk (entered f m) = (stk m)(rg m RSP - 8 := rg m R10, rg m RSP - 16 := rg m RDX)"
  by (simp_all add: entered_def push_def Let_def slots)

lemma entered_ready: "rg m RDI = a_lock A \<Longrightarrow> ready A (f (lo32 (rg m RSI))) (entered f m)"
  by (simp add: ready_def entered_sels)

lemma exit_left:
  assumes "kept {RAX, RCX, R11} (entered f m) m1"
    and "m' = m1\<lparr>rg := (rg m1)(RDX := stk m1 (rg m1 RSP), R10 := stk m1 (rg m1 RSP + 8), RSP := rg m1 RSP + 24)\<rparr>"
  shows "left_by {RAX, RCX, R11, RSI} m m'" "mem m' = mem m1" "stk m1 (rg m1 RSP + 16) = stk m (rg m RSP)"
proof -
  have k: "r \<notin> {RAX, RCX, R11} \<Longrightarrow> rg m1 r = rg (entered f m) r" and st: "stk m1 = stk (entered f m)" for r
    using assms(1) by (auto simp: kept_def)
  have sp: "rg m1 RSP = rg m RSP - 16" using k [of RSP] by (simp add: entered_sels)
  have a: "rg m RSP - 16 + 8 = rg m RSP - 8" "rg m RSP - 16 + 24 = rg m RSP + 8" "rg m RSP - 16 + 16 = rg m RSP"
    by simp_all
  show "mem m' = mem m1" using assms(2) by simp
  show "stk m1 (rg m1 RSP + 16) = stk m (rg m RSP)"
    unfolding sp a st using slots [of "rg m RSP"] by (simp add: entered_sels)
  show "left_by {RAX, RCX, R11, RSI} m m'"
    unfolding left_by_def assms(2) sp a st
    using slots [of "rg m RSP"] k by (auto simp: entered_sels st)
qed

lemma wait_routine_returns:
  assumes w: "waits P" and s: "starts f P" and lk: "rg m RDI = a_lock A" and r: "runs A ra P 0 m m'"
  shows "\<exists>n. lll_lock_wait n (a_cell A) (f (lo32 (rg m RSI))) (lo32 (rg m RAX)) (mem m) = Ret () (mem m') \<and>
     left_by {RAX, RCX, R11, RSI} m m'"
proof -
  let ?e = "entered f m" let ?op = "f (lo32 (rg m RSI))"
  have rd: "ready A ?op ?e" by (rule entered_ready [OF lk])
  have r0: "runs A ra P (if lo32 (rg m RAX) = 2 then 7 else 9) ?e m'" using r unfolding wait_entry [OF w s] .
  obtain q where q: "runs A ra P 9 q m'" "ready A ?op q" "kept {RAX, RCX, R11} ?e q"
    "mem q = (if lo32 (rg m RAX) = 2 then c_sys (a_cell A) (FCall ?op 2) (mem m) else mem m)"
  proof (cases "lo32 (rg m RAX) = 2")
    case True
    with r0 have "runs A ra P 9 (after_call A ?e) m'" using call_exec(2) [OF w rd] by simp
    then show thesis
      using that [of "after_call A ?e"] ready_kept [OF after_kept(2) rd] after_kept(2) [of ?e A] True
      by (simp add: after_mem(2) [OF rd] entered_sels)
  next
    case False
    with r0 rd show thesis using that [of ?e] by (simp add: kept_def entered_sels)
  qed
  obtain k where k: "run k A ra P 9 q = Ret () m'" using q(1) unfolding runs_def by blast
  obtain n t m1 where m1: "lll_wait_xchg n (a_cell A) ?op (mem q) = Ret () t" "mem m1 = t"
    "kept {RAX, RCX, R11} q m1" "runs A ra P 13 m1 m'" using wait_loop_returns [OF w k q(2)] by blast
  have ex: "m' = m1\<lparr>rg := (rg m1)(RDX := stk m1 (rg m1 RSP), R10 := stk m1 (rg m1 RSP + 8), RSP := rg m1 RSP + 24)\<rparr>"
    using m1(4) unfolding wait_exit [OF w] by blast
  note l = exit_left [OF kept_trans [OF q(3) m1(3)] ex]
  have "lll_lock_wait n (a_cell A) ?op (lo32 (rg m RAX)) (mem m) = Ret () (mem m')"
    using m1(1,2) l(2) q(4) by (simp add: lll_lock_wait_def split: if_splits)
  then show ?thesis using l(1) by blast
qed

lemma wait_routine_runs:
  assumes w: "waits P" and s: "starts f P" and lk: "rg m RDI = a_lock A" and ra: "stk m (rg m RSP) = ra"
    and n: "lll_lock_wait n (a_cell A) (f (lo32 (rg m RSI))) (lo32 (rg m RAX)) (mem m) = Ret () t"
  shows "\<exists>m'. runs A ra P 0 m m' \<and> mem m' = t"
proof -
  let ?e = "entered f m" let ?op = "f (lo32 (rg m RSI))"
  have rd: "ready A ?op ?e" by (rule entered_ready [OF lk])
  obtain q where q: "\<And>m'. runs A ra P 9 q m' \<Longrightarrow> runs A ra P 0 m m'" "ready A ?op q" "kept {RAX, RCX, R11} ?e q"
    "lll_wait_xchg n (a_cell A) ?op (mem q) = Ret () t"
  proof (cases "lo32 (rg m RAX) = 2")
    case True
    then show thesis
      using that [of "after_call A ?e"] ready_kept [OF after_kept(2) rd] after_kept(2) [of ?e A] n
        wait_entry [OF w s, of A ra m] call_exec(2) [OF w rd]
      by (simp add: after_mem(2) [OF rd] entered_sels lll_lock_wait_def)
  next
    case False
    then show thesis
      using that [of ?e] rd n wait_entry [OF w s, of A ra m] by (simp add: kept_def entered_sels lll_lock_wait_def)
  qed
  obtain m1 where m1: "mem m1 = t" "kept {RAX, RCX, R11} q m1" "\<And>m'. runs A ra P 13 m1 m' \<Longrightarrow> runs A ra P 9 q m'"
    using wait_loop_runs [OF w q(4,2)] by blast
  let ?m' = "m1\<lparr>rg := (rg m1)(RDX := stk m1 (rg m1 RSP), R10 := stk m1 (rg m1 RSP + 8), RSP := rg m1 RSP + 24)\<rparr>"
  have "runs A ra P 13 m1 ?m'"
    unfolding wait_exit [OF w] using exit_left(3) [OF kept_trans [OF q(3) m1(2)] refl] ra by simp
  then show ?thesis using q(1) m1 by (intro exI [of _ ?m']) simp
qed

section \<open>The waking routines\<close>

lemma runs_step:
  "runs A ra P pc m m' \<longleftrightarrow>
     (if length P \<le> pc then m' = m else
      case exec A ra pc m (P ! pc) of
        Next pc' m1 \<Rightarrow> runs A ra P pc' m1 m'
      | Done m1 \<Rightarrow> m' = m1
      | Enter Q m1 \<Rightarrow> \<exists>m2. runs A (a_ret A) Q 0 m1 m2 \<and> runs A ra P (Suc pc) m2 m'
      | Fault \<Rightarrow> False)"
  by (cases "exec A ra pc m (P ! pc)")
    (auto simp: runs_end runs_next runs_done runs_enter runs_fault not_le)

definition wakes :: "(i32 \<Rightarrow> i32) \<Rightarrow> insn list \<Rightarrow> bool" where
  "wakes f P \<longleftrightarrow> (\<exists>i v. P = [Pushq RSI, Pushq RDX, MovlMem 0, i, MovlImm 1 RDX, MovlImm SYS_futex RAX,
       SyscallI, Popq RDX, Popq RSI, Retq] \<and>
     (i = MovlImm v RSI \<and> f = (\<lambda>_. v) \<or> i = XorlImm v RSI \<and> f = (\<lambda>x. x XOR v)))"

lemma wakes_code:
  "wakes (\<lambda>_. LOAD_PRIVATE_FUTEX_WAKE) unlock_wake_private_code" "wakes LOAD_FUTEX_WAKE unlock_wake_code"
  by (auto simp: wakes_def unlock_wake_private_code_def unlock_wake_code_def LOAD_FUTEX_WAKE_def)

lemma wake_routine:
  assumes "wakes f P" and lk: "rg m RDI = a_lock A" and ra: "stk m (rg m RSP) = ra"
    and op: "f (lo32 (rg m RSI)) AND NOT FUTEX_PRIVATE_FLAG \<noteq> FUTEX_WAIT"
  shows "\<exists>m'. runs A ra P 0 m m' \<and> left_by {RAX, RCX, R11} m m' \<and>
     mem m' = lll_unlock_wake (a_cell A) (f (lo32 (rg m RSI))) (mem m)"
proof -
  obtain i v where P: "P = [Pushq RSI, Pushq RDX, MovlMem 0, i, MovlImm 1 RDX, MovlImm SYS_futex RAX,
       SyscallI, Popq RDX, Popq RSI, Retq]"
    and i: "i = MovlImm v RSI \<and> f = (\<lambda>_. v) \<or> i = XorlImm v RSI \<and> f = (\<lambda>x. x XOR v)"
    using assms(1) unfolding wakes_def by blast
  have ei: "exec A ra pc q i = Next (Suc pc) (set_reg RSI (zx (f (lo32 (rg q RSI)))) q)" for pc q
    using i by auto
  have sl: "rg m RSP \<noteq> rg m RSP - 8" "rg m RSP \<noteq> rg m RSP - 16" "rg m RSP - 8 \<noteq> rg m RSP - 16"
    "rg m RSP - 16 + 8 = rg m RSP - 8" "rg m RSP - 8 + 8 = rg m RSP" "rg m RSP - 8 - 8 = rg m RSP - 16"
    "rg m RSP - 16 + 16 = rg m RSP"
    using slots [of "rg m RSP"] by (simp_all add: eq_commute)
  show ?thesis
    using lk ra op sl unfolding P
    by (simp add: runs_step ei push_def Let_def ok_next_def futex_ok_def futex_insn_def left_by_def
        lll_unlock_wake_def)
qed

section \<open>The inline sequences are the operations of the lock\<close>

text \<open>
  What an inline sequence may change: the registers in \<open>S\<close>, and of the stack the return address and the two
  slots of the routine, all of them below the 128 bytes under the stack pointer that belong to the caller.
\<close>

definition inline_ok :: "reg set \<Rightarrow> 's amach \<Rightarrow> 's amach \<Rightarrow> bool" where
  "inline_ok S m m' \<longleftrightarrow> (\<forall>r. r \<notin> S \<longrightarrow> rg m' r = rg m r) \<and>
     (\<forall>a. a \<notin> {rg m RSP - 136, rg m RSP - 144, rg m RSP - 152} \<longrightarrow> stk m' a = stk m a)"

definition called :: "'s code_env \<Rightarrow> 's amach \<Rightarrow> 's amach" where
  "called A m = push (a_ret A) (m\<lparr>rg := (rg m)(RDI := a_lock A, RSP := rg m RSP - 128)\<rparr>)"

lemma called_sels:
  "rg (called A m) RSP = rg m RSP - 136" "rg (called A m) RDI = a_lock A" "mem (called A m) = mem m"
  "r \<noteq> RSP \<Longrightarrow> r \<noteq> RDI \<Longrightarrow> rg (called A m) r = rg m r"
  "stk (called A m) = (stk m)(rg m RSP - 136 := a_ret A)"
  by (simp_all add: called_def push_def Let_def)

lemma block_runs:
  assumes e: "exec A ra 0 m i = Next (Suc 0) m1"
  shows "runs A ra (i # slow_path R) 0 m m' \<longleftrightarrow>
     (if zf m1 then m' = m1
      else \<exists>m2. runs A (a_ret A) R 0 (called A m1) m2 \<and> m' = set_reg RSP (rg m2 RSP + 128) m2)"
proof -
  let ?P = "i # slow_path R"
  let ?m2 = "set_reg RDI (a_lock A) m1" let ?m3 = "set_reg RSP (rg ?m2 RSP - 128) ?m2"
  have len: "length ?P = 6" by (simp add: slow_path_def)
  have l: "0 < length ?P" "1 < length ?P" "2 < length ?P" "3 < length ?P" "4 < length ?P" "5 < length ?P"
    unfolding len by simp_all
  have x: "exec A ra 0 m (?P ! 0) = Next 1 m1" "exec A ra 1 m1 (?P ! 1) = Next (if zf m1 then 6 else 2) m1"
    "exec A ra 2 m1 (?P ! 2) = Next 3 ?m2" "exec A ra 3 ?m2 (?P ! 3) = Next 4 ?m3"
    "exec A ra 4 ?m3 (?P ! 4) = Enter R (push (a_ret A) ?m3)"
    "exec A ra 5 q (?P ! 5) = Next 6 (set_reg RSP (rg q RSP + 128) q)" for q
    by (simp_all add: slow_path_def e)
  have c: "push (a_ret A) ?m3 = called A m1" by (simp add: called_def)
  have s: "Suc 4 = 5" by simp
  have z: "runs A ra ?P 6 q m' \<longleftrightarrow> m' = q" for q by (rule runs_end) (simp add: slow_path_def)
  have "runs A ra ?P 0 m m' \<longleftrightarrow> runs A ra ?P (if zf m1 then 6 else 2) m1 m'"
    unfolding runs_next [OF l(1) x(1)] runs_next [OF l(2) x(2)] ..
  moreover have "runs A ra ?P 2 m1 m' \<longleftrightarrow>
      (\<exists>m2. runs A (a_ret A) R 0 (called A m1) m2 \<and> m' = set_reg RSP (rg m2 RSP + 128) m2)"
    unfolding runs_next [OF l(3) x(3)] runs_next [OF l(4) x(4)] runs_enter [OF l(5) x(5)] c s
      runs_next [OF l(6) x(6)] z ..
  ultimately show ?thesis by (simp add: z)
qed

lemma inline_ok_from:
  assumes st: "stk m1 = stk m" and r: "\<And>r. r \<noteq> RAX \<Longrightarrow> rg m1 r = rg m r" and i: "inline_ok T m1 p" and x: "RAX \<in> T"
  shows "inline_ok T m p"
proof -
  have sp: "rg m1 RSP = rg m RSP" by (rule r) simp
  have q: "q \<noteq> RAX" if "q \<notin> T" for q using x that by auto
  show ?thesis
    using i unfolding inline_ok_def st sp by (auto simp: r q)
qed

text \<open>A routine called from the sequence, seen from the sequence.\<close>

lemma called_left:
  assumes "left_by S (called A m) m2" and "RDI \<in> T" and "S \<subseteq> T"
  shows "inline_ok T m (set_reg RSP (rg m2 RSP + 128) m2)"
proof -
  have a: "rg m RSP - 136 - 8 = rg m RSP - 144" "rg m RSP - 136 - 16 = rg m RSP - 152"
    "rg m RSP - 136 + 8 + 128 = rg m RSP" by simp_all
  have sp: "rg m2 RSP = rg m RSP - 136 + 8" and r: "\<And>r. r \<notin> S \<Longrightarrow> r \<noteq> RSP \<Longrightarrow> rg m2 r = rg (called A m) r"
    and st: "\<And>b. b \<notin> {rg m RSP - 144, rg m RSP - 152} \<Longrightarrow> stk m2 b = stk (called A m) b"
    using assms(1) unfolding left_by_def called_sels a by blast+
  show ?thesis
    unfolding inline_ok_def sp a
  proof (intro conjI allI impI)
    fix q assume q: "q \<notin> T"
    then have "q \<noteq> RDI" "q \<notin> S" using assms(2,3) by auto
    then show "rg (set_reg RSP (rg m RSP) m2) q = rg m q"
      using r [of q] by (simp add: called_sels(4))
  next
    fix b assume "b \<notin> {rg m RSP - 136, rg m RSP - 144, rg m RSP - 152}"
    then show "stk (set_reg RSP (rg m RSP) m2) b = stk m b"
      using st [of b] by (simp add: called_sels(5))
  qed
qed

text \<open>\<open>lll_lock\<close> and \<open>lll_cond_lock\<close> in one: the value for a free word and the futex operation are arguments.\<close>

definition lock_op :: "'s cell \<Rightarrow> i32 \<Rightarrow> i32 \<Rightarrow> 's \<Rightarrow> nat \<Rightarrow> (unit, 's) out" where
  "lock_op C new op s n = (case cmpxchg C new 0 s of (eax, s) \<Rightarrow>
     if eax = 0 then Ret () s else lll_lock_wait n C op eax s)"

lemma lock_block:
  assumes w: "waits R" and s: "starts f R" and ax: "rg m RAX = 0"
  shows "runs A ra (LockCmpxchgl q # slow_path R) 0 m m' \<Longrightarrow>
      (\<exists>n. lock_op (a_cell A) (lo32 (rg m q)) (f (lo32 (rg m RSI))) (mem m) n = Ret () (mem m')) \<and>
      inline_ok {RAX, RCX, R11, RSI, RDI} m m'"
    and "lock_op (a_cell A) (lo32 (rg m q)) (f (lo32 (rg m RSI))) (mem m) n = Ret () t \<Longrightarrow>
      \<exists>m'. runs A ra (LockCmpxchgl q # slow_path R) 0 m m' \<and> mem m' = t"
proof -
  let ?P = "LockCmpxchgl q # slow_path R"
  let ?op = "lock_op (a_cell A) (lo32 (rg m q)) (f (lo32 (rg m RSI))) (mem m)"
  obtain v u where x: "cmpxchg (a_cell A) (lo32 (rg m q)) 0 (mem m) = (v, u)" by (metis surj_pair)
  let ?m1 = "cmpxchgl_insn A q m"
  have m1: "mem ?m1 = u" "zf ?m1 = (v = 0)" "stk ?m1 = stk m" "lo32 (rg ?m1 RAX) = v"
    "\<And>r. r \<noteq> RAX \<Longrightarrow> rg ?m1 r = rg m r"
    using ax by (simp_all add: cmpxchgl_insn_def x)
  have b: "runs A ra ?P 0 m m' \<longleftrightarrow> (if v = 0 then m' = ?m1
      else \<exists>m2. runs A (a_ret A) R 0 (called A ?m1) m2 \<and> m' = set_reg RSP (rg m2 RSP + 128) m2)" for m'
    using block_runs [of A ra m "LockCmpxchgl q" ?m1 R m'] m1(2) by simp
  have op: "?op n = (if v = 0 then Ret () u else lll_lock_wait n (a_cell A) (f (lo32 (rg m RSI))) v u)" for n
    by (simp add: lock_op_def x)
  have ok: "inline_ok T ?m1 p \<Longrightarrow> RAX \<in> T \<Longrightarrow> inline_ok T m p" for T p
    by (rule inline_ok_from [OF m1(3,5)])
  have ci: "lo32 (rg (called A ?m1) RSI) = lo32 (rg m RSI)" "lo32 (rg (called A ?m1) RAX) = v"
    "mem (called A ?m1) = u" using m1 by (simp_all add: called_sels)
  { assume r: "runs A ra ?P 0 m m'"
    show "(\<exists>n. ?op n = Ret () (mem m')) \<and> inline_ok {RAX, RCX, R11, RSI, RDI} m m'"
    proof (cases "v = 0")
      case True
      with r b m1 show ?thesis by (simp add: op inline_ok_def)
    next
      case False
      then obtain m2 where m2: "runs A (a_ret A) R 0 (called A ?m1) m2" "m' = set_reg RSP (rg m2 RSP + 128) m2"
        using r b by auto
      have l: "left_by {RAX, RCX, R11, RSI} (called A ?m1) m2"
        and n: "\<exists>n. lll_lock_wait n (a_cell A) (f (lo32 (rg m RSI))) v u = Ret () (mem m2)"
        using wait_routine_returns [OF w s called_sels(2) m2(1)] unfolding ci by blast+
      have "inline_ok {RAX, RCX, R11, RSI, RDI} ?m1 m'" unfolding m2(2) by (rule called_left [OF l]) auto
      then show ?thesis using n False ok by (simp add: op m2(2))
    qed }
  { assume o: "?op n = Ret () t"
    show "\<exists>m'. runs A ra ?P 0 m m' \<and> mem m' = t"
    proof (cases "v = 0")
      case True
      with o b m1(1) show ?thesis by (simp add: op)
    next
      case False
      have "\<exists>m2. runs A (a_ret A) R 0 (called A ?m1) m2 \<and> mem m2 = t"
      proof (rule wait_routine_runs [OF w s called_sels(2)])
        show "stk (called A ?m1) (rg (called A ?m1) RSP) = a_ret A" by (simp add: called_sels)
        show "lll_lock_wait n (a_cell A) (f (lo32 (rg (called A ?m1) RSI))) (lo32 (rg (called A ?m1) RAX))
            (mem (called A ?m1)) = Ret () t"
          using o False unfolding ci by (simp add: op)
      qed
      then show ?thesis using False b by auto
    qed }
qed

lemma unlock_block:
  assumes R: "wakes f R" and e: "exec A ra 0 m i = Next (Suc 0) m1"
    and m1: "rg m1 = rg m" "stk m1 = stk m" and op: "f (lo32 (rg m RSI)) AND NOT FUTEX_PRIVATE_FLAG \<noteq> FUTEX_WAIT"
  shows "\<exists>m'. runs A ra (i # slow_path R) 0 m m' \<and> inline_ok {RAX, RCX, R11, RDI} m m' \<and>
     mem m' = (if zf m1 then mem m1 else lll_unlock_wake (a_cell A) (f (lo32 (rg m RSI))) (mem m1))"
proof (cases "zf m1")
  case True
  then show ?thesis using block_runs [OF e] m1 by (simp add: inline_ok_def)
next
  case False
  have si: "rg (called A m1) RSI = rg m RSI" by (simp add: called_sels m1(1))
  obtain m2 where m2: "runs A (a_ret A) R 0 (called A m1) m2" "left_by {RAX, RCX, R11} (called A m1) m2"
    "mem m2 = lll_unlock_wake (a_cell A) (f (lo32 (rg m RSI))) (mem m1)"
  proof -
    have "stk (called A m1) (rg (called A m1) RSP) = a_ret A" by (simp add: called_sels)
    from wake_routine [OF R called_sels(2) this] op that show thesis unfolding si by (auto simp: called_sels(3))
  qed
  let ?m' = "set_reg RSP (rg m2 RSP + 128) m2"
  have "inline_ok {RAX, RCX, R11, RDI} m1 ?m'" by (rule called_left [OF m2(2)]) auto
  then have "inline_ok {RAX, RCX, R11, RDI} m ?m'" by (simp add: inline_ok_def m1)
  moreover have "runs A ra (i # slow_path R) 0 m ?m'" using block_runs [OF e] m2(1) False by auto
  ultimately show ?thesis using m2(3) False by (intro exI [of _ ?m']) simp
qed

lemma shared_private: "private \<in> {LLL_PRIVATE, LLL_SHARED} \<Longrightarrow>
   LOAD_FUTEX_WAKE private AND NOT FUTEX_PRIVATE_FLAG \<noteq> FUTEX_WAIT"
  by (auto simp: LOAD_FUTEX_WAKE_def futex_codes)

text \<open>The same for \<open>lll_cond_lock\<close> and \<open>lll_robust_unlock\<close>.\<close>

lemma lll_cond_lock_code_returns:
  "runs A ra lll_cond_lock_code 0 (lll_cond_lock_ops p m) m' \<Longrightarrow>
     (\<exists>n. lll_cond_lock n (a_cell A) p (mem m) = Ret () (mem m')) \<and>
     inline_ok {RAX, RCX, R11, RSI, RDI} (lll_cond_lock_ops p m) m'"
  and lll_cond_lock_code_runs:
  "lll_cond_lock n (a_cell A) p (mem m) = Ret () t \<Longrightarrow>
     \<exists>m'. runs A ra lll_cond_lock_code 0 (lll_cond_lock_ops p m) m' \<and> mem m' = t"
proof -
  let ?m = "lll_cond_lock_ops p m"
  have m: "rg ?m RAX = 0" "lo32 (rg ?m RDI) = 2" "lo32 (rg ?m RSI) = p" "mem ?m = mem m"
    by (simp_all add: lll_cond_lock_ops_def)
  have op: "lock_op (a_cell A) (lo32 (rg ?m RDI)) (LOAD_FUTEX_WAIT (lo32 (rg ?m RSI))) (mem ?m) n
      = lll_cond_lock n (a_cell A) p (mem m)" for n
    unfolding m by (simp add: lock_op_def lll_cond_lock_def)
  note L = lock_block [OF waits_code(2) starts_code(2) m(1), where q = RDI and A = A and ra = ra,
      folded lll_cond_lock_code_def, unfolded op]
  show "runs A ra lll_cond_lock_code 0 ?m m' \<Longrightarrow>
     (\<exists>n. lll_cond_lock n (a_cell A) p (mem m) = Ret () (mem m')) \<and> inline_ok {RAX, RCX, R11, RSI, RDI} ?m m'"
    by (rule L(1))
  show "lll_cond_lock n (a_cell A) p (mem m) = Ret () t \<Longrightarrow>
     \<exists>m'. runs A ra lll_cond_lock_code 0 ?m m' \<and> mem m' = t"
    by (rule L(2))
qed

lemma lll_robust_unlock_code_exact:
  assumes "p \<in> {LLL_PRIVATE, LLL_SHARED}"
  shows "\<exists>m'. runs A ra lll_robust_unlock_code 0 (lll_robust_unlock_ops p m) m' \<and>
     mem m' = lll_robust_unlock (a_cell A) p (mem m) \<and>
     inline_ok {RAX, RDI, RCX, R11} (lll_robust_unlock_ops p m) m'"
proof -
  let ?m = "lll_robust_unlock_ops p m"
  obtain v u where d: "andl (a_cell A) FUTEX_WAITERS (mem m) = (v, u)" by (metis surj_pair)
  have m: "mem ?m = mem m" "lo32 (rg ?m RSI) = p" by (simp_all add: lll_robust_unlock_ops_def)
  have e: "exec A ra 0 ?m (LockAndl FUTEX_WAITERS) = Next (Suc 0) (?m\<lparr>mem := u, zf := (v = 0)\<rparr>)"
    by (simp add: m d)
  show ?thesis
    using unlock_block [OF wakes_code(2) e] shared_private [OF assms] unfolding m(2) lll_robust_unlock_code_def
    by (auto simp: lll_robust_unlock_def d insert_commute)
qed

section \<open>Properties\<close>

text \<open>
  C6 (the machine code of \<open>lll_lock\<close>). The inline sequence with the routines it calls, run on the registers that its
  operands prescribe, returns with the lock in state \<open>t\<close> exactly if \<open>lll_lock\<close> does so for some number of rounds; and
  whenever it returns it has changed no other registers than those of its operands and clobber list (in particular
  \<open>rdx\<close> and \<open>r10\<close>, which the system call uses, are restored) and nothing of the stack above the
  128 bytes below the stack pointer.
\<close>

theorem lll_lock_code_exact:
  fixes priv :: i32 and const :: bool and m :: "'s amach"
  defines "b \<equiv> const \<and> priv = LLL_PRIVATE"
  shows "((\<exists>m'. runs A ra (lll_lock_code b) 0 (lll_lock_ops b priv m) m' \<and> mem m' = t) \<longleftrightarrow>
       (\<exists>n. lll_lock n (a_cell A) const priv (mem m) = Ret () t)) \<and>
     {m'. runs A ra (lll_lock_code b) 0 (lll_lock_ops b priv m) m'} \<subseteq>
       {m'. inline_ok {RAX, RSI, RDI, RCX, R11} m m'}"
proof -
  let ?R = "if b then lock_wait_private_code else lock_wait_code"
  let ?f = "if b then (\<lambda>_. LOAD_PRIVATE_FUTEX_WAIT) else LOAD_FUTEX_WAIT"
  let ?q = "if b then RSI else RDI" let ?m = "lll_lock_ops b priv m"
  have w: "waits ?R" and s: "starts ?f ?R" by (simp_all add: waits_code starts_code)
  have P: "lll_lock_code b = LockCmpxchgl ?q # slow_path ?R" by (simp add: lll_lock_code_def)
  have m: "rg ?m RAX = 0" "lo32 (rg ?m ?q) = 1" "mem ?m = mem m" "stk ?m = stk m"
    "\<And>r. r \<notin> {RAX, RSI, RDI, RCX, R11} \<Longrightarrow> rg ?m r = rg m r"
    by (simp_all add: lll_lock_ops_def)
  have f: "?f (lo32 (rg ?m RSI)) = (if b then LOAD_PRIVATE_FUTEX_WAIT else LOAD_FUTEX_WAIT priv)"
    by (simp add: lll_lock_ops_def)
  have op: "lock_op (a_cell A) (lo32 (rg ?m ?q)) (?f (lo32 (rg ?m RSI))) (mem ?m) n
      = lll_lock n (a_cell A) const priv (mem m)" for n
    unfolding f m by (auto simp: lock_op_def lll_lock_def b_def split: prod.splits)
  note L = lock_block [OF w s m(1), where q = ?q and A = A and ra = ra, folded P, unfolded op]
  have "inline_ok {RAX, RSI, RDI, RCX, R11} m m'" if r: "runs A ra (lll_lock_code b) 0 ?m m'" for m'
  proof -
    have sp: "rg ?m RSP = rg m RSP" by (rule m(5)) simp
    have "inline_ok {RAX, RCX, R11, RSI, RDI} ?m m'" using L(1) [OF r] by blast
    then show ?thesis unfolding inline_ok_def sp m(4) using m(5) by auto
  qed
  then show ?thesis using L by blast
qed

text \<open>
  C7 (the machine code of \<open>lll_unlock\<close>). The inline sequence always returns, has the effect of \<open>lll_unlock\<close> on the lock and
  the futex calls, and changes no other registers than those of its operands and clobber list; \<open>rsi\<close> is only
  an input and keeps its value, though the routine puts the futex operation there.
\<close>

theorem lll_unlock_code_exact:
  fixes priv :: i32 and const :: bool and m :: "'s amach"
  defines "b \<equiv> const \<and> priv = LLL_PRIVATE"
  assumes "priv \<in> {LLL_PRIVATE, LLL_SHARED}"
  shows "\<exists>m'. runs A ra (lll_unlock_code b) 0 (lll_unlock_ops b priv m) m' \<and>
     mem m' = lll_unlock (a_cell A) const priv (mem m) \<and>
     inline_ok {RAX, RDI, RCX, R11} (lll_unlock_ops b priv m) m'"
proof -
  let ?R = "if b then unlock_wake_private_code else unlock_wake_code"
  let ?f = "if b then (\<lambda>_. LOAD_PRIVATE_FUTEX_WAKE) else LOAD_FUTEX_WAKE"
  let ?m = "lll_unlock_ops b priv m"
  obtain v u where d: "decl (a_cell A) (mem m) = (v, u)" by (metis surj_pair)
  have R: "wakes ?f ?R" by (simp add: wakes_code)
  have mm: "mem ?m = mem m" by (simp add: lll_unlock_ops_def)
  have f: "?f (lo32 (rg ?m RSI)) = (if b then LOAD_PRIVATE_FUTEX_WAKE else LOAD_FUTEX_WAKE priv)"
    by (simp add: lll_unlock_ops_def)
  have op: "?f (lo32 (rg ?m RSI)) AND NOT FUTEX_PRIVATE_FLAG \<noteq> FUTEX_WAIT"
    unfolding f using shared_private [OF assms(2)] by (simp add: LOAD_PRIVATE_FUTEX_WAKE_def futex_codes)
  have e: "exec A ra 0 ?m LockDecl = Next (Suc 0) (?m\<lparr>mem := u, zf := (v = 0)\<rparr>)" by (simp add: mm d)
  show ?thesis
    using unlock_block [OF R e _ _ op] unfolding f lll_unlock_code_def
    by (auto simp: lll_unlock_def d b_def insert_commute)
qed

text \<open>A word that holds 2, so that the routine is called.\<close>

definition demo_env :: "i32 code_env" where
  "demo_env = \<lparr>a_cell = \<lparr>c_rd = (\<lambda>s. s), c_wr = (\<lambda>v s. v), c_tick = (\<lambda>s. s), c_sys = (\<lambda>f s. s)\<rparr>, a_lock = 64,
     a_res = (\<lambda>_. 1), a_rcx = (\<lambda>_. 5), a_r11 = (\<lambda>_. 6), a_ret = 9\<rparr>"

definition demo_asm :: "i32 amach" where
  "demo_asm = \<lparr>rg = (\<lambda>r. if r = RSP then 4096 else 3), errno = 0, mem = 2, zf = False, stk = (\<lambda>_. 0)\<rparr>"

theorem lll_unlock_code_exact_witness:
  "\<exists>m'. runs demo_env 0 (lll_unlock_code False) 0 (lll_unlock_ops False LLL_SHARED demo_asm) m' \<and> mem m' = 0"
proof -
  have "lll_unlock (a_cell demo_env) False LLL_SHARED (mem demo_asm) = 0"
    by (simp add: demo_env_def demo_asm_def lll_unlock_def decl_def lll_unlock_wake_def storel_def Let_def)
  then show ?thesis
    using lll_unlock_code_exact [of LLL_SHARED demo_env 0 False demo_asm] by auto
qed

end
