(* ===== verification/ThreadLocal.thy ===== *)
theory ThreadLocal
  imports Syscalls
begin

unbundle bit_operations_syntax

text \<open>
  The thread's own storage (\<open>source/tls.h\<close>): the layout of the thread control block and of the thread
  descriptor (\<open>source/descr.h\<close>), the macros that access its members relative to the \<open>%fs\<close> base, and what is
  built on them; and the sequence numbers of key slots (\<open>internaltypes.h\<close>).

  Memory is a function from addresses to bytes, little endian. A layout is the list of the members with
  size and alignment, in the order of the source; \<open>place\<close> gives them their offsets by the rule of the C compiler. The
  sizes of types that are declared elsewhere are an argument. The other theories see the
  descriptor as a record; here it is shown that the macros implement the access of such a record.
\<close>

section \<open>Bytes\<close>

fun rd_le :: "nat \<Rightarrow> (u64 \<Rightarrow> 8 word) \<Rightarrow> u64 \<Rightarrow> u64" where
  "rd_le 0 m a = 0"
| "rd_le (Suc n) m a = ucast (m a) OR push_bit 8 (rd_le n m (a + 1))"

fun wr_le :: "nat \<Rightarrow> u64 \<Rightarrow> u64 \<Rightarrow> (u64 \<Rightarrow> 8 word) \<Rightarrow> (u64 \<Rightarrow> 8 word)" where
  "wr_le 0 v a m = m"
| "wr_le (Suc n) v a m = wr_le n (drop_bit 8 v) (a + 1) (m(a := ucast v))"

definition inside :: "u64 \<Rightarrow> nat \<Rightarrow> u64 \<Rightarrow> bool" where
  "inside a n b \<longleftrightarrow> (\<exists>i<n. b = a + of_nat i)"

lemma inside_Suc: "inside a (Suc n) b \<longleftrightarrow> b = a \<or> inside (a + 1) n b"
proof
  assume "inside a (Suc n) b"
  then obtain i where i: "i < Suc n" "b = a + of_nat i" by (auto simp: inside_def)
  then show "b = a \<or> inside (a + 1) n b" by (cases i) (auto simp: inside_def)
next
  assume "b = a \<or> inside (a + 1) n b"
  then show "inside a (Suc n) b"
  proof
    assume "b = a" then show ?thesis unfolding inside_def by (intro exI [of _ 0]) simp
  next
    assume "inside (a + 1) n b"
    then obtain i where "i < n" "b = a + 1 + of_nat i" by (auto simp: inside_def)
    then show ?thesis unfolding inside_def by (intro exI [of _ "Suc i"]) simp
  qed
qed

lemma wr_le_other: "\<not> inside a n b \<Longrightarrow> wr_le n v a m b = m b"
  by (induction n arbitrary: v a m) (auto simp: inside_Suc)

lemma rd_le_cong: "(\<And>b. inside a n b \<Longrightarrow> m b = m' b) \<Longrightarrow> rd_le n m a = rd_le n m' a"
  by (induction n arbitrary: a) (simp_all add: inside_Suc)

lemma unat_small: "n < 2 ^ 64 \<Longrightarrow> unat (of_nat n :: u64) = n"
  by (simp add: unsigned_of_nat take_bit_nat_eq_self)

lemma not_inside_next: "n < 2 ^ 64 \<Longrightarrow> \<not> inside (a + 1) n a" for a :: u64
proof
  assume n: "n < 2 ^ 64" and "inside (a + 1) n a"
  then obtain i where i: "i < n" "a = a + 1 + of_nat i" by (auto simp: inside_def)
  then have "(of_nat (Suc i) :: u64) = 0" by (metis add.assoc add_cancel_right_right of_nat_Suc)
  moreover have "unat (of_nat (Suc i) :: u64) = Suc i" using i(1) n by (intro unat_small) simp
  ultimately show False by simp
qed

lemma take_bit_step: "(ucast (ucast v :: 8 word) :: u64) OR push_bit 8 (take_bit k (drop_bit 8 v)) = take_bit (k + 8) v"
  by (rule bit_word_eqI) (auto simp: bit_simps)

lemma rd_wr_le: "n < 2 ^ 64 \<Longrightarrow> rd_le n (wr_le n v a m) a = take_bit (8 * n) v"
proof (induction n arbitrary: v a m)
  case 0
  show ?case by simp
next
  case (Suc n)
  have "wr_le (Suc n) v a m a = ucast v"
    using wr_le_other [OF not_inside_next [of n a]] Suc.prems by simp
  moreover have "rd_le n (wr_le n (drop_bit 8 v) (a + 1) (m(a := ucast v))) (a + 1) = take_bit (8 * n) (drop_bit 8 v)"
    using Suc by simp
  ultimately show ?case using take_bit_step [of v "8 * n"] by (simp add: algebra_simps)
qed

section \<open>Layout\<close>

type_synonym member = "string \<times> nat \<times> nat"   \<comment> \<open>name, size, alignment\<close>

definition align_to :: "nat \<Rightarrow> nat \<Rightarrow> nat" where
  "align_to off al = (off + al - 1) div al * al"

fun place :: "nat \<Rightarrow> member list \<Rightarrow> (string \<times> nat \<times> nat) list" where
  "place off [] = []"
| "place off ((n, sz, al) # ms) = (let p = align_to off al in (n, p, sz) # place (p + sz) ms)"

text \<open>Offset and size of a member.\<close>

definition field :: "member list \<Rightarrow> string \<Rightarrow> nat \<times> nat" where
  "field ms n = the (map_of (place 0 ms) n)"

fun place_end :: "nat \<Rightarrow> member list \<Rightarrow> nat" where
  "place_end off [] = off"
| "place_end off ((n, sz, al) # ms) = place_end (align_to off al + sz) ms"

fun struct_align :: "member list \<Rightarrow> nat" where
  "struct_align [] = 1"
| "struct_align ((n, sz, al) # ms) = max al (struct_align ms)"

definition size_of :: "member list \<Rightarrow> nat" where
  "size_of ms = align_to (place_end 0 ms) (struct_align ms)"

text \<open>The thread control block (tls.h).\<close>

definition tcbhead_t :: "member list" where
  "tcbhead_t =
    [(''tcb'', 8, 8), (''dtv'', 8, 8), (''self'', 8, 8), (''multiple_threads'', 4, 4), (''gscope_flag'', 4, 4),
     (''sysinfo'', 8, 8), (''stack_guard'', 8, 8), (''pointer_guard'', 8, 8), (''vgetcpu_cache'', 16, 8),
     (''__glibc_reserved1'', 4, 4), (''rtld_must_xmm_save'', 4, 4), (''__private_tm'', 32, 8),
     (''__private_ss'', 8, 8), (''__glibc_reserved2'', 8, 8), (''rtld_savespace_sse'', 8 * 4 * 16, 32),
     (''__padding'', 64, 8)]"

text \<open>The thread descriptor (descr.h). Sizes and alignments of types from other headers are an argument.\<close>

record ext_sizes =
  x_keys_max :: nat
  x_sched_param :: "nat \<times> nat"
  x_res_state :: "nat \<times> nat"

definition PTHREAD_KEY_2NDLEVEL_SIZE :: nat where "PTHREAD_KEY_2NDLEVEL_SIZE = 32"

definition PTHREAD_KEY_1STLEVEL_SIZE :: "ext_sizes \<Rightarrow> nat" where
  "PTHREAD_KEY_1STLEVEL_SIZE X = (x_keys_max X + PTHREAD_KEY_2NDLEVEL_SIZE - 1) div PTHREAD_KEY_2NDLEVEL_SIZE"

definition robust_list_head :: "member list" where
  "robust_list_head = [(''list'', 8, 8), (''futex_offset'', 8, 8), (''list_op_pending'', 8, 8)]"

definition pthread_key_data :: "member list" where
  "pthread_key_data = [(''seq'', 8, 8), (''data'', 8, 8)]"

text \<open>
  The descriptor as it is compiled, in the parts that the members left out stand between: \<open>cpuclock_offset\<close> and
  \<open>eventbuf\<close>, whose headers are commented out, and, inside the last part, \<open>exc\<close>, whose macro is not defined.
\<close>

definition pthread_ids :: "member list" where
  "pthread_ids =
    [(''header'', max (size_of tcbhead_t) (24 * 8), 32),
     (''list'', 16, 8), (''tid'', 4, 4), (''pid'', 4, 4),
     (''robust_prev'', 8, 8), (''robust_head'', size_of robust_list_head, 8)]"

definition pthread_front :: "ext_sizes \<Rightarrow> member list" where
  "pthread_front X = pthread_ids @
    [(''cleanup'', 8, 8), (''cleanup_jmp_buf'', 8, 8), (''cancelhandling'', 4, 4), (''flags'', 4, 4),
     (''specific_1stblock'', size_of pthread_key_data * PTHREAD_KEY_2NDLEVEL_SIZE, 8),
     (''specific'', 8 * PTHREAD_KEY_1STLEVEL_SIZE X, 8),
     (''specific_used'', 1, 1), (''report_events'', 1, 1), (''user_stack'', 1, 1), (''stopped_start'', 1, 1),
     (''parent_cancelhandling'', 4, 4), (''lock'', 4, 4), (''setxid_futex'', 4, 4)]"

definition pthread_mid :: "ext_sizes \<Rightarrow> member list" where
  "pthread_mid X =
    [(''joinid'', 8, 8), (''result'', 8, 8),
     (''schedparam'', fst (x_sched_param X), snd (x_sched_param X)), (''schedpolicy'', 4, 4),
     (''start_routine'', 8, 8), (''arg'', 8, 8)]"

definition pthread_back :: "ext_sizes \<Rightarrow> member list" where
  "pthread_back X =
    [(''nextevent'', 8, 8),
     (''stackblock'', 8, 8), (''stackblock_size'', 8, 8), (''guardsize'', 8, 8), (''reported_guardsize'', 8, 8),
     (''tpp'', 8, 8), (''res'', fst (x_res_state X), snd (x_res_state X)), (''end_padding'', 0, 1)]"

definition struct_pthread :: "ext_sizes \<Rightarrow> member list" where
  "struct_pthread X = pthread_front X @ pthread_mid X @ pthread_back X"

lemmas struct_pthread_unfold = struct_pthread_def pthread_ids_def pthread_front_def pthread_mid_def pthread_back_def

text \<open>Members do not overlap, whatever their sizes and alignments.\<close>

lemma align_to_ge: "0 < al \<Longrightarrow> off \<le> align_to off al"
proof -
  assume al: "0 < al"
  have "off + al - 1 < (off + al - 1) div al * al + al" using al by (metis add.commute dividend_less_div_times)
  then show ?thesis using al by (simp add: align_to_def)
qed

lemma align_to_dvd: "al dvd align_to off al"
  by (simp add: align_to_def)

definition aligned_members :: "member list \<Rightarrow> bool" where
  "aligned_members ms \<longleftrightarrow> (\<forall>(n, sz, al) \<in> set ms. 0 < al)"

lemma place_from: "aligned_members ms \<Longrightarrow> (n, p, sz) \<in> set (place off ms) \<Longrightarrow> off \<le> p"
proof (induction ms arbitrary: off)
  case Nil
  then show ?case by simp
next
  case (Cons m ms)
  obtain n' sz' al where m: "m = (n', sz', al)" by (cases m) auto
  have ge: "off \<le> align_to off al" using Cons.prems(1) by (intro align_to_ge) (simp add: aligned_members_def m)
  have ms: "aligned_members ms" using Cons.prems(1) by (simp add: aligned_members_def)
  from Cons.prems(2) consider "p = align_to off al" | "(n, p, sz) \<in> set (place (align_to off al + sz') ms)"
    by (auto simp: m Let_def)
  then show ?case
  proof cases
    case 1 then show ?thesis using ge by simp
  next
    case 2 then show ?thesis using Cons.IH [OF ms] ge by fastforce
  qed
qed

lemma place_disjoint:
  "aligned_members ms \<Longrightarrow> (n, p, sz) \<in> set (place off ms) \<Longrightarrow> (n', p', sz') \<in> set (place off ms) \<Longrightarrow>
     n \<noteq> n' \<Longrightarrow> p + sz \<le> p' \<or> p' + sz' \<le> p"
proof (induction ms arbitrary: off)
  case Nil
  then show ?case by simp
next
  case (Cons m ms)
  obtain k s al where m: "m = (k, s, al)" by (cases m) auto
  let ?p = "align_to off al"
  have ms: "aligned_members ms" using Cons.prems(1) by (simp add: aligned_members_def)
  have x: "(n, p, sz) = (k, ?p, s) \<or> (n, p, sz) \<in> set (place (?p + s) ms)"
    "(n', p', sz') = (k, ?p, s) \<or> (n', p', sz') \<in> set (place (?p + s) ms)"
    using Cons.prems(2,3) by (auto simp: m Let_def)
  show ?case
    using x Cons.IH [OF ms, of "?p + s"] Cons.prems(4) place_from [OF ms, of _ _ _ "?p + s"] by auto
qed

section \<open>Access to members of the descriptor (tls.h)\<close>

record tls =
  fs :: u64
  bytes :: "u64 \<Rightarrow> 8 word"

text \<open>\<open>%%fs:off\<close> is the address \<open>fs + off\<close>. A member is its offset and size.\<close>

definition fs_addr :: "tls \<Rightarrow> nat \<Rightarrow> u64" where
  "fs_addr s off = fs s + of_nat off"

definition mov_from :: "nat \<Rightarrow> u64 \<Rightarrow> tls \<Rightarrow> (u64, tls) out" where
  "mov_from n a s = Ret (rd_le n (bytes s) a) s"

definition mov_to :: "nat \<Rightarrow> u64 \<Rightarrow> u64 \<Rightarrow> tls \<Rightarrow> (unit, tls) out" where
  "mov_to n v a s = Ret () (s\<lparr>bytes := wr_le n v a (bytes s)\<rparr>)"

definition THREAD_GETMEM :: "nat \<times> nat \<Rightarrow> tls \<Rightarrow> (u64, tls) out" where
  "THREAD_GETMEM member s =
     (case member of (off, size_of_value) \<Rightarrow>
        if size_of_value = 1 then mov_from 1 (fs_addr s off) s
        else if size_of_value = 4 then mov_from 4 (fs_addr s off) s
        else if size_of_value \<noteq> 8 then Abort
        else mov_from 8 (fs_addr s off) s)"

text \<open>The versions for an element of an array member: the member is the offset of the array and the size of an
  element; the index is scaled by the addressing mode.\<close>

definition THREAD_GETMEM_NC :: "nat \<times> nat \<Rightarrow> u64 \<Rightarrow> tls \<Rightarrow> (u64, tls) out" where
  "THREAD_GETMEM_NC member idx s =
     (case member of (off, size_of_value) \<Rightarrow>
        if size_of_value = 1 then mov_from 1 (fs_addr s off + idx) s
        else if size_of_value = 4 then mov_from 4 (fs_addr s off + idx * 4) s
        else if size_of_value \<noteq> 8 then Abort
        else mov_from 8 (fs_addr s off + idx * 8) s)"

text \<open>\<open>(uint64_t) cast_to_integer (value)\<close>: a pointer as an integer of its size, an \<open>int\<close> with its sign extended. Of
  the value of a member of one or four bytes only the low bytes are stored.\<close>

definition cast_to_integer :: "cval \<Rightarrow> u64" where
  "cast_to_integer v = long_int v"

definition THREAD_SETMEM :: "nat \<times> nat \<Rightarrow> cval \<Rightarrow> tls \<Rightarrow> (unit, tls) out" where
  "THREAD_SETMEM member v s =
     (case member of (off, size_of_member) \<Rightarrow>
        if size_of_member = 1 then mov_to 1 (long_int v) (fs_addr s off) s
        else if size_of_member = 4 then mov_to 4 (long_int v) (fs_addr s off) s
        else if size_of_member \<noteq> 8 then Abort
        else mov_to 8 (cast_to_integer v) (fs_addr s off) s)"

definition THREAD_SETMEM_NC :: "nat \<times> nat \<Rightarrow> u64 \<Rightarrow> cval \<Rightarrow> tls \<Rightarrow> (unit, tls) out" where
  "THREAD_SETMEM_NC member idx v s =
     (case member of (off, size_of_member) \<Rightarrow>
        if size_of_member = 1 then mov_to 1 (long_int v) (fs_addr s off + idx) s
        else if size_of_member = 4 then mov_to 4 (long_int v) (fs_addr s off + idx * 4) s
        else if size_of_member \<noteq> 8 then Abort
        else mov_to 8 (cast_to_integer v) (fs_addr s off + idx * 8) s)"

lemma inside_split: "inside (b + of_nat p) n a \<Longrightarrow> \<exists>i. p \<le> i \<and> i < p + n \<and> a = b + of_nat i"
proof -
  assume "inside (b + of_nat p) n a"
  then obtain j where "j < n" "a = b + of_nat p + of_nat j" by (auto simp: inside_def)
  then show ?thesis by (intro exI [of _ "p + j"]) (simp add: algebra_simps)
qed

lemma ranges_disjoint:
  assumes "p + n \<le> q \<or> q + k \<le> p" and "p + n \<le> 2 ^ 64" and "q + k \<le> 2 ^ 64"
    and "inside (b + of_nat p) n a" and "inside (b + of_nat q) k a"
  shows False
proof -
  obtain i j where ij: "p \<le> i" "i < p + n" "q \<le> j" "j < q + k" "b + of_nat i = b + of_nat j"
    using inside_split [OF assms(4)] inside_split [OF assms(5)] by blast
  from ij(5) have e: "(of_nat i :: u64) = of_nat j" by simp
  have "i < 2 ^ 64" "j < 2 ^ 64" using ij assms(2,3) by linarith+
  then have "i = j" using arg_cong [OF e, of unat] by (simp add: unat_small)
  then show False using ij assms(1) by linarith
qed

text \<open>Offsets of the descriptor: every member that is named has one, and they end below \<open>place_end\<close>.\<close>

lemma place_end_ge: "aligned_members ms \<Longrightarrow> off \<le> place_end off ms"
proof (induction ms arbitrary: off)
  case (Cons m ms)
  obtain k s al where m: "m = (k, s, al)" by (cases m) auto
  have "off \<le> align_to off al" using Cons.prems by (intro align_to_ge) (simp add: aligned_members_def m)
  moreover have "align_to off al + s \<le> place_end (align_to off al + s) ms"
    using Cons by (simp add: aligned_members_def m)
  ultimately show ?case by (simp add: m)
qed simp

lemma place_below: "aligned_members ms \<Longrightarrow> (n, p, sz) \<in> set (place off ms) \<Longrightarrow> p + sz \<le> place_end off ms"
proof (induction ms arbitrary: off)
  case (Cons m ms)
  obtain k s al where m: "m = (k, s, al)" by (cases m) auto
  have ms: "aligned_members ms" using Cons.prems(1) by (simp add: aligned_members_def)
  show ?case
    using Cons.prems(2) Cons.IH [OF ms] place_end_ge [OF ms] by (auto simp: m Let_def)
qed simp

lemma place_names: "map fst (place off ms) = map fst ms"
  by (induction ms arbitrary: off) (auto simp: Let_def)

lemma place_has: "(n, sz, al) \<in> set ms \<Longrightarrow> \<exists>p. (n, p, sz) \<in> set (place off ms)"
proof (induction ms arbitrary: off)
  case (Cons m ms)
  obtain k s a where m: "m = (k, s, a)" by (cases m) auto
  show ?case using Cons by (cases "(n, sz, al) = m") (auto simp: m Let_def)
qed simp

lemma field_placed:
  assumes "distinct (map fst ms)" and "(n, sz, al) \<in> set ms"
  shows "(n, fst (field ms n), sz) \<in> set (place 0 ms) \<and> snd (field ms n) = sz"
proof -
  obtain p where p: "(n, p, sz) \<in> set (place 0 ms)" using place_has [OF assms(2)] by blast
  have "map_of (place 0 ms) n = Some (p, sz)"
    using assms(1) p by (intro map_of_is_SomeI) (simp_all add: place_names)
  then show ?thesis using p by (simp add: field_def)
qed

definition wf_sizes :: "ext_sizes \<Rightarrow> bool" where
  "wf_sizes X \<longleftrightarrow> 0 < snd (x_sched_param X) \<and> 0 < snd (x_res_state X) \<and> place_end 0 (struct_pthread X) \<le> 2 ^ 64"

lemma pthread_names: "distinct (map fst (struct_pthread X))"
  by (simp add: struct_pthread_unfold)

lemma pthread_aligned: "wf_sizes X \<Longrightarrow> aligned_members (struct_pthread X)"
proof -
  assume "wf_sizes X"
  then have "0 < snd (x_sched_param X)" "0 < snd (x_res_state X)" unfolding wf_sizes_def by blast+
  then show ?thesis by (simp add: aligned_members_def struct_pthread_unfold case_prod_unfold)
qed

text \<open>A member or a part of one: its place in the descriptor.\<close>

definition part_of :: "ext_sizes \<Rightarrow> string \<Rightarrow> nat \<times> nat \<Rightarrow> bool" where
  "part_of X n f \<longleftrightarrow> (\<exists>p sz. (n, p, sz) \<in> set (place 0 (struct_pthread X)) \<and> p \<le> fst f \<and> fst f + snd f \<le> p + sz)"

lemma parts_disjoint:
  assumes "wf_sizes X" and "part_of X n f" and "part_of X n' g" and "n \<noteq> n'"
  shows "fst f + snd f \<le> fst g \<or> fst g + snd g \<le> fst f"
proof -
  obtain p sz p' sz' where m: "(n, p, sz) \<in> set (place 0 (struct_pthread X))" "p \<le> fst f" "fst f + snd f \<le> p + sz"
    "(n', p', sz') \<in> set (place 0 (struct_pthread X))" "p' \<le> fst g" "fst g + snd g \<le> p' + sz'"
    using assms(2,3) by (auto simp: part_of_def)
  show ?thesis
    using place_disjoint [OF pthread_aligned [OF assms(1)] m(1,4) assms(4)] m by linarith
qed

lemma part_below: "wf_sizes X \<Longrightarrow> part_of X n f \<Longrightarrow> fst f + snd f \<le> 2 ^ 64"
  unfolding part_of_def using place_below [OF pthread_aligned] by (fastforce simp: wf_sizes_def)

lemma part_member: "(n, sz, al) \<in> set (struct_pthread X) \<Longrightarrow> part_of X n (field (struct_pthread X) n)"
  unfolding part_of_def using field_placed [OF pthread_names] by fastforce

section \<open>Reading what was written\<close>

definition width_ok :: "nat \<Rightarrow> bool" where
  "width_ok n \<longleftrightarrow> n = 1 \<or> n = 4 \<or> n = 8"

definition peek :: "nat \<times> nat \<Rightarrow> tls \<Rightarrow> u64" where
  "peek f s = rd_le (snd f) (bytes s) (fs_addr s (fst f))"

definition poke :: "nat \<times> nat \<Rightarrow> u64 \<Rightarrow> tls \<Rightarrow> tls" where
  "poke f v s = s\<lparr>bytes := wr_le (snd f) v (fs_addr s (fst f)) (bytes s)\<rparr>"

lemma getmem_eq: "THREAD_GETMEM f s = (if width_ok (snd f) then Ret (peek f s) s else Abort)"
  by (cases f) (simp add: THREAD_GETMEM_def mov_from_def peek_def width_ok_def)

lemma setmem_eq: "THREAD_SETMEM f v s = (if width_ok (snd f) then Ret () (poke f (long_int v) s) else Abort)"
  by (cases f) (simp add: THREAD_SETMEM_def mov_to_def poke_def width_ok_def cast_to_integer_def)

text \<open>An element of an array is a part of the member.\<close>

lemma getmem_nc_eq: "THREAD_GETMEM_NC (p, sz) i s = THREAD_GETMEM (p + sz * unat i, sz) s"
  by (simp add: THREAD_GETMEM_NC_def THREAD_GETMEM_def mov_from_def fs_addr_def algebra_simps)

lemma setmem_nc_eq: "THREAD_SETMEM_NC (p, sz) i v s = THREAD_SETMEM (p + sz * unat i, sz) v s"
  by (simp add: THREAD_SETMEM_NC_def THREAD_SETMEM_def mov_to_def fs_addr_def algebra_simps)

lemma peek_poke: "snd f \<le> 8 \<Longrightarrow> peek f (poke f v s) = take_bit (8 * snd f) v"
  by (simp add: peek_def poke_def fs_addr_def rd_wr_le)

lemma peek_poke_other:
  assumes "fst f + snd f \<le> fst g \<or> fst g + snd g \<le> fst f"
    and "fst f + snd f \<le> 2 ^ 64" and "fst g + snd g \<le> 2 ^ 64"
  shows "peek g (poke f v s) = peek g s"
proof -
  have "wr_le (snd f) v (fs_addr s (fst f)) (bytes s) b = bytes s b" if "inside (fs_addr s (fst g)) (snd g) b" for b
    using ranges_disjoint [OF assms] that unfolding fs_addr_def by (intro wr_le_other) blast
  then have "rd_le (snd g) (wr_le (snd f) v (fs_addr s (fst f)) (bytes s)) (fs_addr s (fst g))
      = rd_le (snd g) (bytes s) (fs_addr s (fst g))" by (rule rd_le_cong)
  then show ?thesis by (simp add: peek_def poke_def fs_addr_def)
qed

section \<open>The thread pointer and the members of the control block (tls.h)\<close>

text \<open>Members of the header are at their offset in the control block, with which the descriptor begins.\<close>

definition header :: "string \<Rightarrow> nat \<times> nat" where
  "header n = field tcbhead_t n"

text \<open>Access through a pointer to a descriptor.\<close>

definition load_at :: "u64 \<Rightarrow> nat \<times> nat \<Rightarrow> tls \<Rightarrow> u64" where
  "load_at d f s = rd_le (snd f) (bytes s) (d + of_nat (fst f))"

definition store_at :: "u64 \<Rightarrow> nat \<times> nat \<Rightarrow> u64 \<Rightarrow> tls \<Rightarrow> tls" where
  "store_at d f v s = s\<lparr>bytes := wr_le (snd f) v (d + of_nat (fst f)) (bytes s)\<rparr>"

text \<open>\<open>(dtvp) + 1\<close> is one element further; a \<open>dtv_t\<close> is a union of a counter with a pointer and a flag, 16 bytes.\<close>

definition INSTALL_DTV :: "u64 \<Rightarrow> u64 \<Rightarrow> tls \<Rightarrow> tls" where
  "INSTALL_DTV descr dtvp s = store_at descr (header ''dtv'') (dtvp + 16) s"

definition GET_DTV :: "u64 \<Rightarrow> tls \<Rightarrow> u64" where
  "GET_DTV descr s = load_at descr (header ''dtv'') s"

definition INSTALL_NEW_DTV :: "u64 \<Rightarrow> tls \<Rightarrow> (unit, tls) out" where
  "INSTALL_NEW_DTV dtvp s = THREAD_SETMEM (header ''dtv'') (CLong dtvp) s"

definition THREAD_DTV :: "tls \<Rightarrow> (u64, tls) out" where
  "THREAD_DTV s = THREAD_GETMEM (header ''dtv'') s"

definition THREAD_SELF :: "tls \<Rightarrow> u64" where
  "THREAD_SELF s = peek (header ''self'') s"

text \<open>\<open>prctl\<close> is the system call with its number and the code \<open>ARCH_SET_FS\<close>, which sets the \<open>%fs\<close> base. The result is the
  text of the error or none.\<close>

definition TLS_INIT_TP :: "(u64 \<Rightarrow> tls \<Rightarrow> i32 \<times> tls) \<Rightarrow> u64 \<Rightarrow> tls \<Rightarrow> string option \<times> tls" where
  "TLS_INIT_TP prctl thrdescr s =
     (let s = store_at thrdescr (header ''tcb'') thrdescr s;
          s = store_at thrdescr (header ''self'') thrdescr s
      in case prctl thrdescr s of (result, s) \<Rightarrow>
           (if result \<noteq> 0 then Some ''cannot set %fs base address for thread-local storage'' else None, s))"

definition THREAD_SET_STACK_GUARD :: "u64 \<Rightarrow> tls \<Rightarrow> (unit, tls) out" where
  "THREAD_SET_STACK_GUARD v s = THREAD_SETMEM (header ''stack_guard'') (CLong v) s"

definition THREAD_COPY_STACK_GUARD :: "u64 \<Rightarrow> tls \<Rightarrow> (unit, tls) out" where
  "THREAD_COPY_STACK_GUARD descr s =
     bnd (THREAD_GETMEM (header ''stack_guard'') s) (\<lambda>v s. Ret () (store_at descr (header ''stack_guard'') v s))"

definition THREAD_SET_POINTER_GUARD :: "u64 \<Rightarrow> tls \<Rightarrow> (unit, tls) out" where
  "THREAD_SET_POINTER_GUARD v s = THREAD_SETMEM (header ''pointer_guard'') (CLong v) s"

definition THREAD_COPY_POINTER_GUARD :: "u64 \<Rightarrow> tls \<Rightarrow> (unit, tls) out" where
  "THREAD_COPY_POINTER_GUARD descr s =
     bnd (THREAD_GETMEM (header ''pointer_guard'') s) (\<lambda>v s. Ret () (store_at descr (header ''pointer_guard'') v s))"

text \<open>The start function of a thread, called with its argument: \<open>call\<close> is what calling the code at an address does.\<close>

definition CALL_THREAD_FCT :: "(u64 \<Rightarrow> u64 \<Rightarrow> tls \<Rightarrow> (u64, tls) out) \<Rightarrow> ext_sizes \<Rightarrow> tls \<Rightarrow> (u64, tls) out" where
  "CALL_THREAD_FCT call X s =
     call (peek (field (struct_pthread X) ''start_routine'') s) (peek (field (struct_pthread X) ''arg'') s) s"

definition IS_DETACHED :: "ext_sizes \<Rightarrow> u64 \<Rightarrow> tls \<Rightarrow> bool" where
  "IS_DETACHED X pd s \<longleftrightarrow> load_at pd (field (struct_pthread X) ''joinid'') s = pd"

definition PTHREAD_STRUCT_END_PADDING :: "ext_sizes \<Rightarrow> nat" where
  "PTHREAD_STRUCT_END_PADDING X = size_of (struct_pthread X) - fst (field (struct_pthread X) ''end_padding'')"

section \<open>The global scope flag (tls.h)\<close>

definition THREAD_GSCOPE_FLAG_UNUSED :: i32 where "THREAD_GSCOPE_FLAG_UNUSED = 0"
definition THREAD_GSCOPE_FLAG_USED :: i32 where "THREAD_GSCOPE_FLAG_USED = 1"
definition THREAD_GSCOPE_FLAG_WAIT :: i32 where "THREAD_GSCOPE_FLAG_WAIT = 2"

definition THREAD_GSCOPE_RESET_FLAG :: "'s cell \<Rightarrow> 's \<Rightarrow> 's" where
  "THREAD_GSCOPE_RESET_FLAG C s =
     (case xchgl C THREAD_GSCOPE_FLAG_UNUSED s of (res, s) \<Rightarrow>
        if res = THREAD_GSCOPE_FLAG_WAIT then lll_futex_wake C 1 LLL_PRIVATE s else s)"

definition THREAD_GSCOPE_SET_FLAG :: "'s cell \<Rightarrow> 's \<Rightarrow> 's" where
  "THREAD_GSCOPE_SET_FLAG C s = storel C THREAD_GSCOPE_FLAG_USED s"

section \<open>Calls out of the dynamic linker (tls.h, for SHARED)\<close>

definition RTLD_CHECK_FOREIGN_CALL :: "tls \<Rightarrow> bool" where
  "RTLD_CHECK_FOREIGN_CALL s \<longleftrightarrow> peek (header ''rtld_must_xmm_save'') s \<noteq> 0"

definition RTLD_ENABLE_FOREIGN_CALL :: "tls \<Rightarrow> (u64, tls) out" where
  "RTLD_ENABLE_FOREIGN_CALL s =
     bnd (THREAD_GETMEM (header ''rtld_must_xmm_save'') s) (\<lambda>old s.
     bnd (THREAD_SETMEM (header ''rtld_must_xmm_save'') (CInt 1) s) (\<lambda>_ s. Ret old s))"

definition RTLD_PREPARE_FOREIGN_CALL :: "(tls \<Rightarrow> tls) \<Rightarrow> tls \<Rightarrow> (unit, tls) out" where
  "RTLD_PREPARE_FOREIGN_CALL save s =
     bnd (THREAD_GETMEM (header ''rtld_must_xmm_save'') s) (\<lambda>v s.
       if v \<noteq> 0 then THREAD_SETMEM (header ''rtld_must_xmm_save'') (CInt 0) (save s) else Ret () s)"

definition RTLD_FINALIZE_FOREIGN_CALL :: "(tls \<Rightarrow> tls) \<Rightarrow> u64 \<Rightarrow> tls \<Rightarrow> (unit, tls) out" where
  "RTLD_FINALIZE_FOREIGN_CALL restore old s =
     bnd (THREAD_GETMEM (header ''rtld_must_xmm_save'') s) (\<lambda>v s.
       THREAD_SETMEM (header ''rtld_must_xmm_save'') (CInt (lo32 old)) (if v = 0 then restore s else s))"

section \<open>Lemmas\<close>

lemma bit_rd_le: "bit (rd_le n m a) i \<Longrightarrow> i < 8 * n"
proof (induction n arbitrary: a i)
  case (Suc n)
  from Suc.prems have "bit (m a) i \<or> 8 \<le> i \<and> bit (rd_le n m (a + 1)) (i - 8)" by (auto simp: bit_simps)
  then show ?case
  proof
    assume "bit (m a) i" then show ?thesis using bit_imp_le_length [of "m a" i] by simp
  next
    assume "8 \<le> i \<and> bit (rd_le n m (a + 1)) (i - 8)" then show ?thesis using Suc.IH [of "a + 1" "i - 8"] by simp
  qed
qed simp

lemma zx_lo32_peek: "snd f = 4 \<Longrightarrow> zx (lo32 (peek f s)) = peek f s"
  unfolding zx_def lo32_def peek_def
  by (rule bit_word_eqI) (use bit_rd_le [of 4 "bytes s" "fs_addr s (fst f)"] in \<open>auto simp: bit_simps\<close>)

lemma peek_other:
  "wf_sizes X \<Longrightarrow> part_of X n f \<Longrightarrow> part_of X n' g \<Longrightarrow> n \<noteq> n' \<Longrightarrow> peek g (poke f v s) = peek g s"
  by (intro peek_poke_other parts_disjoint part_below)

abbreviation pmember :: "ext_sizes \<Rightarrow> string \<Rightarrow> nat \<times> nat" where
  "pmember X n \<equiv> field (struct_pthread X) n"

definition pending :: "ext_sizes \<Rightarrow> nat \<times> nat" where
  "pending X = (fst (pmember X ''robust_head'') + fst (field robust_list_head ''list_op_pending''), 8)"

lemma robust_head_layout:
  "field robust_list_head ''list_op_pending'' = (16, 8)" "size_of robust_list_head = 24"
  by code_simp+

lemma tcb_layout:
  "header ''tcb'' = (0, 8)" "header ''dtv'' = (8, 8)" "header ''self'' = (16, 8)" "header ''gscope_flag'' = (28, 4)"
  "header ''stack_guard'' = (40, 8)" "header ''pointer_guard'' = (48, 8)" "header ''rtld_must_xmm_save'' = (76, 4)"
  "size_of tcbhead_t = 704"
  by code_simp+

lemma in_pthread:
  "(''tid'', 4, 4) \<in> set (struct_pthread X)" "(''cancelhandling'', 4, 4) \<in> set (struct_pthread X)"
  "(''flags'', 4, 4) \<in> set (struct_pthread X)" "(''lock'', 4, 4) \<in> set (struct_pthread X)"
  "(''cleanup'', 8, 8) \<in> set (struct_pthread X)" "(''result'', 8, 8) \<in> set (struct_pthread X)"
  "(''robust_head'', 24, 8) \<in> set (struct_pthread X)"
  by (simp_all add: struct_pthread_unfold robust_head_layout)

lemmas pmember_size = in_pthread [THEN field_placed [OF pthread_names, THEN conjunct2]]

lemmas pmember_part = in_pthread [THEN part_member]

lemma pending_part: "part_of X ''robust_head'' (pending X)"
  using field_placed [OF pthread_names in_pthread(7)]
  unfolding part_of_def pending_def robust_head_layout fst_conv snd_conv
  by (intro exI conjI, rule conjunct1) auto

text \<open>The record of the other theories, as far as these members go, read out of the storage.\<close>

definition self_view :: "ext_sizes \<Rightarrow> tls \<Rightarrow> pthread \<Rightarrow> pthread" where
  "self_view X s p = p\<lparr>
     p_tid := lo32 (peek (pmember X ''tid'') s), p_pending := peek (pending X) s,
     p_cleanup := peek (pmember X ''cleanup'') s, p_cancelhandling := lo32 (peek (pmember X ''cancelhandling'') s),
     p_flags := lo32 (peek (pmember X ''flags'') s), p_lock := lo32 (peek (pmember X ''lock'') s),
     p_result := peek (pmember X ''result'') s\<rparr>"

lemma pending_size: "snd (pending X) = 8"
  by (simp add: pending_def)

lemma take_64 [simp]: "take_bit 64 v = v" for v :: u64
  by (rule bit_word_eqI) (simp add: bit_simps)

lemma setmem_8: "snd f = 8 \<Longrightarrow> THREAD_SETMEM f (CLong v) s = Ret () (poke f v s)"
  by (simp add: setmem_eq width_ok_def)

lemma setmem_4: "snd f = 4 \<Longrightarrow> THREAD_SETMEM f (CInt v) s = Ret () (poke f (sx v) s)"
  by (simp add: setmem_eq width_ok_def)

lemma peek_poke_8: "snd f = 8 \<Longrightarrow> peek f (poke f v s) = v"
  by (simp add: peek_poke)

lemma lo32_take: "lo32 (take_bit 32 v) = lo32 v"
  unfolding lo32_def by (rule bit_word_eqI) (simp add: bit_simps)

lemma peek_poke_4: "snd f = 4 \<Longrightarrow> lo32 (peek f (poke f (sx v) s)) = v"
  by (simp add: peek_poke lo32_take)

text \<open>Each assignment changes just its member of the record.\<close>

lemma view_frame:
  assumes "wf_sizes X"
  shows "self_view X (poke (pending X) v s) p = (self_view X s p)\<lparr>p_pending := v\<rparr>"
    and "self_view X (poke (pmember X ''cleanup'') v s) p = (self_view X s p)\<lparr>p_cleanup := v\<rparr>"
    and "self_view X (poke (pmember X ''result'') v s) p = (self_view X s p)\<lparr>p_result := v\<rparr>"
    and "self_view X (poke (pmember X ''cancelhandling'') (sx w) s) p = (self_view X s p)\<lparr>p_cancelhandling := w\<rparr>"
    and "self_view X (poke (pmember X ''flags'') (sx w) s) p = (self_view X s p)\<lparr>p_flags := w\<rparr>"
proof -
  note o = peek_other [OF assms]
  note q = pmember_part [of X] pending_part [of X]
  show "self_view X (poke (pending X) v s) p = (self_view X s p)\<lparr>p_pending := v\<rparr>"
    by (simp add: self_view_def peek_poke_8 pending_size o [OF q(8) q(1)] o [OF q(8) q(2)] o [OF q(8) q(3)]
        o [OF q(8) q(4)] o [OF q(8) q(5)] o [OF q(8) q(6)])
  show "self_view X (poke (pmember X ''cleanup'') v s) p = (self_view X s p)\<lparr>p_cleanup := v\<rparr>"
    by (simp add: self_view_def peek_poke_8 pmember_size o [OF q(5) q(1)] o [OF q(5) q(2)] o [OF q(5) q(3)]
        o [OF q(5) q(4)] o [OF q(5) q(6)] o [OF q(5) q(8)])
  show "self_view X (poke (pmember X ''result'') v s) p = (self_view X s p)\<lparr>p_result := v\<rparr>"
    by (simp add: self_view_def peek_poke_8 pmember_size o [OF q(6) q(1)] o [OF q(6) q(2)] o [OF q(6) q(3)]
        o [OF q(6) q(4)] o [OF q(6) q(5)] o [OF q(6) q(8)])
  show "self_view X (poke (pmember X ''cancelhandling'') (sx w) s) p = (self_view X s p)\<lparr>p_cancelhandling := w\<rparr>"
    by (simp add: self_view_def peek_poke_4 pmember_size o [OF q(2) q(1)] o [OF q(2) q(3)] o [OF q(2) q(4)]
        o [OF q(2) q(5)] o [OF q(2) q(6)] o [OF q(2) q(8)])
  show "self_view X (poke (pmember X ''flags'') (sx w) s) p = (self_view X s p)\<lparr>p_flags := w\<rparr>"
    by (simp add: self_view_def peek_poke_4 pmember_size o [OF q(3) q(1)] o [OF q(3) q(2)] o [OF q(3) q(4)]
        o [OF q(3) q(5)] o [OF q(3) q(6)] o [OF q(3) q(8)])
qed

lemma peek_store_same: "snd f \<le> 8 \<Longrightarrow> load_at d f (store_at d f v s) = take_bit (8 * snd f) v"
  by (simp add: load_at_def store_at_def rd_wr_le)

lemma load_store_other:
  assumes "fst f + snd f \<le> fst g \<or> fst g + snd g \<le> fst f" and "fst f + snd f \<le> 2 ^ 64" and "fst g + snd g \<le> 2 ^ 64"
  shows "load_at d g (store_at d f v s) = load_at d g s"
proof -
  have "wr_le (snd f) v (d + of_nat (fst f)) (bytes s) b = bytes s b" if "inside (d + of_nat (fst g)) (snd g) b" for b
    using ranges_disjoint [OF assms] that by (intro wr_le_other) blast
  then have "rd_le (snd g) (wr_le (snd f) v (d + of_nat (fst f)) (bytes s)) (d + of_nat (fst g))
      = rd_le (snd g) (bytes s) (d + of_nat (fst g))" by (rule rd_le_cong)
  then show ?thesis by (simp add: load_at_def store_at_def)
qed

lemma dtv_round_trip: "GET_DTV d (INSTALL_DTV d p s) = p + 16"
  by (simp add: GET_DTV_def INSTALL_DTV_def peek_store_same tcb_layout)

lemma new_dtv_round_trip: "bnd (INSTALL_NEW_DTV p s) (\<lambda>_. THREAD_DTV) = Ret p (poke (header ''dtv'') p s)"
  by (simp add: INSTALL_NEW_DTV_def THREAD_DTV_def setmem_eq getmem_eq tcb_layout width_ok_def peek_poke_8)

text \<open>A new thread's descriptor gets the guards of its creator.\<close>

lemma guards_copied:
  assumes "THREAD_COPY_STACK_GUARD d s = Ret () t" and "THREAD_COPY_POINTER_GUARD d t = Ret () u"
  shows "load_at d (header ''stack_guard'') t = peek (header ''stack_guard'') s"
    and "load_at d (header ''pointer_guard'') u = peek (header ''pointer_guard'') t"
    and "load_at d (header ''stack_guard'') u = load_at d (header ''stack_guard'') t"
  using assms
  by (auto simp: THREAD_COPY_STACK_GUARD_def THREAD_COPY_POINTER_GUARD_def getmem_eq tcb_layout width_ok_def
      peek_store_same load_store_other)

lemma gscope_reset:
  assumes "futex_cell C"
  shows "THREAD_GSCOPE_RESET_FLAG C s =
     (let t = c_wr C 0 (c_tick C s) in if c_rd C (c_tick C s) = 2 then lll_futex_wake C 1 LLL_PRIVATE t else t)"
    and "c_rd C (THREAD_GSCOPE_RESET_FLAG C s) = 0"
  using assms by (simp_all add: THREAD_GSCOPE_RESET_FLAG_def futex_cell.xchgl_eq futex_cell.rd_sys futex_cell.rd_wr
      THREAD_GSCOPE_FLAG_UNUSED_def THREAD_GSCOPE_FLAG_WAIT_def lll_futex_wake_def Let_def)

text \<open>
  A call out of the linker between \<open>ENABLE\<close> and \<open>FINALIZE\<close>: the registers are saved once, however often the
  call is prepared, restored exactly if they were saved, and the flag has its old value again.
\<close>

definition xmm :: "tls \<Rightarrow> u64" where
  "xmm s = peek (header ''rtld_must_xmm_save'') s"

lemma rtld_steps:
  "RTLD_ENABLE_FOREIGN_CALL s = Ret (xmm s) (poke (header ''rtld_must_xmm_save'') 1 s)"
  "RTLD_PREPARE_FOREIGN_CALL save s =
     (if xmm s \<noteq> 0 then Ret () (poke (header ''rtld_must_xmm_save'') 0 (save s)) else Ret () s)"
  "RTLD_FINALIZE_FOREIGN_CALL restore old s =
     Ret () (poke (header ''rtld_must_xmm_save'') (sx (lo32 old)) (if xmm s = 0 then restore s else s))"
  by (simp_all add: RTLD_ENABLE_FOREIGN_CALL_def RTLD_PREPARE_FOREIGN_CALL_def RTLD_FINALIZE_FOREIGN_CALL_def
      getmem_eq setmem_eq tcb_layout width_ok_def xmm_def sx_def)

lemma xmm_poke: "xmm (poke (header ''rtld_must_xmm_save'') v s) = take_bit 32 v"
  by (simp add: xmm_def peek_poke tcb_layout)

lemma foreign_call_once:
  "bnd (RTLD_PREPARE_FOREIGN_CALL save (poke (header ''rtld_must_xmm_save'') 1 s))
       (\<lambda>_. RTLD_PREPARE_FOREIGN_CALL save) =
   RTLD_PREPARE_FOREIGN_CALL save (poke (header ''rtld_must_xmm_save'') 1 s)"
  by (simp add: rtld_steps xmm_poke)

lemma foreign_call_finalized:
  "RTLD_FINALIZE_FOREIGN_CALL restore (xmm s) t = Ret () u \<Longrightarrow> xmm u = xmm s"
proof -
  have "take_bit 32 (sx (lo32 (xmm s))) = zx (lo32 (xmm s))"
    unfolding sx_def zx_def
  proof (rule bit_word_eqI)
    fix n assume "n < LENGTH(64)"
    show "bit (take_bit 32 (scast (lo32 (xmm s)) :: u64)) n = bit (ucast (lo32 (xmm s)) :: u64) n"
      using bit_imp_le_length [of "lo32 (xmm s)" n] min_absorb2 [of n 31] by (cases "n < 32") (auto simp: bit_simps)
  qed
  then show "RTLD_FINALIZE_FOREIGN_CALL restore (xmm s) t = Ret () u \<Longrightarrow> xmm u = xmm s"
    by (auto simp: rtld_steps xmm_poke) (simp add: xmm_def zx_lo32_peek tcb_layout)
qed

section \<open>Slots of keys (internaltypes.h)\<close>

text \<open>The sequence number of a slot is even while it is not in use. One that is usable can be taken and given back, and
  its number has grown each time.\<close>

record pthread_key_struct =
  k_seq :: u64
  k_destr :: u64

definition KEY_UNUSED :: "u64 \<Rightarrow> bool" where "KEY_UNUSED p \<longleftrightarrow> p AND 1 = 0"
definition KEY_USABLE :: "u64 \<Rightarrow> bool" where "KEY_USABLE p \<longleftrightarrow> p < p + 2"

lemma key_usable_iff: "KEY_USABLE p \<longleftrightarrow> unat p + 2 < 2 ^ 64"
proof -
  have "unat (p + 2) = (if unat p + 2 < 2 ^ 64 then unat p + 2 else unat p + 2 - 2 ^ 64)"
    using unat_plus_if' [of p 2] by simp
  moreover have "unat p < 2 ^ 64" using unsigned_less [of p, where 'a = nat] by simp
  ultimately show ?thesis by (auto simp: KEY_USABLE_def word_less_nat_alt)
qed

lemma key_reuse:
  assumes "KEY_USABLE p" and "KEY_UNUSED p"
  shows "\<not> KEY_UNUSED (p + 1)" "KEY_UNUSED (p + 2)" "p < p + 1" "p + 1 < p + 2"
proof -
  have "even p" using assms(2) by (simp add: KEY_UNUSED_def and_one_eq even_iff_mod_2_eq_zero)
  then show "\<not> KEY_UNUSED (p + 1)" "KEY_UNUSED (p + 2)"
    by (simp_all add: KEY_UNUSED_def and_one_eq odd_iff_mod_2_eq_one flip: even_iff_mod_2_eq_zero)
  have u: "unat p + 2 < 2 ^ 64" using assms(1) key_usable_iff by blast
  then have "unat (p + 1) = unat p + 1" "unat (p + 2) = unat p + 2"
    using unat_plus_if' [of p 1] unat_plus_if' [of p 2] by simp_all
  then show "p < p + 1" "p + 1 < p + 2" by (simp_all add: word_less_nat_alt)
qed

section \<open>Properties\<close>

text \<open>
  Access to the thread's own members. Writing a member of the descriptor, or a part of one such as an array element,
  that has 1, 4 or 8 bytes and reading it back gives the low bytes of the value, and no other member of the
  descriptor reads differently; for any other size both macros abort. This holds for every size of the
  types declared elsewhere.
\<close>

lemma setmem_getmem:
  assumes "wf_sizes X" and "part_of X n f"
  shows "if snd f \<in> {1, 4, 8}
     then \<exists>t. THREAD_SETMEM f v s = Ret () t \<and> THREAD_GETMEM f t = Ret (take_bit (8 * snd f) (long_int v)) t \<and>
       fs t = fs s \<and> (\<forall>n' g. part_of X n' g \<longrightarrow> n' \<noteq> n \<longrightarrow> snd g \<in> {1, 4, 8} \<longrightarrow>
         (\<exists>w. THREAD_GETMEM g t = Ret w t \<and> THREAD_GETMEM g s = Ret w s))
     else THREAD_SETMEM f v s = Abort \<and> THREAD_GETMEM f s = Abort"
proof (cases "width_ok (snd f)")
  case True
  let ?t = "poke f (long_int v) s"
  have w: "snd g \<in> {1, 4, 8} \<longleftrightarrow> width_ok (snd g)" for g :: "nat \<times> nat" by (auto simp: width_ok_def)
  have "THREAD_SETMEM f v s = Ret () ?t" using True by (simp add: setmem_eq)
  moreover have "THREAD_GETMEM f ?t = Ret (take_bit (8 * snd f) (long_int v)) ?t"
    using True peek_poke [of f "long_int v" s] by (auto simp: getmem_eq width_ok_def)
  moreover have "fs ?t = fs s" by (simp add: poke_def)
  moreover have "\<exists>w. THREAD_GETMEM g ?t = Ret w ?t \<and> THREAD_GETMEM g s = Ret w s"
    if "part_of X n' g" "n' \<noteq> n" "width_ok (snd g)" for n' g
    using peek_other [OF assms that(1)] that(2,3) by (simp add: getmem_eq)
  ultimately show ?thesis using True unfolding w by auto
next
  case False
  then show ?thesis by (simp add: setmem_eq getmem_eq width_ok_def)
qed

definition linux_sizes :: ext_sizes where
  "linux_sizes = \<lparr>x_keys_max = 1024, x_sched_param = (4, 4), x_res_state = (568, 8)\<rparr>"

lemma align_to_le: "align_to off al \<le> off + al"
proof -
  have "(off + al - 1) div al * al \<le> off + al - 1" by (metis div_times_less_eq_dividend)
  also have "\<dots> \<le> off + al" by simp
  finally show ?thesis unfolding align_to_def .
qed

lemma place_end_le: "place_end off ms \<le> off + sum_list (map (\<lambda>(n, sz, al). sz + al) ms)"
proof (induction ms arbitrary: off)
  case (Cons m ms)
  obtain n sz al where m: "m = (n, sz, al)" by (cases m) auto
  show ?case using Cons.IH [of "align_to off al + sz"] align_to_le [of off al] by (simp add: m)
qed simp

lemma wf_linux: "wf_sizes linux_sizes"
proof -
  have k: "size_of pthread_key_data = 16" by code_simp
  have "sum_list (map (\<lambda>(n, sz, al). sz + al) (struct_pthread linux_sizes)) \<le> 5000"
    by (simp add: struct_pthread_unfold tcb_layout robust_head_layout k
        PTHREAD_KEY_1STLEVEL_SIZE_def PTHREAD_KEY_2NDLEVEL_SIZE_def linux_sizes_def)
  then have "place_end 0 (struct_pthread linux_sizes) \<le> 5000"
    using place_end_le [of 0 "struct_pthread linux_sizes"] by linarith
  then have "place_end 0 (struct_pthread linux_sizes) \<le> 2 ^ 64" by (rule order_trans) simp
  then show ?thesis unfolding wf_sizes_def by (simp add: linux_sizes_def)
qed

definition demo_tls :: tls where
  "demo_tls = \<lparr>fs = 4096, bytes = (\<lambda>_. 0)\<rparr>"

text \<open>
  C29 (the record of a thread). The record with which the other parts describe a thread is what its storage holds:
  reading \<open>tid\<close>, \<open>cancelhandling\<close> and \<open>cleanup\<close> with \<open>THREAD_GETMEM\<close> gives the fields of the record, and
  the assignments that the library makes with \<open>THREAD_SETMEM\<close> (to \<open>robust_head.list_op_pending\<close>, \<open>cleanup\<close> and
  \<open>result\<close>) are the update of that field of the record and of no other.
\<close>

theorem tls_refines_record:
  assumes "wf_sizes X"
  shows "THREAD_GETMEM (pmember X ''tid'') s = Ret (zx (p_tid (self_view X s p))) s \<and>
    THREAD_GETMEM (pmember X ''cancelhandling'') s = Ret (zx (p_cancelhandling (self_view X s p))) s \<and>
    THREAD_GETMEM (pmember X ''cleanup'') s = Ret (p_cleanup (self_view X s p)) s \<and>
    (\<exists>t. THREAD_SETMEM (pending X) (CLong v) s = Ret () t \<and>
       self_view X t p = (self_view X s p)\<lparr>p_pending := v\<rparr>) \<and>
    (\<exists>t. THREAD_SETMEM (pmember X ''cleanup'') (CLong v) s = Ret () t \<and>
       self_view X t p = (self_view X s p)\<lparr>p_cleanup := v\<rparr>) \<and>
    (\<exists>t. THREAD_SETMEM (pmember X ''result'') (CLong v) s = Ret () t \<and>
       self_view X t p = (self_view X s p)\<lparr>p_result := v\<rparr>)"
  using view_frame [OF assms]
  by (simp add: getmem_eq pmember_size width_ok_def setmem_8 pending_size)
    (simp add: self_view_def zx_lo32_peek pmember_size)

theorem tls_refines_record_witness:
  "\<exists>t. THREAD_SETMEM (pmember linux_sizes ''cleanup'') (CLong 4096) demo_tls = Ret () t \<and>
     p_cleanup (self_view linux_sizes t fresh_thread) = 4096"
  using tls_refines_record [OF wf_linux, of demo_tls fresh_thread 4096] by auto

text \<open>
  Start of a thread's storage. When the system call that sets the \<open>%fs\<close> base succeeds, \<open>TLS_INIT_TP\<close> reports no
  error, the descriptor is the one that \<open>THREAD_SELF\<close> finds and the block's own pointer, and memory
  outside these two members is as before. When it fails the error text is returned.
\<close>

lemma tls_init_tp_self:
  assumes "\<And>s. case prctl d s of (r, t) \<Rightarrow> bytes t = bytes s \<and> (r = 0 \<longrightarrow> fs t = d)"
  shows "case TLS_INIT_TP prctl d s of (e, t) \<Rightarrow>
     (e = None \<longrightarrow> THREAD_SELF t = d \<and> load_at d (header ''tcb'') t = d \<and> fs t = d) \<and>
     (e \<noteq> None \<longrightarrow> e = Some ''cannot set %fs base address for thread-local storage'') \<and>
     (\<forall>a. \<not> inside d 8 a \<longrightarrow> \<not> inside (d + 16) 8 a \<longrightarrow> bytes t a = bytes s a)"
proof -
  let ?s1 = "store_at d (header ''tcb'') d s" let ?s2 = "store_at d (header ''self'') d ?s1"
  obtain r t where p: "prctl d ?s2 = (r, t)" by (metis surj_pair)
  have t: "bytes t = bytes ?s2" "r = 0 \<Longrightarrow> fs t = d" using assms [of ?s2] by (simp_all add: p)
  have "load_at d (header ''self'') ?s2 = d" by (simp add: peek_store_same tcb_layout)
  moreover have "load_at d (header ''tcb'') ?s2 = load_at d (header ''tcb'') ?s1"
    by (rule load_store_other) (simp_all add: tcb_layout)
  moreover have "load_at d (header ''tcb'') ?s1 = d" by (simp add: peek_store_same tcb_layout)
  moreover have "load_at d f t = load_at d f ?s2" for f by (simp add: load_at_def t(1))
  moreover have "r = 0 \<Longrightarrow> THREAD_SELF t = load_at d (header ''self'') t"
    using t(2) by (simp add: THREAD_SELF_def peek_def fs_addr_def load_at_def)
  moreover have "bytes t a = bytes s a" if "\<not> inside d 8 a" "\<not> inside (d + 16) 8 a" for a
    using that by (simp add: t(1) store_at_def tcb_layout wr_le_other)
  ultimately show ?thesis using t(2) by (simp add: TLS_INIT_TP_def p Let_def)
qed

end
