(* ===== verification/MutexRace.thy ===== *)
theory MutexRace
  imports LockProtocol NptlState
begin

unbundle bit_operations_syntax

text \<open>
  Any number of threads that lock, try to lock and unlock one mutex (\<open>source/mutex_lock.c\<close>, \<open>source/mutex_trylock.c\<close>,
  \<open>source/mutex_unlock.c\<close>), with one step for each access to the mutex and the steps of the low-level lock
  from \<open>LockProtocol\<close>. The owner field is read by threads that do not hold the mutex, so the reads race
  with the writes of the holder; shown is that the answers are nevertheless those of a mutex that
  is used by one thread after the other, for each of the kinds normal, recursive and error checking. The calls that keep the
  profile (\<open>inc_access_count\<close> and the like) touch no field of the mutex but read the lock word once, and are left
  out here; \<open>MutexLock\<close> and \<open>MutexTrylock\<close> have them.
\<close>

section \<open>Steps\<close>

datatype mkind = Normal | Recursive | Errorcheck

text \<open>Where a thread is in one of the three functions; the comments give the statement it is at.\<close>

datatype stage =
    Ready                \<comment> \<open>in none of them\<close>
  | LockRead             \<comment> \<open>\<open>if (mutex->__data.__owner == id)\<close>\<close>
  | BumpChk | BumpInc    \<comment> \<open>\<open>if (__count + 1 == 0)\<close>, \<open>++__count\<close>\<close>
  | Locking              \<comment> \<open>\<open>LLL_MUTEX_LOCK (mutex)\<close>\<close>
  | LockAssert           \<comment> \<open>\<open>assert (__owner == 0)\<close>\<close>
  | LockCount | LockOwner  \<comment> \<open>\<open>__count = 1\<close>, \<open>__owner = id\<close>\<close>
  | LockUsers | LockUsersW u32  \<comment> \<open>\<open>++__nusers\<close>: read, write\<close>
  | TryRead | TryLock    \<comment> \<open>the test of the owner and \<open>lll_trylock\<close> of \<open>do_mutex_trylock\<close>\<close>
  | TryOwner | TryCount  \<comment> \<open>\<open>__owner = id\<close>, \<open>__count = 1\<close>\<close>
  | UnlRead | UnlIsLocked  \<comment> \<open>\<open>if (__owner != tid\<close>, \<open>|| ! lll_islocked (__lock))\<close>\<close>
  | UnlCount             \<comment> \<open>\<open>if (--__count != 0)\<close>\<close>
  | UnlOwner             \<comment> \<open>\<open>__owner = 0\<close>\<close>
  | UnlUsers | UnlUsersW u32  \<comment> \<open>\<open>--__nusers\<close>: read, write\<close>
  | Unlocking            \<comment> \<open>\<open>lll_unlock\<close>\<close>
  | Failed               \<comment> \<open>the assertion failed\<close>

text \<open>What an operation did, at the moment it took effect.\<close>

datatype event = Acquire | Bump | Eagain | Edeadlk | Busy | Drop | Release | Eperm

record mrace =
  lk :: lsys
  own :: i32
  cnt :: u32
  nus :: u32
  stg :: "nat \<Rightarrow> stage"
  hist :: "(nat \<times> event) list"

definition mrace_init :: mrace where
  "mrace_init = \<lparr>lk = lsys_init, own = 0, cnt = 0, nus = 0, stg = (\<lambda>_. Ready), hist = []\<rparr>"

abbreviation pcs :: "mrace \<Rightarrow> nat \<Rightarrow> lpc" where
  "pcs s \<equiv> pc_of (lk s)"

abbreviation to :: "nat \<Rightarrow> stage \<Rightarrow> mrace \<Rightarrow> mrace" where
  "to i g s \<equiv> s\<lparr>stg := (stg s)(i := g)\<rparr>"

abbreviation answer :: "nat \<Rightarrow> event \<Rightarrow> mrace \<Rightarrow> mrace" where
  "answer i e s \<equiv> s\<lparr>stg := (stg s)(i := Ready), hist := hist s @ [(i, e)]\<rparr>"

text \<open>Only a thread that is in \<open>LLL_MUTEX_LOCK\<close> or \<open>lll_unlock\<close> takes steps of the low-level lock.\<close>

definition lock_moves :: "mrace \<Rightarrow> lsys \<Rightarrow> bool" where
  "lock_moves s l \<longleftrightarrow> (\<forall>i. pc_of l i \<noteq> pcs s i \<longrightarrow>
     (if pcs s i \<in> {Crit, Store0, WakeCall} then stg s i = Unlocking else stg s i = Locking))"

text \<open>
  \<open>tid\<close> gives the threads their ids; a number with the id 0 is no thread and calls nothing. A program that uses a normal mutex is taken not to lock it when it has it
  and not to unlock it when it does not; for the other kinds every call may happen at any time.
\<close>

inductive mstep :: "(nat \<Rightarrow> i32) \<Rightarrow> mkind \<Rightarrow> mrace \<Rightarrow> mrace \<Rightarrow> bool" for tid k where
  lock_normal: "k = Normal \<Longrightarrow> stg s i = Ready \<Longrightarrow> tid i \<noteq> 0 \<Longrightarrow> pcs s i = Out \<Longrightarrow>
     mstep tid k s (to i Locking s)"
| lock_call: "k \<noteq> Normal \<Longrightarrow> stg s i = Ready \<Longrightarrow> tid i \<noteq> 0 \<Longrightarrow> mstep tid k s (to i LockRead s)"
| lock_mine_rec: "stg s i = LockRead \<Longrightarrow> own s = tid i \<Longrightarrow> k = Recursive \<Longrightarrow> mstep tid k s (to i BumpChk s)"
| lock_mine_err: "stg s i = LockRead \<Longrightarrow> own s = tid i \<Longrightarrow> k = Errorcheck \<Longrightarrow> mstep tid k s (answer i Edeadlk s)"
| lock_other: "stg s i = LockRead \<Longrightarrow> own s \<noteq> tid i \<Longrightarrow> mstep tid k s (to i Locking s)"
| bump_over: "stg s i = BumpChk \<Longrightarrow> cnt s + 1 = 0 \<Longrightarrow> mstep tid k s (answer i Eagain s)"
| bump_ok: "stg s i = BumpChk \<Longrightarrow> cnt s + 1 \<noteq> 0 \<Longrightarrow> mstep tid k s (to i BumpInc s)"
| bump_inc: "stg s i = BumpInc \<Longrightarrow> mstep tid k s (answer i Bump (s\<lparr>cnt := cnt s + 1\<rparr>))"
| low_quiet: "lstep (lk s) l \<Longrightarrow> lock_moves s l \<Longrightarrow> \<forall>i. holding (pc_of l i) = holding (pcs s i) \<Longrightarrow>
     mstep tid k s (s\<lparr>lk := l\<rparr>)"
| low_acquire: "lstep (lk s) l \<Longrightarrow> lock_moves s l \<Longrightarrow> \<not> holding (pcs s i) \<Longrightarrow> holding (pc_of l i) \<Longrightarrow>
     mstep tid k s (s\<lparr>lk := l, hist := hist s @ [(i, Acquire)]\<rparr>)"
| low_release: "lstep (lk s) l \<Longrightarrow> lock_moves s l \<Longrightarrow> holding (pcs s i) \<Longrightarrow> \<not> holding (pc_of l i) \<Longrightarrow>
     mstep tid k s (s\<lparr>lk := l, hist := hist s @ [(i, Release)]\<rparr>)"
| got_lock: "stg s i = Locking \<Longrightarrow> pcs s i = Crit \<Longrightarrow> mstep tid k s (to i LockAssert s)"
| assert_ok: "stg s i = LockAssert \<Longrightarrow> own s = 0 \<Longrightarrow>
     mstep tid k s (to i (if k = Recursive then LockCount else LockOwner) s)"
| assert_fails: "stg s i = LockAssert \<Longrightarrow> own s \<noteq> 0 \<Longrightarrow> mstep tid k s (to i Failed s)"
| count_one: "stg s i = LockCount \<Longrightarrow> mstep tid k s (to i LockOwner (s\<lparr>cnt := 1\<rparr>))"
| set_owner: "stg s i = LockOwner \<Longrightarrow> mstep tid k s (to i LockUsers (s\<lparr>own := tid i\<rparr>))"
| users_read: "stg s i = LockUsers \<Longrightarrow> mstep tid k s (to i (LockUsersW (nus s)) s)"
| users_write: "stg s i = LockUsersW v \<Longrightarrow> mstep tid k s (to i Ready (s\<lparr>nus := v + 1\<rparr>))"
| try_call: "stg s i = Ready \<Longrightarrow> tid i \<noteq> 0 \<Longrightarrow> mstep tid k s (to i (if k = Recursive then TryRead else TryLock) s)"
| try_mine: "stg s i = TryRead \<Longrightarrow> own s = tid i \<Longrightarrow> mstep tid k s (to i BumpChk s)"
| try_other: "stg s i = TryRead \<Longrightarrow> own s \<noteq> tid i \<Longrightarrow> mstep tid k s (to i TryLock s)"
| try_got: "stg s i = TryLock \<Longrightarrow> lll_trylock word_cell (lk s) = (0, l) \<Longrightarrow>
     mstep tid k s (s\<lparr>lk := goto i Crit l, stg := (stg s)(i := TryOwner), hist := hist s @ [(i, Acquire)]\<rparr>)"
| try_busy: "stg s i = TryLock \<Longrightarrow> lll_trylock word_cell (lk s) = (v, l) \<Longrightarrow> v \<noteq> 0 \<Longrightarrow>
     mstep tid k s (answer i Busy (s\<lparr>lk := l\<rparr>))"
| try_owner: "stg s i = TryOwner \<Longrightarrow>
     mstep tid k s (to i (if k = Recursive then TryCount else LockUsers) (s\<lparr>own := tid i\<rparr>))"
| try_count: "stg s i = TryCount \<Longrightarrow> mstep tid k s (to i LockUsers (s\<lparr>cnt := 1\<rparr>))"
| unlock_normal: "k = Normal \<Longrightarrow> stg s i = Ready \<Longrightarrow> tid i \<noteq> 0 \<Longrightarrow> pcs s i = Crit \<Longrightarrow> mstep tid k s (to i UnlOwner s)"
| unlock_call: "k \<noteq> Normal \<Longrightarrow> stg s i = Ready \<Longrightarrow> tid i \<noteq> 0 \<Longrightarrow> mstep tid k s (to i UnlRead s)"
| unlock_other: "stg s i = UnlRead \<Longrightarrow> own s \<noteq> tid i \<Longrightarrow> mstep tid k s (answer i Eperm s)"
| unlock_mine: "stg s i = UnlRead \<Longrightarrow> own s = tid i \<Longrightarrow>
     mstep tid k s (to i (if k = Recursive then UnlCount else UnlIsLocked) s)"
| unlock_free: "stg s i = UnlIsLocked \<Longrightarrow> \<not> fst (lll_islocked word_cell (lk s)) \<Longrightarrow> mstep tid k s (answer i Eperm s)"
| unlock_held: "stg s i = UnlIsLocked \<Longrightarrow> fst (lll_islocked word_cell (lk s)) \<Longrightarrow> mstep tid k s (to i UnlOwner s)"
| count_down: "stg s i = UnlCount \<Longrightarrow> cnt s - 1 \<noteq> 0 \<Longrightarrow> mstep tid k s (answer i Drop (s\<lparr>cnt := cnt s - 1\<rparr>))"
| count_zero: "stg s i = UnlCount \<Longrightarrow> cnt s - 1 = 0 \<Longrightarrow> mstep tid k s (to i UnlOwner (s\<lparr>cnt := cnt s - 1\<rparr>))"
| no_owner: "stg s i = UnlOwner \<Longrightarrow> mstep tid k s (to i UnlUsers (s\<lparr>own := 0\<rparr>))"
| unusers_read: "stg s i = UnlUsers \<Longrightarrow> mstep tid k s (to i (UnlUsersW (nus s)) s)"
| unusers_write: "stg s i = UnlUsersW v \<Longrightarrow> mstep tid k s (to i Unlocking (s\<lparr>nus := v - 1\<rparr>))"
| unlocked: "stg s i = Unlocking \<Longrightarrow> pcs s i = Out \<Longrightarrow> mstep tid k s (to i Ready s)"

inductive mreach :: "(nat \<Rightarrow> i32) \<Rightarrow> mkind \<Rightarrow> mrace \<Rightarrow> bool" for tid k where
  start: "mreach tid k mrace_init"
| step: "mreach tid k s \<Longrightarrow> mstep tid k s t \<Longrightarrow> mreach tid k t"

section \<open>The mutex as one thread after the other sees it\<close>

text \<open>The holder and how often it has locked, or nobody. \<open>None\<close>: the event is not possible.\<close>

fun spec_step :: "(nat \<times> nat) option \<Rightarrow> nat \<times> event \<Rightarrow> (nat \<times> nat) option option" where
  "spec_step a (i, Acquire) = (if a = None then Some (Some (i, 1)) else None)"
| "spec_step a (i, Bump) =
     (case a of Some (j, d) \<Rightarrow> if j = i \<and> d + 1 < 2 ^ 32 then Some (Some (i, d + 1)) else None | None \<Rightarrow> None)"
| "spec_step a (i, Eagain) = (if a = Some (i, 2 ^ 32 - 1) then Some a else None)"
| "spec_step a (i, Edeadlk) = (if a = Some (i, 1) then Some a else None)"
| "spec_step a (i, Busy) = (if a = None then None else Some a)"
| "spec_step a (i, Drop) =
     (case a of Some (j, d) \<Rightarrow> if j = i \<and> 1 < d then Some (Some (i, d - 1)) else None | None \<Rightarrow> None)"
| "spec_step a (i, Release) = (if a = Some (i, 1) then Some None else None)"
| "spec_step a (i, Eperm) = (case a of Some (j, d) \<Rightarrow> if j = i then None else Some a | None \<Rightarrow> Some a)"

fun spec_run :: "(nat \<times> nat) option \<Rightarrow> (nat \<times> event) list \<Rightarrow> (nat \<times> nat) option option" where
  "spec_run a [] = Some a"
| "spec_run a (e # es) = (case spec_step a e of None \<Rightarrow> None | Some b \<Rightarrow> spec_run b es)"

lemma spec_run_snoc: "spec_run a (es @ [e]) = (case spec_run a es of None \<Rightarrow> None | Some b \<Rightarrow> spec_step b e)"
  by (induction es arbitrary: a) (auto split: option.splits)

section \<open>Invariant\<close>

text \<open>At which stages the holder has written the owner, the number of users, the count.\<close>

fun owned :: "stage \<Rightarrow> bool" where
  "owned Locking = False" | "owned LockAssert = False" | "owned LockCount = False" | "owned LockOwner = False"
| "owned TryOwner = False" | "owned UnlUsers = False" | "owned (UnlUsersW v) = False" | "owned Unlocking = False"
| "owned Failed = False" | "owned _ = True"

fun used :: "stage \<Rightarrow> bool" where
  "used Locking = False" | "used LockAssert = False" | "used LockCount = False" | "used LockOwner = False"
| "used LockUsers = False" | "used (LockUsersW v) = False" | "used TryOwner = False" | "used TryCount = False"
| "used Unlocking = False" | "used Failed = False" | "used _ = True"

fun counted :: "stage \<Rightarrow> bool" where
  "counted Locking = False" | "counted LockAssert = False" | "counted LockCount = False" | "counted TryOwner = False"
| "counted TryCount = False" | "counted UnlOwner = False" | "counted UnlUsers = False"
| "counted (UnlUsersW v) = False" | "counted Unlocking = False" | "counted Failed = False" | "counted _ = True"

text \<open>The instruction of the low-level lock at which a thread can be, for each stage.\<close>

fun pcok :: "mkind \<Rightarrow> stage \<Rightarrow> lpc \<Rightarrow> bool" where
  "pcok k Ready p = (p \<in> {Out, Crit})"
| "pcok k LockRead p = (k \<noteq> Normal \<and> p \<in> {Out, Crit})"
| "pcok k UnlRead p = (k \<noteq> Normal \<and> p \<in> {Out, Crit})"
| "pcok k TryRead p = (k = Recursive \<and> p \<in> {Out, Crit})"
| "pcok k TryLock p = (p \<in> {Out, Crit})"
| "pcok k BumpChk p = (k = Recursive \<and> p = Crit)"
| "pcok k BumpInc p = (k = Recursive \<and> p = Crit)"
| "pcok k Locking p = (p \<in> {Out, WaitCall, Asleep, Xchg, Crit})"
| "pcok k LockCount p = (k = Recursive \<and> p = Crit)"
| "pcok k TryCount p = (k = Recursive \<and> p = Crit)"
| "pcok k UnlCount p = (k = Recursive \<and> p = Crit)"
| "pcok k UnlIsLocked p = (k = Errorcheck \<and> p = Crit)"
| "pcok k Unlocking p = (p \<in> {Crit, Store0, WakeCall, Out})"
| "pcok k Failed p = False"
| "pcok k g p = (p = Crit)"

fun local_ok :: "nat \<Rightarrow> stage \<Rightarrow> bool" where
  "local_ok d (LockUsersW v) = (v = 0)"
| "local_ok d (UnlUsersW v) = (v = 1)"
| "local_ok d BumpInc = (d + 1 < 2 ^ 32)"
| "local_ok d _ = True"

definition hold_ok :: "(nat \<Rightarrow> i32) \<Rightarrow> mkind \<Rightarrow> mrace \<Rightarrow> nat \<Rightarrow> nat \<Rightarrow> bool" where
  "hold_ok tid k s i d \<longleftrightarrow> own s = (if owned (stg s i) then tid i else 0) \<and> nus s = (if used (stg s i) then 1 else 0) \<and>
     (if k = Recursive \<and> counted (stg s i) then unat (cnt s) = d \<and> 0 < d else d = 1) \<and> local_ok d (stg s i)"

definition minv :: "(nat \<Rightarrow> i32) \<Rightarrow> mkind \<Rightarrow> mrace \<Rightarrow> (nat \<times> nat) option \<Rightarrow> bool" where
  "minv tid k s a \<longleftrightarrow> excl_inv (lk s) \<and> (\<forall>i. pcok k (stg s i) (pcs s i)) \<and>
     (case a of None \<Rightarrow> (\<forall>i. \<not> holding (pcs s i)) \<and> own s = 0 \<and> nus s = 0
      | Some (i, d) \<Rightarrow> holding (pcs s i) \<and> hold_ok tid k s i d)"

text \<open>No two threads have one id; numbers that are no threads stay out.\<close>

definition own_ids :: "(nat \<Rightarrow> i32) \<Rightarrow> bool" where
  "own_ids tid \<longleftrightarrow> (\<forall>i j. tid i = tid j \<and> tid i \<noteq> 0 \<longrightarrow> i = j)"

definition no_thread_idle :: "(nat \<Rightarrow> i32) \<Rightarrow> mrace \<Rightarrow> bool" where
  "no_thread_idle tid s \<longleftrightarrow> (\<forall>i. tid i = 0 \<longrightarrow> stg s i = Ready)"

lemma idle_step: "mstep tid k s t \<Longrightarrow> no_thread_idle tid s \<Longrightarrow> no_thread_idle tid t"
  by (cases rule: mstep.cases) (auto simp: no_thread_idle_def)

lemma idle_calls: "no_thread_idle tid s \<Longrightarrow> stg s i \<noteq> Ready \<Longrightarrow> tid i \<noteq> 0"
  unfolding no_thread_idle_def by blast

text \<open>One step of the threads is at most one step of the specification.\<close>

definition matched :: "mrace \<Rightarrow> (nat \<times> nat) option \<Rightarrow> mrace \<Rightarrow> (nat \<times> nat) option \<Rightarrow> bool" where
  "matched s a t b \<longleftrightarrow> hist t = hist s \<and> b = a \<or> (\<exists>e. hist t = hist s @ [e] \<and> spec_step a e = Some b)"

lemma minv_init: "minv tid k mrace_init None"
  using excl_inv_init by (simp add: minv_def mrace_init_def) (simp add: lsys_init_def)

lemma pcok_nonholding: "pcok k g p \<Longrightarrow> \<not> holding p \<Longrightarrow> g \<in> {Ready, LockRead, UnlRead, TryRead, TryLock, Locking, Unlocking}"
  by (cases g) (auto simp: holding_def)

lemma inv_pcok: "minv tid k s a \<Longrightarrow> pcok k (stg s i) (pcs s i)"
  by (simp add: minv_def)

lemma holder_is: "minv tid k s a \<Longrightarrow> holding (pcs s i) \<Longrightarrow> \<exists>d. a = Some (i, d) \<and> hold_ok tid k s i d"
  unfolding minv_def excl_inv_def by (cases a) auto

lemma holder_holds: "minv tid k s (Some (i, d)) \<Longrightarrow> holding (pcs s i) \<and> hold_ok tid k s i d"
  by (simp add: minv_def)

lemma not_holder: "minv tid k s a \<Longrightarrow> \<not> holding (pcs s i) \<Longrightarrow> a \<noteq> Some (i, d)"
  by (auto simp: minv_def)

lemma owner_is:
  assumes "minv tid k s a" and "own s = tid i" and "own_ids tid" and "tid i \<noteq> 0"
  shows "\<exists>d. a = Some (i, d)"
proof (cases a)
  case None
  with assms show ?thesis by (simp add: minv_def)
next
  case (Some x)
  obtain j d where x: "x = (j, d)" by (cases x)
  have "tid j = tid i" using holder_holds [of tid k s j d] assms Some x by (auto simp: hold_ok_def split: if_splits)
  then show ?thesis using Some x assms(3,4) unfolding own_ids_def by metis
qed

text \<open>A thread that does not hold the mutex, and the holder.\<close>

lemma inv_other:
  assumes "minv tid k s a" and "\<not> holding (pcs s i)" and "pcok k g (pcs s i)"
  shows "minv tid k (to i g s) a"
  using assms not_holder [OF assms(1,2)] unfolding minv_def
  by (auto simp: hold_ok_def split: option.splits)

lemma inv_relabel:
  assumes "minv tid k s a" and "pcok k g (pcs s i)"
    and "holding (pcs s i) \<Longrightarrow> owned g = owned (stg s i) \<and> used g = used (stg s i) \<and> counted g = counted (stg s i) \<and>
       (\<forall>d. local_ok d g)"
  shows "minv tid k (to i g s) a"
proof (cases "holding (pcs s i)")
  case True
  then obtain d where d: "a = Some (i, d)" "hold_ok tid k s i d" using holder_is [OF assms(1)] by blast
  have "hold_ok tid k (to i g s) i d" using d(2) assms(3) [OF True] by (auto simp: hold_ok_def)
  with assms(1,2) True d(1) show ?thesis by (simp add: minv_def)
next
  case False
  then show ?thesis using inv_other [OF assms(1) False assms(2)] by simp
qed

lemma inv_hist [simp]: "minv tid k (s\<lparr>hist := h\<rparr>) a = minv tid k s a"
  by (simp add: minv_def hold_ok_def cong: option.case_cong prod.case_cong)

lemma hold_ok_lk [simp]: "hold_ok tid k (s\<lparr>lk := l\<rparr>) i d = hold_ok tid k s i d"
  by (simp add: hold_ok_def)

section \<open>Steps of the low-level lock\<close>

definition lmoves :: "(lpc \<times> lpc) set" where
  "lmoves = {(Out, Crit), (Out, WaitCall), (Out, Xchg), (WaitCall, Asleep), (WaitCall, Xchg), (Asleep, Xchg),
     (Xchg, Crit), (Xchg, WaitCall), (Crit, Out), (Crit, Store0), (Store0, WakeCall), (WakeCall, Out)}"

lemma lstep_moves:
  assumes "lstep s t" and "pc_of t i \<noteq> pc_of s i"
  shows "(pc_of s i, pc_of t i) \<in> lmoves"
  using assms(1)
proof (cases rule: lstep.cases)
  case (wake_one j j')
  with assms(2) show ?thesis by (cases "i = j'"; cases "i = j") (auto simp: lmoves_def)
qed (use assms(2) in \<open>auto simp: lmoves_def lstep_defs wait_entry_def split: if_splits\<close>)

lemma lstep_alone:
  assumes "lstep s t" and "holding (pc_of t i) \<noteq> holding (pc_of s i)" and "j \<noteq> i"
  shows "pc_of t j = pc_of s j"
  using assms(1)
proof (cases rule: lstep.cases)
  case (wake_one k k')
  with assms(2) show ?thesis by (cases "i = k'"; cases "i = k") auto
qed (use assms(2,3) in \<open>auto simp: lstep_defs split: if_splits\<close>)

lemma low_pcok:
  assumes "lstep (lk s) l" and "lock_moves s l" and "pcok k (stg s i) (pcs s i)"
  shows "pcok k (stg s i) (pc_of l i)"
proof (cases "pc_of l i = pcs s i")
  case True
  then show ?thesis using assms(3) by simp
next
  case False
  have m: "(pcs s i, pc_of l i) \<in> lmoves" by (rule lstep_moves [OF assms(1) False])
  show ?thesis
  proof (cases "pcs s i \<in> {Crit, Store0, WakeCall}")
    case True
    then have "stg s i = Unlocking" using assms(2) False by (simp add: lock_moves_def)
    with True m show ?thesis by (auto simp: lmoves_def)
  next
    case out: False
    then have "stg s i = Locking" using assms(2) False by (simp add: lock_moves_def)
    with out m show ?thesis by (auto simp: lmoves_def)
  qed
qed

lemma low_quiet_inv:
  assumes inv: "minv tid k s a" and st: "lstep (lk s) l" "lock_moves s l"
    and q: "\<forall>i. holding (pc_of l i) = holding (pcs s i)"
  shows "minv tid k (s\<lparr>lk := l\<rparr>) a"
proof -
  have "excl_inv l" using inv excl_inv_step [OF st(1)] by (simp add: minv_def)
  moreover have "pcok k (stg s i) (pc_of l i)" for i by (rule low_pcok [OF st inv_pcok [OF inv]])
  ultimately show ?thesis using inv q by (cases a) (auto simp: minv_def)
qed

lemma low_acquire_inv:
  assumes inv: "minv tid k s a" and st: "lstep (lk s) l" "lock_moves s l"
    and h: "\<not> holding (pcs s i)" "holding (pc_of l i)"
  shows "a = None" "minv tid k (s\<lparr>lk := l\<rparr>) (Some (i, 1))"
proof -
  have ex: "excl_inv l" using inv excl_inv_step [OF st(1)] by (simp add: minv_def)
  have ne: "pc_of l i \<noteq> pcs s i" using h by auto
  have "pcs s i = Out \<or> pcs s i = Xchg" using lstep_moves [OF st(1) ne] h unfolding lmoves_def by auto
  then have g: "stg s i = Locking" using st(2) ne unfolding lock_moves_def by auto
  show a: "a = None"
  proof (cases a)
    case (Some x)
    obtain j d where x: "x = (j, d)" by (cases x)
    have j: "holding (pcs s j)" using inv Some x by (simp add: minv_def)
    then have "j \<noteq> i" using h by auto
    then have "pc_of l j = pcs s j" using lstep_alone [OF st(1), of i j] h by simp
    then show ?thesis using ex h(2) j \<open>j \<noteq> i\<close> unfolding excl_inv_def by metis
  qed simp
  have "pcok k (stg s j) (pc_of l j)" for j by (rule low_pcok [OF st inv_pcok [OF inv]])
  then show "minv tid k (s\<lparr>lk := l\<rparr>) (Some (i, 1))"
    using inv a ex h(2) g by (simp add: minv_def hold_ok_def)
qed

lemma low_release_inv:
  assumes inv: "minv tid k s a" and st: "lstep (lk s) l" "lock_moves s l"
    and h: "holding (pcs s i)" "\<not> holding (pc_of l i)"
  shows "a = Some (i, 1)" "minv tid k (s\<lparr>lk := l\<rparr>) None"
proof -
  have ex: "excl_inv l" using inv excl_inv_step [OF st(1)] by (simp add: minv_def)
  have ne: "pc_of l i \<noteq> pcs s i" using h by auto
  have "pcs s i = Crit \<or> pcs s i = Store0" using h(1) by (simp add: holding_def)
  then have g: "stg s i = Unlocking" using st(2) ne unfolding lock_moves_def by auto
  obtain d where d: "a = Some (i, d)" "hold_ok tid k s i d" using holder_is [OF inv h(1)] by blast
  then show "a = Some (i, 1)" using g by (simp add: hold_ok_def)
  have no: "\<not> holding (pc_of l j)" for j
  proof (cases "j = i")
    case False
    then have "pc_of l j = pcs s j" using lstep_alone [OF st(1), of i j] h by simp
    then show ?thesis using inv h(1) False unfolding minv_def excl_inv_def by metis
  qed (use h in simp)
  have "pcok k (stg s j) (pc_of l j)" for j by (rule low_pcok [OF st inv_pcok [OF inv]])
  then show "minv tid k (s\<lparr>lk := l\<rparr>) None"
    using d(2) g no ex by (simp add: minv_def hold_ok_def)
qed

text \<open>\<open>lll_trylock\<close> as a step.\<close>

lemma try_free: "minv tid k s a \<Longrightarrow> lll_trylock word_cell (lk s) = (v, l) \<Longrightarrow> v = 0 \<longleftrightarrow> a = None"
proof -
  assume inv: "minv tid k s a" and t: "lll_trylock word_cell (lk s) = (v, l)"
  have "v = word_at (lk s)" using t by (auto simp: lstep_defs split: if_splits)
  moreover have "word_at (lk s) = 0 \<longleftrightarrow> (\<forall>i. \<not> holding (pcs s i))"
    using inv unfolding minv_def excl_inv_def by blast
  moreover have "a = None \<longleftrightarrow> (\<forall>i. \<not> holding (pcs s i))"
    using inv by (cases a) (auto simp: minv_def)
  ultimately show "v = 0 \<longleftrightarrow> a = None" by simp
qed

lemma try_busy_same: "lll_trylock word_cell s = (v, l) \<Longrightarrow> v \<noteq> 0 \<Longrightarrow> l = s"
  by (auto simp: lstep_defs split: if_splits)

lemma try_got_inv:
  assumes inv: "minv tid k s a" and g: "stg s i = TryLock" and t: "lll_trylock word_cell (lk s) = (0, l)"
  shows "a = None" "minv tid k (s\<lparr>lk := goto i Crit l, stg := (stg s)(i := TryOwner)\<rparr>) (Some (i, 1))"
proof -
  show a: "a = None" using try_free [OF inv t] by simp
  have l: "l = (lk s)\<lparr>word_at := 1\<rparr>" "word_at (lk s) = 0" using t by (auto simp: lstep_defs split: if_splits)
  have "excl_inv (goto i Crit l)"
    using excl_get [of "lk s" 1 i] inv l by (simp add: minv_def)
  then show "minv tid k (s\<lparr>lk := goto i Crit l, stg := (stg s)(i := TryOwner)\<rparr>) (Some (i, 1))"
    using inv a l by (simp add: minv_def hold_ok_def)
qed

section \<open>Every step keeps the invariant and is one of the specification\<close>

definition advances :: "(nat \<Rightarrow> i32) \<Rightarrow> mkind \<Rightarrow> mrace \<Rightarrow> (nat \<times> nat) option \<Rightarrow> mrace \<Rightarrow> bool" where
  "advances tid k s a t \<longleftrightarrow> (\<exists>b. minv tid k t b \<and> matched s a t b)"

lemma advances_quiet: "minv tid k t a \<Longrightarrow> hist t = hist s \<Longrightarrow> advances tid k s a t"
  unfolding advances_def matched_def by blast

lemma advances_event:
  "minv tid k t b \<Longrightarrow> hist t = hist s @ [e] \<Longrightarrow> spec_step a e = Some b \<Longrightarrow> advances tid k s a t"
  unfolding advances_def matched_def by blast

text \<open>A stage that only the holder can be at.\<close>

definition at_crit :: "stage \<Rightarrow> bool" where
  "at_crit g \<longleftrightarrow> g \<notin> {Ready, LockRead, UnlRead, TryRead, TryLock, Locking, Unlocking}"

lemma crit_holder:
  assumes "minv tid k s a" and "at_crit (stg s i)"
  shows "pcs s i = Crit \<and> (\<exists>d. a = Some (i, d) \<and> hold_ok tid k s i d)"
proof -
  have p: "pcok k (stg s i) (pcs s i)" by (rule inv_pcok [OF assms(1)])
  then have "pcs s i = Crit" using assms(2) by (cases "stg s i") (auto simp: at_crit_def)
  moreover from this have "holding (pcs s i)" by simp
  ultimately show ?thesis using holder_is [OF assms(1)] by blast
qed

text \<open>The holder moves on, with its data.\<close>

lemma holder_moves:
  assumes inv: "minv tid k s a" and c: "holding (pcs s i)"
    and "pcok k g (pcs s i)" and "hold_ok tid k t i d" and "lk t = lk s" and "stg t = (stg s)(i := g)"
  shows "minv tid k t (Some (i, d))"
  using assms by (simp add: minv_def)

lemma holder_advances:
  assumes "minv tid k s a" and "at_crit (stg s i)" and "lk t = lk s" and "stg t = (stg s)(i := g)"
    and "pcok k g Crit" and "hist t = hist s"
    and "\<And>d. hold_ok tid k s i d \<Longrightarrow> hold_ok tid k t i d"
  shows "advances tid k s a t"
proof -
  obtain d where d: "pcs s i = Crit" "a = Some (i, d)" "hold_ok tid k s i d" using crit_holder [OF assms(1,2)] by blast
  have "minv tid k t (Some (i, d))"
    by (rule holder_moves [OF assms(1) _ _ assms(7) [OF d(3)] assms(3,4)]) (use d(1) assms(5) in simp_all)
  then show ?thesis using d(2) assms(6) by (intro advances_quiet) simp_all
qed

lemmas hold_simps = at_crit_def hold_ok_def

lemma assert_holds: "minv tid k s a \<Longrightarrow> stg s i = LockAssert \<Longrightarrow> own s = 0"
  using crit_holder [of tid k s a i] by (auto simp: hold_simps)

lemma step_assert:
  assumes "minv tid k s a" and "stg s i = LockAssert"
  shows "advances tid k s a (to i (if k = Recursive then LockCount else LockOwner) s)"
  by (rule holder_advances [OF assms(1), of i]) (use assms(2) in \<open>auto simp: hold_simps split: if_splits\<close>)

lemma step_count:
  "minv tid k s a \<Longrightarrow> stg s i = LockCount \<Longrightarrow> advances tid k s a (to i LockOwner (s\<lparr>cnt := 1\<rparr>))"
  by (erule holder_advances [of _ _ _ _ i]) (auto simp: hold_simps)

lemma step_owner:
  "minv tid k s a \<Longrightarrow> stg s i = LockOwner \<Longrightarrow> advances tid k s a (to i LockUsers (s\<lparr>own := tid i\<rparr>))"
  by (erule holder_advances [of _ _ _ _ i]) (auto simp: hold_simps split: if_splits)

lemma step_users_read:
  "minv tid k s a \<Longrightarrow> stg s i = LockUsers \<Longrightarrow> advances tid k s a (to i (LockUsersW (nus s)) s)"
  by (erule holder_advances [of _ _ _ _ i]) (auto simp: hold_simps split: if_splits)

lemma step_users_write:
  "minv tid k s a \<Longrightarrow> stg s i = LockUsersW v \<Longrightarrow> advances tid k s a (to i Ready (s\<lparr>nus := v + 1\<rparr>))"
  by (erule holder_advances [of _ _ _ _ i]) (auto simp: hold_simps split: if_splits)

lemma step_try_owner:
  assumes "minv tid k s a" and "stg s i = TryOwner"
  shows "advances tid k s a (to i (if k = Recursive then TryCount else LockUsers) (s\<lparr>own := tid i\<rparr>))"
  by (rule holder_advances [OF assms(1), of i]) (use assms(2) in \<open>auto simp: hold_simps split: if_splits\<close>)

lemma step_try_count:
  "minv tid k s a \<Longrightarrow> stg s i = TryCount \<Longrightarrow> advances tid k s a (to i LockUsers (s\<lparr>cnt := 1\<rparr>))"
  by (erule holder_advances [of _ _ _ _ i]) (auto simp: hold_simps)

lemma step_no_owner:
  "minv tid k s a \<Longrightarrow> stg s i = UnlOwner \<Longrightarrow> advances tid k s a (to i UnlUsers (s\<lparr>own := 0\<rparr>))"
  by (erule holder_advances [of _ _ _ _ i]) (auto simp: hold_simps)

lemma step_unusers_read:
  "minv tid k s a \<Longrightarrow> stg s i = UnlUsers \<Longrightarrow> advances tid k s a (to i (UnlUsersW (nus s)) s)"
  by (erule holder_advances [of _ _ _ _ i]) (auto simp: hold_simps)

lemma step_unusers_write:
  "minv tid k s a \<Longrightarrow> stg s i = UnlUsersW v \<Longrightarrow> advances tid k s a (to i Unlocking (s\<lparr>nus := v - 1\<rparr>))"
  by (erule holder_advances [of _ _ _ _ i]) (auto simp: hold_simps)

text \<open>The holder answers.\<close>

lemma holder_answers:
  assumes inv: "minv tid k s a" and a: "a = Some (i, d)" and t: "lk t = lk s" "stg t = (stg s)(i := Ready)"
    and c: "pcs s i = Crit" and h: "hist t = hist s @ [e]" and e: "spec_step (Some (i, d)) e = Some (Some (i, d'))"
    and ok: "hold_ok tid k t i d'"
  shows "advances tid k s a t"
proof -
  have "holding (pcs s i)" using c by simp
  then have "minv tid k t (Some (i, d'))" using holder_moves [OF inv _ _ ok t] c by simp
  then show ?thesis using advances_event [of tid k t "Some (i, d')" s e a] h e a by simp
qed

lemma advances_other:
  assumes "minv tid k s a" and "\<not> holding (pcs s i)" and "pcok k g (pcs s i)"
  shows "advances tid k s a (to i g s)"
  by (rule advances_quiet [OF inv_other [OF assms]]) simp

lemma advances_relabel:
  assumes "minv tid k s a" and "pcok k g (pcs s i)"
    and "holding (pcs s i) \<Longrightarrow> owned g = owned (stg s i) \<and> used g = used (stg s i) \<and> counted g = counted (stg s i) \<and>
       (\<forall>d. local_ok d g)"
  shows "advances tid k s a (to i g s)"
  by (rule advances_quiet [OF inv_relabel [OF assms]]) simp_all

text \<open>A thread that finds its id in the owner holds the mutex; one that finds another value does not.\<close>

lemma finds_own:
  assumes "minv tid k s a" and "own_ids tid" and "tid i \<noteq> 0" and "own s = tid i" and "pcs s i \<in> {Out, Crit}"
  obtains d where "a = Some (i, d)" "hold_ok tid k s i d" "pcs s i = Crit"
proof -
  obtain d where d: "a = Some (i, d)" using owner_is [OF assms(1,4,2,3)] by blast
  have "holding (pcs s i)" "hold_ok tid k s i d" using holder_holds assms(1) d by blast+
  then show thesis using that [OF d] assms(5) by auto
qed

lemma finds_other:
  assumes "minv tid k s a" and "own s \<noteq> tid i" and "owned (stg s i)"
  shows "\<not> holding (pcs s i)"
  using holder_is [OF assms(1), of i] assms(2,3) by (auto simp: hold_ok_def)

lemma pcok_at: "minv tid k s a \<Longrightarrow> stg s i = g \<Longrightarrow> pcok k g (pcs s i)"
  using inv_pcok by blast

lemma step_lock_normal:
  "minv tid k s a \<Longrightarrow> stg s i = Ready \<Longrightarrow> pcs s i = Out \<Longrightarrow> advances tid k s a (to i Locking s)"
  by (erule advances_other) simp_all

lemma step_lock_call:
  assumes "minv tid k s a" and "k \<noteq> Normal" and "stg s i = Ready"
  shows "advances tid k s a (to i LockRead s)"
  by (rule advances_relabel [OF assms(1)]) (use assms(2,3) pcok_at [OF assms(1,3)] in simp_all)

lemma step_unlock_call:
  assumes "minv tid k s a" and "k \<noteq> Normal" and "stg s i = Ready"
  shows "advances tid k s a (to i UnlRead s)"
  by (rule advances_relabel [OF assms(1)]) (use assms(2,3) pcok_at [OF assms(1,3)] in simp_all)

lemma step_try_call:
  assumes "minv tid k s a" and "stg s i = Ready"
  shows "advances tid k s a (to i (if k = Recursive then TryRead else TryLock) s)"
  by (rule advances_relabel [OF assms(1)]) (use assms(2) pcok_at [OF assms(1,2)] in \<open>simp_all split: if_splits\<close>)

lemma step_lock_other:
  assumes "minv tid k s a" and "stg s i = LockRead" and "own s \<noteq> tid i"
  shows "advances tid k s a (to i Locking s)"
  by (rule advances_other [OF assms(1) finds_other [OF assms(1,3)]]) (use assms(2) pcok_at [OF assms(1,2)] in auto)

lemma step_try_other:
  assumes "minv tid k s a" and "stg s i = TryRead" and "own s \<noteq> tid i"
  shows "advances tid k s a (to i TryLock s)"
  by (rule advances_other [OF assms(1) finds_other [OF assms(1,3)]]) (use assms(2) pcok_at [OF assms(1,2)] in auto)

lemma step_unlock_other:
  assumes inv: "minv tid k s a" and g: "stg s i = UnlRead" and o: "own s \<noteq> tid i"
  shows "advances tid k s a (answer i Eperm s)"
proof -
  have n: "\<not> holding (pcs s i)" using finds_other [OF inv o] g by simp
  have "minv tid k (to i Ready s) a" using inv_other [OF inv n] pcok_at [OF inv g] by simp
  then have "minv tid k (answer i Eperm s) a" using inv_hist [where s = "to i Ready s" and h = "hist s @ [(i, Eperm)]"] by simp
  moreover have "spec_step a (i, Eperm) = Some a" using not_holder [OF inv n] by (auto split: option.splits)
  ultimately show ?thesis by (intro advances_event [where e = "(i, Eperm)"]) simp_all
qed

lemma step_mine_rec:
  assumes inv: "minv tid k s a" and "own_ids tid" and "tid i \<noteq> 0" and "own s = tid i" and "k = Recursive"
    and g: "stg s i = LockRead \<or> stg s i = TryRead"
  shows "advances tid k s a (to i BumpChk s)"
proof -
  have p: "pcs s i \<in> {Out, Crit}" using pcok_at [OF inv refl, of i] g by auto
  obtain d where d: "a = Some (i, d)" "hold_ok tid k s i d" "pcs s i = Crit" using finds_own [OF assms(1-4) p] by blast
  show ?thesis by (rule advances_relabel [OF inv]) (use d(3) assms(5) g in auto)
qed

lemma step_mine_err:
  assumes inv: "minv tid k s a" and "own_ids tid" and "tid i \<noteq> 0" and "own s = tid i" and k: "k = Errorcheck"
    and g: "stg s i = LockRead"
  shows "advances tid k s a (answer i Edeadlk s)"
proof -
  have p: "pcs s i \<in> {Out, Crit}" using pcok_at [OF inv g] by auto
  obtain d where d: "a = Some (i, d)" "hold_ok tid k s i d" "pcs s i = Crit" using finds_own [OF assms(1-4) p] by blast
  have "d = 1" using d(2) k by (simp add: hold_ok_def)
  then show ?thesis
    by (intro holder_answers [OF inv d(1) _ _ d(3), where e = "(i, Edeadlk)" and d' = 1]) (use d(2) g k in \<open>auto simp: hold_ok_def\<close>)
qed

lemma step_unlock_mine:
  assumes inv: "minv tid k s a" and "own_ids tid" and "tid i \<noteq> 0" and "own s = tid i" and g: "stg s i = UnlRead"
  shows "advances tid k s a (to i (if k = Recursive then UnlCount else UnlIsLocked) s)"
proof -
  have p: "k \<noteq> Normal \<and> pcs s i \<in> {Out, Crit}" using pcok_at [OF inv g] by auto
  obtain d where d: "a = Some (i, d)" "hold_ok tid k s i d" "pcs s i = Crit" using finds_own [OF assms(1-4)] p by blast
  show ?thesis by (rule advances_relabel [OF inv]) (use d(3) p g in \<open>cases k; simp\<close>)+
qed

text \<open>The steps at the count.\<close>

lemma minus_one_zero: "(w :: u32) + 1 = 0 \<Longrightarrow> unat w = 2 ^ 32 - 1"
proof -
  assume "w + 1 = 0"
  then have "w = - 1" by (simp add: eq_neg_iff_add_eq_0)
  then show ?thesis by (simp add: unsigned_minus_1_eq_mask mask_eq_exp_minus_1)
qed

lemma step_bump_over:
  assumes inv: "minv tid k s a" and g: "stg s i = BumpChk" and c: "cnt s + 1 = 0"
  shows "advances tid k s a (answer i Eagain s)"
proof -
  obtain d where d: "pcs s i = Crit" "a = Some (i, d)" "hold_ok tid k s i d"
    using crit_holder [OF inv, of i] g by (auto simp: at_crit_def)
  have k: "k = Recursive" using pcok_at [OF inv g] by simp
  have "d = 2 ^ 32 - 1" using d(3) k g minus_one_zero [OF c] by (auto simp: hold_ok_def)
  then show ?thesis
    by (intro holder_answers [OF inv d(2) _ _ d(1), where e = "(i, Eagain)" and d' = d]) (use d(3) g k in \<open>auto simp: hold_ok_def\<close>)
qed

lemma unat_plus_one: "(w :: u32) + 1 \<noteq> 0 \<Longrightarrow> unat (w + 1) = unat w + 1 \<and> unat w + 1 < 2 ^ 32"
proof -
  assume "w + 1 \<noteq> 0"
  then have e: "unat (w + 1) = unat w + 1" using unatSuc [of w] by (simp only: add.commute Suc_eq_plus1 simp_thms)
  have "unat (w + 1) < 2 ^ 32" using unsigned_less [of "w + 1", where 'a = nat] by simp
  with e show ?thesis by simp
qed

lemma step_bump_ok:
  assumes inv: "minv tid k s a" and g: "stg s i = BumpChk" and c: "cnt s + 1 \<noteq> 0"
  shows "advances tid k s a (to i BumpInc s)"
proof -
  have k: "k = Recursive" using pcok_at [OF inv g] by simp
  show ?thesis
    by (rule holder_advances [OF inv, of i]) (use g k unat_plus_one [OF c] in \<open>auto simp: hold_simps\<close>)
qed

lemma step_bump_inc:
  assumes inv: "minv tid k s a" and g: "stg s i = BumpInc"
  shows "advances tid k s a (answer i Bump (s\<lparr>cnt := cnt s + 1\<rparr>))"
proof -
  obtain d where d: "pcs s i = Crit" "a = Some (i, d)" "hold_ok tid k s i d"
    using crit_holder [OF inv, of i] g by (auto simp: at_crit_def)
  have k: "k = Recursive" using pcok_at [OF inv g] by simp
  have c: "unat (cnt s) = d" "d + 1 < 2 ^ 32" using d(3) k g by (auto simp: hold_ok_def)
  have "unat (cnt s + 1) = d + 1" using c unat_add_lem [of "cnt s" 1] by simp
  with c show ?thesis
    by (intro holder_answers [OF inv d(2) _ _ d(1), where e = "(i, Bump)" and d' = "d + 1"])
      (use d(3) g k in \<open>auto simp: hold_ok_def\<close>)
qed

lemma step_count_down:
  assumes inv: "minv tid k s a" and g: "stg s i = UnlCount" and c: "cnt s - 1 \<noteq> 0"
  shows "advances tid k s a (answer i Drop (s\<lparr>cnt := cnt s - 1\<rparr>))"
proof -
  obtain d where d: "pcs s i = Crit" "a = Some (i, d)" "hold_ok tid k s i d"
    using crit_holder [OF inv, of i] g by (auto simp: at_crit_def)
  have k: "k = Recursive" using pcok_at [OF inv g] by simp
  have e: "unat (cnt s) = d" "0 < d" using d(3) k g by (auto simp: hold_ok_def)
  then have "cnt s \<noteq> 0" by auto
  then have "unat (cnt s - 1) = d - 1" using unat_minus_one [of "cnt s"] e by simp
  moreover have "1 < d"
  proof (rule ccontr)
    assume "\<not> 1 < d"
    then have "unat (cnt s) = 1" using e by simp
    then have "cnt s = 1" by (intro unsigned_word_eqI [where 'a = nat]) simp
    then show False using c by simp
  qed
  ultimately show ?thesis
    by (intro holder_answers [OF inv d(2) _ _ d(1), where e = "(i, Drop)" and d' = "d - 1"])
      (use d(3) g k in \<open>auto simp: hold_ok_def\<close>)
qed

lemma step_count_zero:
  assumes inv: "minv tid k s a" and g: "stg s i = UnlCount" and c: "cnt s - 1 = 0"
  shows "advances tid k s a (to i UnlOwner (s\<lparr>cnt := cnt s - 1\<rparr>))"
proof -
  have k: "k = Recursive" using pcok_at [OF inv g] by simp
  have "cnt s = 1" using c by simp
  then show ?thesis
    by (intro holder_advances [OF inv, where i = i]) (use g k in \<open>auto simp: hold_simps\<close>)
qed

text \<open>The steps at the lock.\<close>

lemma step_low_quiet:
  "minv tid k s a \<Longrightarrow> lstep (lk s) l \<Longrightarrow> lock_moves s l \<Longrightarrow> \<forall>i. holding (pc_of l i) = holding (pcs s i) \<Longrightarrow>
   advances tid k s a (s\<lparr>lk := l\<rparr>)"
  by (rule advances_quiet [OF low_quiet_inv]) simp_all

lemma step_low_acquire:
  assumes "minv tid k s a" "lstep (lk s) l" "lock_moves s l" "\<not> holding (pcs s i)" "holding (pc_of l i)"
  shows "advances tid k s a (s\<lparr>lk := l, hist := hist s @ [(i, Acquire)]\<rparr>)"
proof (rule advances_event [where e = "(i, Acquire)"])
  show "minv tid k (s\<lparr>lk := l, hist := hist s @ [(i, Acquire)]\<rparr>) (Some (i, 1))"
    using low_acquire_inv(2) [OF assms] inv_hist [where s = "s\<lparr>lk := l\<rparr>" and h = "hist s @ [(i, Acquire)]"] by simp
qed (use low_acquire_inv(1) [OF assms] in simp_all)

lemma step_low_release:
  assumes "minv tid k s a" "lstep (lk s) l" "lock_moves s l" "holding (pcs s i)" "\<not> holding (pc_of l i)"
  shows "advances tid k s a (s\<lparr>lk := l, hist := hist s @ [(i, Release)]\<rparr>)"
proof (rule advances_event [where e = "(i, Release)"])
  show "minv tid k (s\<lparr>lk := l, hist := hist s @ [(i, Release)]\<rparr>) None"
    using low_release_inv(2) [OF assms] inv_hist [where s = "s\<lparr>lk := l\<rparr>" and h = "hist s @ [(i, Release)]"] by simp
qed (use low_release_inv(1) [OF assms] in simp_all)

lemma step_got_lock:
  assumes "minv tid k s a" and "stg s i = Locking" and "pcs s i = Crit"
  shows "advances tid k s a (to i LockAssert s)"
  by (rule advances_relabel [OF assms(1)]) (use assms(2,3) in simp_all)

lemma step_unlocked:
  assumes "minv tid k s a" and "stg s i = Unlocking" and "pcs s i = Out"
  shows "advances tid k s a (to i Ready s)"
  by (rule advances_other [OF assms(1)]) (use assms(2,3) in simp_all)

lemma step_try_got:
  assumes "minv tid k s a" "stg s i = TryLock" "lll_trylock word_cell (lk s) = (0, l)"
  shows "advances tid k s a (s\<lparr>lk := goto i Crit l, stg := (stg s)(i := TryOwner), hist := hist s @ [(i, Acquire)]\<rparr>)"
proof (rule advances_event [where e = "(i, Acquire)"])
  show "minv tid k (s\<lparr>lk := goto i Crit l, stg := (stg s)(i := TryOwner), hist := hist s @ [(i, Acquire)]\<rparr>) (Some (i, 1))"
    using try_got_inv(2) [OF assms]
      inv_hist [where s = "s\<lparr>lk := goto i Crit l, stg := (stg s)(i := TryOwner)\<rparr>" and h = "hist s @ [(i, Acquire)]"] by simp
qed (use try_got_inv(1) [OF assms] in simp_all)

lemma step_try_busy:
  assumes inv: "minv tid k s a" and g: "stg s i = TryLock" and t: "lll_trylock word_cell (lk s) = (v, l)" "v \<noteq> 0"
  shows "advances tid k s a (answer i Busy (s\<lparr>lk := l\<rparr>))"
proof (rule advances_event [where e = "(i, Busy)"])
  have "minv tid k (to i Ready s) a"
    by (rule inv_relabel [OF inv]) (use pcok_at [OF inv g] g in simp_all)
  then show "minv tid k (answer i Busy (s\<lparr>lk := l\<rparr>)) a"
    using try_busy_same [OF t] inv_hist [where s = "to i Ready s" and h = "hist s @ [(i, Busy)]"] by simp
qed (use try_free [OF inv t(1)] t(2) in simp_all)

lemma islocked_held: "minv tid k s (Some (i, d)) \<Longrightarrow> fst (lll_islocked word_cell (lk s))"
proof -
  assume inv: "minv tid k s (Some (i, d))"
  then have "word_at (lk s) \<noteq> 0" unfolding minv_def excl_inv_def by auto
  then show ?thesis by (simp add: lll_islocked_def loadl_def lstep_defs)
qed

lemma step_unlock_held:
  assumes inv: "minv tid k s a" and g: "stg s i = UnlIsLocked"
  shows "fst (lll_islocked word_cell (lk s))" "advances tid k s a (to i UnlOwner s)"
proof -
  obtain d where d: "pcs s i = Crit" "a = Some (i, d)" "hold_ok tid k s i d"
    using crit_holder [OF inv, of i] g by (auto simp: at_crit_def)
  show "fst (lll_islocked word_cell (lk s))" using islocked_held inv d(2) by blast
  have "k = Errorcheck" using pcok_at [OF inv g] by simp
  then show "advances tid k s a (to i UnlOwner s)"
    by (intro holder_advances [OF inv, where i = i]) (use g in \<open>auto simp: hold_simps\<close>)
qed

lemma step_unlock_normal:
  assumes inv: "minv tid k s a" and k: "k = Normal" and g: "stg s i = Ready" and c: "pcs s i = Crit"
  shows "advances tid k s a (to i UnlOwner s)"
proof -
  have "holding (pcs s i)" using c by simp
  then obtain d where d: "a = Some (i, d)" "hold_ok tid k s i d" using holder_is [OF inv] by blast
  have "hold_ok tid k (to i UnlOwner s) i d" using d(2) g k by (simp add: hold_ok_def)
  then have "minv tid k (to i UnlOwner s) a" using holder_moves [OF inv, of i UnlOwner] c d(1) by simp
  then show ?thesis by (rule advances_quiet) simp
qed

lemma mstep_advances:
  assumes st: "mstep tid k s t" and inv: "minv tid k s a" and tid: "own_ids tid" and idle: "no_thread_idle tid s"
  shows "advances tid k s a t"
  using st
proof (cases rule: mstep.cases)
  case (lock_normal i) then show ?thesis using step_lock_normal [OF inv] by simp
next
  case (lock_call i) then show ?thesis using step_lock_call [OF inv] by simp
next
  case (lock_mine_rec i) then show ?thesis using step_mine_rec [OF inv tid idle_calls [OF idle]] by simp
next
  case (lock_mine_err i) then show ?thesis using step_mine_err [OF inv tid idle_calls [OF idle]] by simp
next
  case (lock_other i) then show ?thesis using step_lock_other [OF inv] by simp
next
  case (bump_over i) then show ?thesis using step_bump_over [OF inv] by simp
next
  case (bump_ok i) then show ?thesis using step_bump_ok [OF inv] by simp
next
  case (bump_inc i) then show ?thesis using step_bump_inc [OF inv] by simp
next
  case (low_quiet l) then show ?thesis using step_low_quiet [OF inv] by simp
next
  case (low_acquire l i) then show ?thesis using step_low_acquire [OF inv] by simp
next
  case (low_release l i) then show ?thesis using step_low_release [OF inv] by simp
next
  case (got_lock i) then show ?thesis using step_got_lock [OF inv] by simp
next
  case (assert_ok i) then show ?thesis using step_assert [OF inv] by simp
next
  case (assert_fails i) then show ?thesis using assert_holds [OF inv] by blast
next
  case (count_one i) then show ?thesis using step_count [OF inv] by simp
next
  case (set_owner i) then show ?thesis using step_owner [OF inv] by simp
next
  case (users_read i) then show ?thesis using step_users_read [OF inv] by simp
next
  case (users_write i v) then show ?thesis using step_users_write [OF inv] by simp
next
  case (try_call i) then show ?thesis using step_try_call [OF inv] by simp
next
  case (try_mine i)
  then have "k = Recursive" using pcok_at [OF inv, of i TryRead] by simp
  then show ?thesis using try_mine step_mine_rec [OF inv tid idle_calls [OF idle]] by simp
next
  case (try_other i) then show ?thesis using step_try_other [OF inv] by simp
next
  case (try_got i l) then show ?thesis using step_try_got [OF inv] by simp
next
  case (try_busy i v l) then show ?thesis using step_try_busy [OF inv] by simp
next
  case (try_owner i) then show ?thesis using step_try_owner [OF inv] by simp
next
  case (try_count i) then show ?thesis using step_try_count [OF inv] by simp
next
  case (unlock_normal i) then show ?thesis using step_unlock_normal [OF inv] by simp
next
  case (unlock_call i) then show ?thesis using step_unlock_call [OF inv] by simp
next
  case (unlock_other i) then show ?thesis using step_unlock_other [OF inv] by simp
next
  case (unlock_mine i) then show ?thesis using step_unlock_mine [OF inv tid idle_calls [OF idle]] by simp
next
  case (unlock_free i) then show ?thesis using step_unlock_held(1) [OF inv] by blast
next
  case (unlock_held i) then show ?thesis using step_unlock_held(2) [OF inv] by simp
next
  case (count_down i) then show ?thesis using step_count_down [OF inv] by simp
next
  case (count_zero i) then show ?thesis using step_count_zero [OF inv] by simp
next
  case (no_owner i) then show ?thesis using step_no_owner [OF inv] by simp
next
  case (unusers_read i) then show ?thesis using step_unusers_read [OF inv] by simp
next
  case (unusers_write i v) then show ?thesis using step_unusers_write [OF inv] by simp
next
  case (unlocked i) then show ?thesis using step_unlocked [OF inv] by simp
qed

lemma mreach_inv:
  assumes "mreach tid k s" and "own_ids tid"
  shows "(\<exists>a. minv tid k s a \<and> spec_run None (hist s) = Some a) \<and> no_thread_idle tid s"
  using assms(1)
proof (induction rule: mreach.induct)
  case start
  then show ?case using minv_init by (auto simp: mrace_init_def no_thread_idle_def)
next
  case (step s t)
  then obtain a where a: "minv tid k s a" "spec_run None (hist s) = Some a" "no_thread_idle tid s" by blast
  obtain b where "minv tid k t b" "matched s a t b"
    using mstep_advances [OF step.hyps(2) a(1) assms(2) a(3)] unfolding advances_def by blast
  then have "\<exists>a. minv tid k t a \<and> spec_run None (hist t) = Some a"
    using a(2) unfolding matched_def by (auto simp: spec_run_snoc)
  then show ?case using idle_step [OF step.hyps(2) a(3)] by blast
qed

text \<open>What the state of the mutex says to a thread between two calls.\<close>

definition between_calls :: "(nat \<Rightarrow> i32) \<Rightarrow> mkind \<Rightarrow> mrace \<Rightarrow> nat \<Rightarrow> nat \<Rightarrow> bool" where
  "between_calls tid k s i d \<longleftrightarrow> own s = tid i \<and> nus s = 1 \<and> word_at (lk s) \<noteq> 0 \<and>
     (if k = Recursive then unat (cnt s) = d \<and> 0 < d else d = 1)"

text \<open>
  C5 (any number of threads, one mutex). Threads that lock, try to lock and unlock a mutex of kind normal, recursive or
  error checking, each access to its owner, count, number of users and lock word a step of its own, give
  answers that a mutex used by one thread after the other gives, in the order in which they took effect:
  acquired only when nobody has it, busy only when somebody has it, \<open>EDEADLK\<close> and \<open>EPERM\<close> exactly for the holder and for the
  others, \<open>EAGAIN\<close> only at \<open>2 ^ 32 - 1\<close> locks, released after as many unlocks as locks. The assertion that a
  mutex just locked has no owner never fails, the threads that are past the lock are the one holder, and when the holder is in no
  call the fields of the mutex say who it is and how often it has locked.
\<close>
theorem mutex_linearizes:
  assumes "mreach tid k s" and "own_ids tid"
  shows "\<exists>a. spec_run None (hist s) = Some a \<and> (\<forall>i. stg s i \<noteq> Failed) \<and>
     (\<forall>i. holding (pcs s i) \<longleftrightarrow> (\<exists>d. a = Some (i, d))) \<and>
     (\<forall>i d. a = Some (i, d) \<and> stg s i = Ready \<longrightarrow> between_calls tid k s i d)"
proof -
  obtain a where inv: "minv tid k s a" and run: "spec_run None (hist s) = Some a" using mreach_inv [OF assms] by blast
  have "stg s i \<noteq> Failed" for i using inv_pcok [OF inv, of i] by auto
  moreover have "holding (pcs s i) \<longleftrightarrow> (\<exists>d. a = Some (i, d))" for i
    using holder_is [OF inv, of i] holder_holds inv by blast
  moreover have "between_calls tid k s i d" if "a = Some (i, d)" "stg s i = Ready" for i d
  proof -
    have h: "holding (pcs s i)" "hold_ok tid k s i d" using holder_holds inv that(1) by blast+
    have "word_at (lk s) \<noteq> 0" using inv h(1) unfolding minv_def excl_inv_def by blast
    then show ?thesis using h(2) that(2) by (simp add: between_calls_def hold_ok_def split: if_splits)
  qed
  ultimately show ?thesis using run by blast
qed

text \<open>Thread 0 takes an error checking mutex with \<open>trylock\<close>; thread 1 must not unlock it.\<close>

definition two_tids :: "nat \<Rightarrow> i32" where
  "two_tids i = (if i = 0 then 100 else if i = 1 then 101 else 0)"

lemma two_tids_own: "own_ids two_tids"
  unfolding own_ids_def two_tids_def by (auto split: if_splits)

definition eperm_run :: mrace where
  "eperm_run = \<lparr>lk = goto 0 Crit (lsys_init\<lparr>word_at := 1\<rparr>), own = 100, cnt = 0, nus = 1, stg = (\<lambda>_. Ready),
     hist = [(0, Acquire), (1, Eperm)]\<rparr>"

lemma eperm_run_reached: "mreach two_tids Errorcheck eperm_run"
proof -
  let ?l = "lsys_init\<lparr>word_at := 1\<rparr>"
  let ?s1 = "to 0 TryLock mrace_init"
  let ?s2 = "?s1\<lparr>lk := goto 0 Crit ?l, stg := (stg ?s1)(0 := TryOwner), hist := [(0, Acquire)]\<rparr>"
  let ?s3 = "to 0 LockUsers (?s2\<lparr>own := 100\<rparr>)"
  let ?s4 = "to 0 (LockUsersW 0) ?s3"
  let ?s5 = "to 0 Ready (?s4\<lparr>nus := 1\<rparr>)"
  let ?s6 = "to 1 UnlRead ?s5"
  note init = mrace_init_def lsys_init_def
  have "mreach two_tids Errorcheck ?s1"
    using mreach.step [OF mreach.start mstep.try_call [of mrace_init 0 two_tids Errorcheck]] by (simp add: init two_tids_def)
  moreover have "lll_trylock word_cell (lk ?s1) = (0, ?l)" by (simp add: init lstep_defs)
  ultimately have "mreach two_tids Errorcheck ?s2"
    using mreach.step [OF _ mstep.try_got [of ?s1 0 ?l two_tids Errorcheck]] by (simp add: init)
  then have "mreach two_tids Errorcheck ?s3"
    using mreach.step [OF _ mstep.try_owner [of ?s2 0 two_tids Errorcheck]] by (simp add: two_tids_def)
  then have "mreach two_tids Errorcheck ?s4"
    using mreach.step [OF _ mstep.users_read [of ?s3 0 two_tids Errorcheck]] by (simp add: init)
  then have "mreach two_tids Errorcheck ?s5"
    using mreach.step [OF _ mstep.users_write [of ?s4 0 0 two_tids Errorcheck]] by simp
  then have "mreach two_tids Errorcheck ?s6"
    using mreach.step [OF _ mstep.unlock_call [of Errorcheck ?s5 1 two_tids]] by (simp add: init two_tids_def)
  then have "mreach two_tids Errorcheck (answer 1 Eperm ?s6)"
    using mreach.step [OF _ mstep.unlock_other [of ?s6 1 two_tids Errorcheck]] by (simp add: init two_tids_def)
  moreover have "answer 1 Eperm ?s6 = eperm_run" by (simp add: init eperm_run_def fun_eq_iff)
  ultimately show ?thesis by (simp only:)
qed

theorem mutex_linearizes_witness:
  "spec_run None (hist eperm_run) = Some (Some (0, 1)) \<and> between_calls two_tids Errorcheck eperm_run 0 1"
  using mutex_linearizes [OF eperm_run_reached two_tids_own] by (auto simp: eperm_run_def)

end
