(* ===== verification/RobustCrash.thy ===== *)
theory RobustCrash
  imports RobustList
begin

unbundle bit_operations_syntax

text \<open>
  What happens to the robust mutexes of a thread that dies at any moment: \<open>do_mutex_trylock\<close> (\<open>source/mutex_trylock.c\<close>) and
  \<open>__pthread_mutex_unlock_full\<close> (\<open>source/mutex_unlock.c\<close>) for the robust kinds, with one step per access to memory and
  the other threads between any two of them. When a thread dies the kernel goes through the list that begins at its
  \<open>robust_head\<close>, following the next links only, and \<open>list_op_pending\<close>, and marks the words that carry the thread's id.
  Shown: at every moment it finds every mutex that carries it, except one that was found not recoverable,
  which a trylock leaves locked. The kernel gives up on a list of more than 2048 mutexes; that limit is not modelled.

  A mutex is named by the address of its \<open>__list.__next\<close>, the address that list and pending field hold. The count and the number
  of users, which nobody but the holder touches and the kernel does not look at, are left out.
\<close>

section \<open>Steps\<close>

text \<open>Where the thread is; \<open>dead\<close> says that the previous owner had died.\<close>

datatype rpc =
    RReady
  | TryLoad u64        \<comment> \<open>\<open>oldval = __lock\<close>\<close>
  | TryTest u64 i32    \<comment> \<open>the tests of \<open>oldval\<close> and the compare-and-exchange after them\<close>
  | DeadOwner u64      \<comment> \<open>\<open>__owner = PTHREAD_MUTEX_INCONSISTENT\<close>\<close>
  | TryOwnerIs u64 i32  \<comment> \<open>\<open>if (__owner == PTHREAD_MUTEX_NOTRECOVERABLE)\<close>\<close>
  | Enq nat u64 bool   \<comment> \<open>the store of \<open>ENQUEUE_MUTEX\<close> with this number\<close>
  | EnqDone u64 bool   \<comment> \<open>\<open>list_op_pending = NULL\<close>\<close>
  | SetOwner u64       \<comment> \<open>\<open>__owner = id\<close>\<close>
  | Deq nat u64 i32    \<comment> \<open>the store of \<open>DEQUEUE_MUTEX\<close> with this number\<close>
  | UnlSetOwner u64 i32  \<comment> \<open>\<open>__owner = newowner\<close>\<close>
  | UnlWord u64        \<comment> \<open>\<open>lll_robust_unlock\<close>: \<open>lock; andl\<close>\<close>
  | UnlWake u64        \<comment> \<open>\<open>__lll_unlock_wake\<close>: the store of 0\<close>
  | Leave              \<comment> \<open>\<open>list_op_pending = NULL\<close>\<close>

record rsys =
  lnk :: links
  pend :: u64
  wd :: "u64 \<Rightarrow> i32"
  ow :: "u64 \<Rightarrow> i32"
  rpc :: rpc

text \<open>The stores of the two macros.\<close>

definition enq_store :: "nat \<Rightarrow> u64 \<Rightarrow> u64 \<Rightarrow> links \<Rightarrow> links" where
  "enq_store k a l h =
     (if k = 0 then h\<lparr>l_prev := (l_prev h)(untag (l_next h l) := a)\<rparr>
      else if k = 1 then h\<lparr>l_next := (l_next h)(a := l_next h l)\<rparr>
      else if k = 2 then h\<lparr>l_prev := (l_prev h)(a := l)\<rparr>
      else h\<lparr>l_next := (l_next h)(l := a)\<rparr>)"

definition deq_store :: "nat \<Rightarrow> u64 \<Rightarrow> links \<Rightarrow> links" where
  "deq_store k a h =
     (if k = 0 then h\<lparr>l_prev := (l_prev h)(untag (l_next h a) := l_prev h a)\<rparr>
      else if k = 1 then h\<lparr>l_next := (l_next h)(untag (l_prev h a) := l_next h a)\<rparr>
      else if k = 2 then h\<lparr>l_prev := (l_prev h)(a := 0)\<rparr>
      else h\<lparr>l_next := (l_next h)(a := 0)\<rparr>)"

fun enqs :: "nat \<Rightarrow> u64 \<Rightarrow> u64 \<Rightarrow> links \<Rightarrow> links" where
  "enqs 0 a l h = h"
| "enqs (Suc k) a l h = enq_store k a l (enqs k a l h)"

fun deqs :: "nat \<Rightarrow> u64 \<Rightarrow> links \<Rightarrow> links" where
  "deqs 0 a h = h"
| "deqs (Suc k) a h = deq_store k a (deqs k a h)"

text \<open>One after the other they are the macros.\<close>

lemma enqs_all: "enqs 4 a l h = ENQUEUE_MUTEX a l h"
  by (cases h) (simp add: numeral_eq_Suc enq_store_def ENQUEUE_MUTEX_def ENQUEUE_MUTEX_BOTH_def Let_def)

lemma deqs_all: "deqs 4 a h = DEQUEUE_MUTEX a h"
  by (cases h) (simp add: numeral_eq_Suc deq_store_def DEQUEUE_MUTEX_def Let_def)

text \<open>\<open>me\<close> is the thread's id, \<open>l\<close> the address of its \<open>robust_head\<close>, \<open>ty\<close> the type of each mutex.\<close>

definition carries :: "i32 \<Rightarrow> i32 \<Rightarrow> bool" where
  "carries me w \<longleftrightarrow> w AND FUTEX_TID_MASK = me"

definition died :: "i32 \<Rightarrow> bool" where
  "died w \<longleftrightarrow> w AND FUTEX_OWNER_DIED \<noteq> 0"

text \<open>
  The others do what they like with mutexes that this thread does not hold, links included; in one that it holds they
  can only announce that they wait.
\<close>

definition others :: "i32 \<Rightarrow> u64 \<Rightarrow> rsys \<Rightarrow> rsys \<Rightarrow> bool" where
  "others me l s t \<longleftrightarrow> pend t = pend s \<and> rpc t = rpc s \<and>
     (\<forall>a. if carries me (wd s a) then (wd t a = wd s a \<or> wd t a = wd s a OR FUTEX_WAITERS) \<and> ow t a = ow s a
          else \<not> carries me (wd t a) \<and> ow t a \<noteq> me) \<and>
     (\<forall>a. a = l \<or> carries me (wd s a) \<longrightarrow> l_next (lnk t) a = l_next (lnk s) a \<and> l_prev (lnk t) a = l_prev (lnk s) a)"

definition is_node :: "u64 \<Rightarrow> u64 \<Rightarrow> bool" where
  "is_node l a \<longleftrightarrow> aligned a \<and> a \<noteq> l \<and> a \<noteq> 0"

abbreviation goes :: "rpc \<Rightarrow> rsys \<Rightarrow> rsys" where
  "goes p s \<equiv> s\<lparr>rpc := p\<rparr>"

text \<open>
  A program does not unlock a mutex that it was told is not recoverable. An inner unlock of a recursive mutex
  touches only the count and is no step here. \<open>pthread_mutex_consistent\<close>, of the C library, sets the owner.
\<close>

inductive rstep :: "i32 \<Rightarrow> u64 \<Rightarrow> (u64 \<Rightarrow> i32) \<Rightarrow> rsys \<Rightarrow> rsys \<Rightarrow> bool" for me l ty where
  other: "others me l s t \<Longrightarrow> rstep me l ty s t"
| consistent: "rpc s = RReady \<Longrightarrow> carries me (wd s a) \<Longrightarrow> ow s a = PTHREAD_MUTEX_INCONSISTENT \<Longrightarrow>
     rstep me l ty s (s\<lparr>ow := (ow s)(a := me)\<rparr>)"
| try_begin: "rpc s = RReady \<Longrightarrow> is_node l a \<Longrightarrow> rstep me l ty s (goes (TryLoad a) (s\<lparr>pend := a\<rparr>))"
| try_load: "rpc s = TryLoad a \<Longrightarrow> rstep me l ty s (goes (TryTest a (wd s a)) s)"
| try_died: "rpc s = TryTest a v \<Longrightarrow> died v \<Longrightarrow> wd s a = v \<Longrightarrow>
     rstep me l ty s (goes (DeadOwner a) (s\<lparr>wd := (wd s)(a := me OR (v AND FUTEX_WAITERS))\<rparr>))"
| try_again: "rpc s = TryTest a v \<Longrightarrow> died v \<Longrightarrow> wd s a \<noteq> v \<Longrightarrow> rstep me l ty s (goes (TryTest a (wd s a)) s)"
| dead_owner: "rpc s = DeadOwner a \<Longrightarrow>
     rstep me l ty s (goes (Enq 0 a True) (s\<lparr>ow := (ow s)(a := PTHREAD_MUTEX_INCONSISTENT)\<rparr>))"
| try_mine: "rpc s = TryTest a v \<Longrightarrow> \<not> died v \<Longrightarrow> carries me v \<Longrightarrow>
     ty a \<in> {PTHREAD_MUTEX_ROBUST_ERRORCHECK_NP, PTHREAD_MUTEX_ROBUST_RECURSIVE_NP} \<Longrightarrow> rstep me l ty s (goes Leave s)"
| try_free: "rpc s = TryTest a v \<Longrightarrow> \<not> died v \<Longrightarrow>
     \<not> (carries me v \<and> ty a \<in> {PTHREAD_MUTEX_ROBUST_ERRORCHECK_NP, PTHREAD_MUTEX_ROBUST_RECURSIVE_NP}) \<Longrightarrow>
     wd s a = 0 \<Longrightarrow> rstep me l ty s (goes (TryOwnerIs a 0) (s\<lparr>wd := (wd s)(a := me)\<rparr>))"
| try_taken: "rpc s = TryTest a v \<Longrightarrow> \<not> died v \<Longrightarrow>
     \<not> (carries me v \<and> ty a \<in> {PTHREAD_MUTEX_ROBUST_ERRORCHECK_NP, PTHREAD_MUTEX_ROBUST_RECURSIVE_NP}) \<Longrightarrow>
     wd s a \<noteq> 0 \<Longrightarrow> rstep me l ty s (goes (if died (wd s a) then TryOwnerIs a (wd s a) else Leave) s)"
| not_recoverable: "rpc s = TryOwnerIs a v \<Longrightarrow> ow s a = PTHREAD_MUTEX_NOTRECOVERABLE \<Longrightarrow> v \<noteq> me \<Longrightarrow>
     rstep me l ty s (goes Leave s)"
| not_recoverable_free: "rpc s = TryOwnerIs a v \<Longrightarrow> ow s a = PTHREAD_MUTEX_NOTRECOVERABLE \<Longrightarrow> v = me \<Longrightarrow>
     rstep me l ty s (goes Leave (s\<lparr>wd := (wd s)(a := 0)\<rparr>))"   \<comment> \<open>\<open>lll_unlock\<close>, which is never reached\<close>
| recoverable: "rpc s = TryOwnerIs a v \<Longrightarrow> ow s a \<noteq> PTHREAD_MUTEX_NOTRECOVERABLE \<Longrightarrow>
     rstep me l ty s (goes (if died v then TryTest a v else Enq 0 a False) s)"
| enq: "rpc s = Enq k a dead \<Longrightarrow>
     rstep me l ty s (goes (if k < 3 then Enq (Suc k) a dead else EnqDone a dead) (s\<lparr>lnk := enq_store k a l (lnk s)\<rparr>))"
| enq_done: "rpc s = EnqDone a dead \<Longrightarrow> rstep me l ty s (goes (if dead then RReady else SetOwner a) (s\<lparr>pend := 0\<rparr>))"
| set_owner: "rpc s = SetOwner a \<Longrightarrow> rstep me l ty s (goes RReady (s\<lparr>ow := (ow s)(a := me)\<rparr>))"
| unl_begin: "rpc s = RReady \<Longrightarrow> is_node l a \<Longrightarrow> ow s a \<noteq> PTHREAD_MUTEX_NOTRECOVERABLE \<Longrightarrow>
     (if ty a = PTHREAD_MUTEX_ROBUST_RECURSIVE_NP
      then carries me (wd s a) \<and> ow s a = PTHREAD_MUTEX_INCONSISTENT \<or> ow s a = me
      else carries me (wd s a) \<and> wd s a \<noteq> 0) \<Longrightarrow>
     newowner = (if carries me (wd s a) \<and> ow s a = PTHREAD_MUTEX_INCONSISTENT then PTHREAD_MUTEX_NOTRECOVERABLE else 0) \<Longrightarrow>
     rstep me l ty s (goes (Deq 0 a newowner) (s\<lparr>pend := a\<rparr>))"
| deq: "rpc s = Deq k a newowner \<Longrightarrow>
     rstep me l ty s (goes (if k < 3 then Deq (Suc k) a newowner else UnlSetOwner a newowner) (s\<lparr>lnk := deq_store k a (lnk s)\<rparr>))"
| unl_owner: "rpc s = UnlSetOwner a newowner \<Longrightarrow> rstep me l ty s (goes (UnlWord a) (s\<lparr>ow := (ow s)(a := newowner)\<rparr>))"
| unl_word: "rpc s = UnlWord a \<Longrightarrow> w = wd s a AND FUTEX_WAITERS \<Longrightarrow>
     rstep me l ty s (goes (if w \<noteq> 0 then UnlWake a else Leave) (s\<lparr>wd := (wd s)(a := w)\<rparr>))"
| unl_wake: "rpc s = UnlWake a \<Longrightarrow> rstep me l ty s (goes Leave (s\<lparr>wd := (wd s)(a := 0)\<rparr>))"
| leave: "rpc s = Leave \<Longrightarrow> rstep me l ty s (goes RReady (s\<lparr>pend := 0\<rparr>))"

text \<open>At first the thread holds nothing and its list is empty.\<close>

definition rsys_init :: "i32 \<Rightarrow> u64 \<Rightarrow> rsys \<Rightarrow> bool" where
  "rsys_init me l s \<longleftrightarrow> rlist (lnk s) l [] \<and> pend s = 0 \<and> rpc s = RReady \<and> (\<forall>a. \<not> carries me (wd s a) \<and> ow s a \<noteq> me)"

inductive rreach :: "i32 \<Rightarrow> u64 \<Rightarrow> (u64 \<Rightarrow> i32) \<Rightarrow> rsys \<Rightarrow> bool" for me l ty where
  start: "rsys_init me l s \<Longrightarrow> rreach me l ty s"
| step: "rreach me l ty s \<Longrightarrow> rstep me l ty s t \<Longrightarrow> rreach me l ty t"

section \<open>The kernel's walk\<close>

text \<open>\<open>n\<close> is the number of nodes that it looks at.\<close>

fun robust_walk :: "nat \<Rightarrow> links \<Rightarrow> u64 \<Rightarrow> u64 \<Rightarrow> u64 list option" where
  "robust_walk 0 h l a = None"
| "robust_walk (Suc n) h l a =
     (if a = l then Some []
      else case robust_walk n h l (untag (l_next h a)) of None \<Rightarrow> None | Some xs \<Rightarrow> Some (a # xs))"

text \<open>The walk ends, it meets only mutexes that the thread holds, and all of them but the pending and the unrecoverable ones.\<close>

definition kernel_finds :: "nat \<Rightarrow> i32 \<Rightarrow> u64 \<Rightarrow> rsys \<Rightarrow> bool" where
  "kernel_finds n me l s \<longleftrightarrow>
     (case robust_walk n (lnk s) l (untag (l_next (lnk s) l)) of None \<Rightarrow> False
      | Some xs \<Rightarrow> (\<forall>a \<in> set xs. carries me (wd s a)) \<and>
          (\<forall>a. carries me (wd s a) \<longrightarrow> a \<in> set xs \<or> a = pend s \<or> ow s a = PTHREAD_MUTEX_NOTRECOVERABLE))"

section \<open>Words\<close>

definition own_id :: "i32 \<Rightarrow> bool" where
  "own_id me \<longleftrightarrow> carries me me \<and> me \<noteq> 0"

lemma own_id_not_died: "own_id me \<Longrightarrow> \<not> died me"
proof -
  assume "own_id me"
  then have "me = me AND FUTEX_TID_MASK" by (simp add: own_id_def carries_def)
  then have "me AND FUTEX_OWNER_DIED = me AND (FUTEX_TID_MASK AND FUTEX_OWNER_DIED)" by (metis and.assoc)
  then show ?thesis by (simp add: died_def futex_masks)
qed

lemma own_id_markers:
  "own_id me \<Longrightarrow> PTHREAD_MUTEX_NOTRECOVERABLE \<noteq> me \<and> PTHREAD_MUTEX_INCONSISTENT \<noteq> me"
  by (auto simp: own_id_def carries_def PTHREAD_MUTEX_NOTRECOVERABLE_def PTHREAD_MUTEX_INCONSISTENT_def futex_masks)

lemma carries_waiters [simp]:
  "carries me (w OR FUTEX_WAITERS) = carries me w"
  "died (w OR FUTEX_WAITERS) = died w"
proof -
  have "(w OR FUTEX_WAITERS) AND FUTEX_TID_MASK = w AND FUTEX_TID_MASK"
    by (simp add: bit.conj_disj_distrib2 futex_masks)
  then show "carries me (w OR FUTEX_WAITERS) = carries me w" by (simp add: carries_def)
  have "(w OR FUTEX_WAITERS) AND FUTEX_OWNER_DIED = w AND FUTEX_OWNER_DIED"
    by (simp add: bit.conj_disj_distrib2 futex_masks)
  then show "died (w OR FUTEX_WAITERS) = died w" by (simp add: died_def)
qed

lemma keeps_waiters:
  assumes "own_id me"
  shows "carries me (me OR (v AND FUTEX_WAITERS))" "\<not> died (me OR (v AND FUTEX_WAITERS))"
    "\<not> carries me (v AND FUTEX_WAITERS)" "\<not> carries me 0"
proof -
  have z: "(v AND FUTEX_WAITERS) AND FUTEX_TID_MASK = 0" "(v AND FUTEX_WAITERS) AND FUTEX_OWNER_DIED = 0"
    by (simp_all add: and.assoc futex_masks)
  show "carries me (me OR (v AND FUTEX_WAITERS))"
    using assms z(1) by (simp add: carries_def own_id_def bit.conj_disj_distrib2)
  show "\<not> died (me OR (v AND FUTEX_WAITERS))"
    using own_id_not_died [OF assms] z(2) by (simp add: died_def bit.conj_disj_distrib2)
  show "\<not> carries me (v AND FUTEX_WAITERS)" using assms z(1) by (auto simp: carries_def own_id_def)
  show "\<not> carries me 0" using assms by (auto simp: carries_def own_id_def)
qed

section \<open>Links that agree\<close>

definition agree :: "u64 set \<Rightarrow> links \<Rightarrow> links \<Rightarrow> bool" where
  "agree A h h' \<longleftrightarrow> (\<forall>x \<in> A. l_next h x = l_next h' x \<and> l_prev h x = l_prev h' x)"

lemma agree_refl [simp]: "agree A h h"
  by (simp add: agree_def)

lemma agree_trans: "agree A h h' \<Longrightarrow> agree A h' h'' \<Longrightarrow> agree A h h''"
  by (simp add: agree_def)

lemma rlist_agree: "rlist h l xs \<Longrightarrow> agree (set (l # xs)) h' h \<Longrightarrow> rlist h' l xs"
  unfolding rlist_def agree_def
  by (auto elim!: ring_cong)

lemma agree_enq_store: "agree A h h' \<Longrightarrow> l \<in> A \<Longrightarrow> a \<in> A \<Longrightarrow> agree A (enq_store k a l h) (enq_store k a l h')"
  by (simp add: agree_def enq_store_def)

lemma agree_deq_store: "agree A h h' \<Longrightarrow> a \<in> A \<Longrightarrow> agree A (deq_store k a h) (deq_store k a h')"
  by (simp add: agree_def deq_store_def)

section \<open>Walking\<close>

lemma walk_dpath:
  assumes "dpath (\<lambda>a. untag (l_next h a)) p x xs l" and "l \<notin> set xs"
  shows "robust_walk (Suc (length xs)) h l (untag (l_next h x)) = Some xs"
  using assms by (induction xs arbitrary: x) auto

lemma walk_rlist: "rlist h l xs \<Longrightarrow> robust_walk (Suc (length xs)) h l (untag (l_next h l)) = Some xs"
  unfolding rlist_def ring_def by (intro walk_dpath) auto

lemma walk_cong:
  assumes "robust_walk n h l x = Some xs" and "\<forall>y \<in> set xs. l_next h' y = l_next h y"
  shows "robust_walk n h' l x = Some xs"
  using assms
proof (induction n arbitrary: x xs)
  case (Suc n)
  then show ?case by (auto split: if_splits option.splits)
qed simp

lemma walk_next:
  assumes "rlist h l xs" and "\<forall>y \<in> set (l # xs). l_next h' y = l_next h y"
  shows "robust_walk (Suc (length xs)) h' l (untag (l_next h' l)) = Some xs"
  using walk_cong [OF walk_rlist [OF assms(1)]] assms(2) by simp

text \<open>Between the stores of the macros the next links are those before or those after.\<close>

lemma enqs_next: "k \<le> 3 \<Longrightarrow> x \<noteq> a \<Longrightarrow> l_next (enqs k a l h) x = l_next h x"
  by (auto simp: le_Suc_eq numeral_eq_Suc enq_store_def)

lemma deqs_next_before: "k \<le> 1 \<Longrightarrow> l_next (deqs k a h) x = l_next h x"
  by (auto simp: le_Suc_eq deq_store_def)

lemma deqs_next_after: "2 \<le> k \<Longrightarrow> k \<le> 3 \<Longrightarrow> x \<noteq> a \<Longrightarrow> l_next (deqs k a h) x = l_next (DEQUEUE_MUTEX a h) x"
  unfolding deqs_all [symmetric]
  by (auto simp: le_Suc_eq numeral_eq_Suc deq_store_def)

lemma walk_enqs:
  assumes "rlist h0 l xs" and "a \<notin> set (l # xs)" and "k \<le> 3" and "agree (set (l # a # xs)) h (enqs k a l h0)"
  shows "robust_walk (Suc (length xs)) h l (untag (l_next h l)) = Some xs"
proof (rule walk_next [OF assms(1)])
  show "\<forall>y \<in> set (l # xs). l_next h y = l_next h0 y"
  proof
    fix y assume y: "y \<in> set (l # xs)"
    then have "l_next h y = l_next (enqs k a l h0) y" using assms(4) by (auto simp: agree_def)
    also have "\<dots> = l_next h0 y" using y assms(2) by (intro enqs_next [OF assms(3)]) auto
    finally show "l_next h y = l_next h0 y" .
  qed
qed

lemma walk_deqs:
  assumes "rlist h0 l (ys @ a # zs)" and "k \<le> 3" and "agree (set (l # ys @ a # zs)) h (deqs k a h0)"
  shows "\<exists>xs. set (ys @ zs) \<subseteq> set xs \<and> set xs \<subseteq> set (ys @ a # zs) \<and>
     robust_walk (Suc (length xs)) h l (untag (l_next h l)) = Some xs"
proof (cases "k \<le> 1")
  case True
  then have "robust_walk (Suc (length (ys @ a # zs))) h l (untag (l_next h l)) = Some (ys @ a # zs)"
    using assms(3) deqs_next_before by (intro walk_next [OF assms(1)]) (auto simp: agree_def)
  then show ?thesis by (intro exI [of _ "ys @ a # zs"]) auto
next
  case False
  have d: "a \<notin> set (l # ys @ zs)" using assms(1) by (auto simp: rlist_def ring_def)
  have "robust_walk (Suc (length (ys @ zs))) h l (untag (l_next h l)) = Some (ys @ zs)"
  proof (rule walk_next [OF rlist_dequeue [OF assms(1)]])
    show "\<forall>y \<in> set (l # ys @ zs). l_next h y = l_next (DEQUEUE_MUTEX a h0) y"
    proof
      fix y assume y: "y \<in> set (l # ys @ zs)"
      then have "l_next h y = l_next (deqs k a h0) y" using assms(3) by (auto simp: agree_def)
      also have "\<dots> = l_next (DEQUEUE_MUTEX a h0) y" using deqs_next_after [of k y a h0] False assms(2) y d by auto
      finally show "l_next h y = l_next (DEQUEUE_MUTEX a h0) y" .
    qed
  qed
  then show ?thesis by (intro exI [of _ "ys @ zs"]) auto
qed

section \<open>Invariant\<close>

text \<open>\<open>xs\<close> is the list; besides its mutexes the thread holds at most those in \<open>ex\<close> and unrecoverable ones.\<close>

definition held :: "i32 \<Rightarrow> rsys \<Rightarrow> u64 list \<Rightarrow> u64 set \<Rightarrow> bool" where
  "held me s xs ex \<longleftrightarrow> (\<forall>a \<in> set xs. carries me (wd s a)) \<and>
     (\<forall>a. carries me (wd s a) \<longrightarrow> a \<in> set xs \<or> a \<in> ex \<or> ow s a = PTHREAD_MUTEX_NOTRECOVERABLE)"

definition listed :: "i32 \<Rightarrow> u64 \<Rightarrow> rsys \<Rightarrow> u64 list \<Rightarrow> u64 set \<Rightarrow> bool" where
  "listed me l s xs ex \<longleftrightarrow> rlist (lnk s) l xs \<and> held me s xs ex"

definition taken :: "i32 \<Rightarrow> u64 \<Rightarrow> rsys \<Rightarrow> u64 \<Rightarrow> bool" where
  "taken me l s a \<longleftrightarrow> pend s = a \<and> is_node l a \<and> carries me (wd s a)"

fun phase :: "i32 \<Rightarrow> u64 \<Rightarrow> rsys \<Rightarrow> rpc \<Rightarrow> bool" where
  "phase me l s RReady = (pend s = 0 \<and> (\<exists>xs. listed me l s xs {}))"
| "phase me l s (TryLoad a) = (pend s = a \<and> is_node l a \<and> (\<exists>xs. listed me l s xs {}))"
| "phase me l s (TryTest a v) = (pend s = a \<and> is_node l a \<and> (\<exists>xs. listed me l s xs {}))"
| "phase me l s (DeadOwner a) = (taken me l s a \<and> (\<exists>xs. listed me l s xs {a} \<and> a \<notin> set xs))"
| "phase me l s (TryOwnerIs a v) = (pend s = a \<and> is_node l a \<and> v \<noteq> me \<and>
     (if died v then \<exists>xs. listed me l s xs {} else carries me (wd s a) \<and> (\<exists>xs. listed me l s xs {a} \<and> a \<notin> set xs)))"
| "phase me l s (Enq k a dead) = (taken me l s a \<and> k \<le> 3 \<and>
     (\<exists>xs h0. rlist h0 l xs \<and> a \<notin> set xs \<and> agree (set (l # a # xs)) (lnk s) (enqs k a l h0) \<and> held me s xs {a}))"
| "phase me l s (EnqDone a dead) = (taken me l s a \<and> (\<exists>xs. listed me l s xs {} \<and> a \<in> set xs))"
| "phase me l s (SetOwner a) = (pend s = 0 \<and> carries me (wd s a) \<and> (\<exists>xs. listed me l s xs {} \<and> a \<in> set xs))"
| "phase me l s (Deq k a newowner) = (taken me l s a \<and> k \<le> 3 \<and> newowner \<noteq> me \<and>
     (\<exists>ys zs h0. rlist h0 l (ys @ a # zs) \<and> agree (set (l # ys @ a # zs)) (lnk s) (deqs k a h0) \<and> held me s (ys @ zs) {a}))"
| "phase me l s (UnlSetOwner a newowner) = (taken me l s a \<and> newowner \<noteq> me \<and> (\<exists>xs. listed me l s xs {a} \<and> a \<notin> set xs))"
| "phase me l s (UnlWord a) = (taken me l s a \<and> ow s a \<noteq> me \<and> (\<exists>xs. listed me l s xs {a} \<and> a \<notin> set xs))"
| "phase me l s (UnlWake a) = (\<not> carries me (wd s a) \<and> (\<exists>xs. listed me l s xs {}))"
| "phase me l s Leave = (\<exists>xs. listed me l s xs {})"

definition rinv :: "i32 \<Rightarrow> u64 \<Rightarrow> rsys \<Rightarrow> bool" where
  "rinv me l s \<longleftrightarrow> (\<forall>a. carries me (wd s a) \<longrightarrow> \<not> died (wd s a)) \<and> (\<forall>a. ow s a = me \<longrightarrow> carries me (wd s a)) \<and>
     phase me l s (rpc s)"

lemma rinv_init: "rsys_init me l s \<Longrightarrow> rinv me l s"
  by (auto simp: rsys_init_def rinv_def listed_def held_def intro!: exI [of _ "[]"])

text \<open>What the kernel finds in each phase.\<close>

lemma held_found:
  assumes "held me s xs ex" and "set xs \<subseteq> set ys" and "\<forall>a \<in> set ys. carries me (wd s a)" and "ex \<subseteq> {pend s}"
    and "robust_walk n (lnk s) l (untag (l_next (lnk s) l)) = Some ys"
  shows "\<exists>n. kernel_finds n me l s"
  using assms unfolding held_def kernel_finds_def by (intro exI [of _ n]) auto

lemma listed_found:
  assumes "listed me l s xs ex" and "ex \<subseteq> {pend s}"
  shows "\<exists>n. kernel_finds n me l s"
proof -
  have "\<forall>a \<in> set xs. carries me (wd s a)" using assms(1) by (simp add: listed_def held_def)
  then show ?thesis
    using assms held_found [OF _ order_refl _ assms(2) walk_rlist] unfolding listed_def by blast
qed

lemma rinv_found:
  assumes "rinv me l s"
  shows "\<exists>n. kernel_finds n me l s"
proof -
  have p: "phase me l s (rpc s)" using assms by (simp add: rinv_def)
  show ?thesis
  proof (cases "rpc s")
    case (Enq k a dead)
    with p obtain xs h0 where x: "rlist h0 l xs" "a \<notin> set xs" "agree (set (l # a # xs)) (lnk s) (enqs k a l h0)"
      "held me s xs {a}" "k \<le> 3" "pend s = a" "a \<noteq> l" by (auto simp: taken_def is_node_def)
    have "robust_walk (Suc (length xs)) (lnk s) l (untag (l_next (lnk s) l)) = Some xs"
      using walk_enqs [OF x(1) _ x(5,3)] x(2,7) by simp
    moreover have "\<forall>a \<in> set xs. carries me (wd s a)" using x(4) by (simp add: held_def)
    ultimately show ?thesis using held_found [OF x(4) order_refl] x(6) by blast
  next
    case (Deq k a newowner)
    with p obtain ys zs h0 where x: "rlist h0 l (ys @ a # zs)" "agree (set (l # ys @ a # zs)) (lnk s) (deqs k a h0)"
      "held me s (ys @ zs) {a}" "k \<le> 3" "pend s = a" "carries me (wd s a)" by (auto simp: taken_def)
    obtain xs where w: "set (ys @ zs) \<subseteq> set xs" "set xs \<subseteq> set (ys @ a # zs)"
      "robust_walk (Suc (length xs)) (lnk s) l (untag (l_next (lnk s) l)) = Some xs"
      using walk_deqs [OF x(1,4,2)] by blast
    have "\<forall>a \<in> set xs. carries me (wd s a)" using w(2) x(3,6) by (auto simp: held_def)
    then show ?thesis using held_found [OF x(3) w(1) _ _ w(3)] x(5) by blast
  next
    case (TryOwnerIs a v)
    with p show ?thesis using listed_found [of me l s] by (cases "died v") auto
  qed (use p listed_found [of me l s] in \<open>auto simp: taken_def\<close>)
qed

section \<open>The others keep the invariant\<close>

lemma others_facts:
  assumes "others me l s t"
  shows "pend t = pend s" "rpc t = rpc s" "carries me (wd t a) = carries me (wd s a)"
    "carries me (wd s a) \<Longrightarrow> died (wd t a) = died (wd s a) \<and> ow t a = ow s a"
    "ow t a = me \<Longrightarrow> carries me (wd s a) \<and> ow s a = me"
    "a = l \<or> carries me (wd s a) \<Longrightarrow> l_next (lnk t) a = l_next (lnk s) a \<and> l_prev (lnk t) a = l_prev (lnk s) a"
proof -
  have w: "if carries me (wd s a) then (wd t a = wd s a \<or> wd t a = wd s a OR FUTEX_WAITERS) \<and> ow t a = ow s a
      else \<not> carries me (wd t a) \<and> ow t a \<noteq> me"
    using assms by (simp add: others_def)
  show "pend t = pend s" "rpc t = rpc s" using assms by (simp_all add: others_def)
  show "a = l \<or> carries me (wd s a) \<Longrightarrow> l_next (lnk t) a = l_next (lnk s) a \<and> l_prev (lnk t) a = l_prev (lnk s) a"
    using assms unfolding others_def by blast
  show "carries me (wd t a) = carries me (wd s a)" using w by (auto split: if_splits)
  show "carries me (wd s a) \<Longrightarrow> died (wd t a) = died (wd s a) \<and> ow t a = ow s a" using w by auto
  show "ow t a = me \<Longrightarrow> carries me (wd s a) \<and> ow s a = me" using w by (auto split: if_splits)
qed

lemma others_held:
  assumes "others me l s t" and "held me s xs ex"
  shows "held me t xs ex"
  using assms(2) others_facts(3,4) [OF assms(1)] unfolding held_def by metis

lemma others_agree:
  assumes "others me l s t" and "\<forall>x \<in> A. x = l \<or> carries me (wd s x)"
  shows "agree A (lnk t) (lnk s)"
  using others_facts(6) [OF assms(1)] assms(2) unfolding agree_def by blast

lemma others_listed:
  assumes "others me l s t" and "listed me l s xs ex"
  shows "listed me l t xs ex"
proof -
  have h: "held me s xs ex" and r: "rlist (lnk s) l xs" using assms(2) by (simp_all add: listed_def)
  have "agree (set (l # xs)) (lnk t) (lnk s)"
    using h by (intro others_agree [OF assms(1)]) (auto simp: held_def)
  then show ?thesis using rlist_agree [OF r] others_held [OF assms(1) h] by (simp add: listed_def)
qed

lemma others_taken: "others me l s t \<Longrightarrow> taken me l s a \<Longrightarrow> taken me l t a"
  using others_facts(1,3) unfolding taken_def by metis

lemma others_phase:
  assumes o: "others me l s t" and p: "phase me l s (rpc s)"
  shows "phase me l t (rpc s)"
proof (cases "rpc s")
  case (Enq k a dead)
  with p obtain xs h0 where x: "rlist h0 l xs" "a \<notin> set xs" "agree (set (l # a # xs)) (lnk s) (enqs k a l h0)"
    "held me s xs {a}" "k \<le> 3" "taken me l s a" by auto
  have "agree (set (l # a # xs)) (lnk t) (lnk s)"
    using x(4,6) by (intro others_agree [OF o]) (auto simp: held_def taken_def)
  then have "agree (set (l # a # xs)) (lnk t) (enqs k a l h0)" using x(3) by (rule agree_trans)
  then show ?thesis using Enq x others_held [OF o x(4)] others_taken [OF o x(6)] by auto
next
  case (Deq k a newowner)
  with p obtain ys zs h0 where x: "rlist h0 l (ys @ a # zs)" "agree (set (l # ys @ a # zs)) (lnk s) (deqs k a h0)"
    "held me s (ys @ zs) {a}" "k \<le> 3" "taken me l s a" "newowner \<noteq> me" by auto
  have "agree (set (l # ys @ a # zs)) (lnk t) (lnk s)"
    using x(3,5) by (intro others_agree [OF o]) (auto simp: held_def taken_def)
  then have "agree (set (l # ys @ a # zs)) (lnk t) (deqs k a h0)" using x(2) by (rule agree_trans)
  then show ?thesis using Deq x others_held [OF o x(3)] others_taken [OF o x(5)] by auto
next
  case (UnlWord a)
  have "ow t a \<noteq> me" using p UnlWord others_facts(4) [OF o, of a] by (auto simp: taken_def)
  then show ?thesis using p UnlWord others_listed [OF o] others_taken [OF o] by auto
next
  case (TryOwnerIs a v)
  then show ?thesis using p others_listed [OF o] others_facts(1,3) [OF o] by (cases "died v") auto
qed (use p others_listed [OF o] others_taken [OF o] others_facts(1,3) [OF o] in \<open>fastforce+\<close>)

lemma others_rinv:
  assumes "others me l s t" and "rinv me l s"
  shows "rinv me l t"
proof -
  have "phase me l t (rpc t)"
    using others_phase [OF assms(1)] assms(2) others_facts(2) [OF assms(1)] by (simp add: rinv_def)
  moreover have "carries me (wd t a) \<Longrightarrow> \<not> died (wd t a)" "ow t a = me \<Longrightarrow> carries me (wd t a)" for a
    using others_facts(3,4,5) [OF assms(1), of a] assms(2) by (auto simp: rinv_def)
  ultimately show ?thesis by (simp add: rinv_def)
qed

section \<open>The thread keeps it\<close>

text \<open>What a step at a mutex leaves of the list and of what is held.\<close>

lemma listed_rpc [simp]: "listed me l (goes p s) xs ex = listed me l s xs ex" "held me (goes p s) xs ex = held me s xs ex"
  "taken me l (goes p s) a = taken me l s a"
  by (simp_all add: listed_def held_def taken_def)

lemma listed_pend [simp]: "listed me l (s\<lparr>pend := q\<rparr>) xs ex = listed me l s xs ex"
  "held me (s\<lparr>pend := q\<rparr>) xs ex = held me s xs ex"
  by (simp_all add: listed_def held_def)

lemma held_lnk [simp]: "held me (s\<lparr>lnk := h\<rparr>) xs ex = held me s xs ex"
  by (simp add: held_def)

lemma listed_free: "listed me l s xs ex \<Longrightarrow> \<not> carries me (wd s a) \<Longrightarrow> a \<notin> set xs"
  by (auto simp: listed_def held_def)

lemma listed_take:
  assumes "listed me l s xs {}" and "\<not> carries me (wd s a)" and "carries me w"
  shows "listed me l (s\<lparr>wd := (wd s)(a := w)\<rparr>) xs {a} \<and> a \<notin> set xs"
  using assms by (auto simp: listed_def held_def)

lemma listed_release:
  assumes "listed me l s xs {a}" and "a \<notin> set xs" and "\<not> carries me w"
  shows "listed me l (s\<lparr>wd := (wd s)(a := w)\<rparr>) xs {}"
  using assms by (auto simp: listed_def held_def)

lemma listed_keep:
  assumes "listed me l s xs {}" and "\<not> carries me (wd s a)" and "\<not> carries me w"
  shows "listed me l (s\<lparr>wd := (wd s)(a := w)\<rparr>) xs {}"
  using assms by (auto simp: listed_def held_def)

lemma listed_owner:
  assumes "listed me l s xs ex" and "ow s a = PTHREAD_MUTEX_NOTRECOVERABLE \<Longrightarrow> a \<in> set xs \<or> a \<in> ex"
  shows "listed me l (s\<lparr>ow := (ow s)(a := v)\<rparr>) xs ex"
  using assms by (auto simp: listed_def held_def)

lemma rinv_intro:
  assumes "rinv me l s" and "phase me l t (rpc t)"
    and "\<And>a. wd t a \<noteq> wd s a \<Longrightarrow> carries me (wd t a) \<Longrightarrow> \<not> died (wd t a)"
    and "\<And>a. (ow t a \<noteq> ow s a \<or> wd t a \<noteq> wd s a) \<Longrightarrow> ow t a = me \<Longrightarrow> carries me (wd t a)"
  shows "rinv me l t"
  using assms unfolding rinv_def by metis

lemma rinv_phase: "rinv me l s \<Longrightarrow> rpc s = p \<Longrightarrow> phase me l s p"
  by (simp add: rinv_def)

lemma rinv_words: "rinv me l s \<Longrightarrow> died (wd s a) \<Longrightarrow> \<not> carries me (wd s a)" "rinv me l s \<Longrightarrow> ow s a = me \<Longrightarrow> carries me (wd s a)"
  by (auto simp: rinv_def)

lemma rstep_try:
  assumes inv: "rinv me l s" and me: "own_id me"
  shows "rpc s = RReady \<Longrightarrow> is_node l a \<Longrightarrow> rinv me l (goes (TryLoad a) (s\<lparr>pend := a\<rparr>))"
    and "rpc s = TryLoad a \<Longrightarrow> rinv me l (goes (TryTest a v) s)"
    and "rpc s = TryTest a v \<Longrightarrow> rinv me l (goes (TryTest a v') s)"
    and "rpc s = TryTest a v \<Longrightarrow> rinv me l (goes Leave s)"
    and "rpc s = TryTest a v \<Longrightarrow> died v \<Longrightarrow> wd s a = v \<Longrightarrow>
      rinv me l (goes (DeadOwner a) (s\<lparr>wd := (wd s)(a := me OR (v AND FUTEX_WAITERS))\<rparr>))"
    and "rpc s = TryTest a v \<Longrightarrow> wd s a = 0 \<Longrightarrow> rinv me l (goes (TryOwnerIs a 0) (s\<lparr>wd := (wd s)(a := me)\<rparr>))"
    and "rpc s = TryTest a v \<Longrightarrow> died (wd s a) \<Longrightarrow> rinv me l (goes (TryOwnerIs a (wd s a)) s)"
proof -
  note ph = rinv_phase [OF inv] and intro = rinv_intro [OF inv]
  have c: "carries me me" "\<not> died me" "\<not> died 0" using me own_id_not_died [OF me] by (simp_all add: own_id_def died_def)
  show "rpc s = RReady \<Longrightarrow> is_node l a \<Longrightarrow> rinv me l (goes (TryLoad a) (s\<lparr>pend := a\<rparr>))"
    by (rule intro) (use ph in \<open>auto simp: listed_def held_def\<close>)
  show "rpc s = TryLoad a \<Longrightarrow> rinv me l (goes (TryTest a v) s)" by (rule intro) (use ph in auto)
  show "rpc s = TryTest a v \<Longrightarrow> rinv me l (goes (TryTest a v') s)" by (rule intro) (use ph in auto)
  show "rpc s = TryTest a v \<Longrightarrow> rinv me l (goes Leave s)" by (rule intro) (use ph in auto)
  show "rinv me l (goes (DeadOwner a) (s\<lparr>wd := (wd s)(a := me OR (v AND FUTEX_WAITERS))\<rparr>))"
    if r: "rpc s = TryTest a v" and d: "died v" "wd s a = v"
  proof (rule intro)
    have "\<not> carries me (wd s a)" using rinv_words(1) [OF inv] d by blast
    then obtain xs where "listed me l (s\<lparr>wd := (wd s)(a := me OR (v AND FUTEX_WAITERS))\<rparr>) xs {a} \<and> a \<notin> set xs"
      using ph [OF r] listed_take keeps_waiters(1) [OF me] by (metis phase.simps(3))
    then show "phase me l (goes (DeadOwner a) (s\<lparr>wd := (wd s)(a := me OR (v AND FUTEX_WAITERS))\<rparr>))
        (rpc (goes (DeadOwner a) (s\<lparr>wd := (wd s)(a := me OR (v AND FUTEX_WAITERS))\<rparr>)))"
      using ph [OF r] keeps_waiters(1) [OF me] by (auto simp: taken_def)
  qed (use keeps_waiters [OF me] in \<open>auto split: if_splits\<close>)
  show "rinv me l (goes (TryOwnerIs a 0) (s\<lparr>wd := (wd s)(a := me)\<rparr>))" if r: "rpc s = TryTest a v" and z: "wd s a = 0"
  proof (rule intro)
    have "\<not> carries me (wd s a)" using keeps_waiters(4) [OF me] z by simp
    then obtain xs where "listed me l (s\<lparr>wd := (wd s)(a := me)\<rparr>) xs {a} \<and> a \<notin> set xs"
      using ph [OF r] listed_take c(1) by (metis phase.simps(3))
    then show "phase me l (goes (TryOwnerIs a 0) (s\<lparr>wd := (wd s)(a := me)\<rparr>))
        (rpc (goes (TryOwnerIs a 0) (s\<lparr>wd := (wd s)(a := me)\<rparr>)))"
      using ph [OF r] me c by (auto simp: own_id_def)
  qed (use c in \<open>auto split: if_splits\<close>)
  show "rinv me l (goes (TryOwnerIs a (wd s a)) s)" if r: "rpc s = TryTest a v" and d: "died (wd s a)"
    by (rule intro) (use ph [OF r] d c in auto)
qed

lemma rstep_owner:
  assumes inv: "rinv me l s" and me: "own_id me"
  shows "rpc s = DeadOwner a \<Longrightarrow>
      rinv me l (goes (Enq 0 a True) (s\<lparr>ow := (ow s)(a := PTHREAD_MUTEX_INCONSISTENT)\<rparr>))"
    and "rpc s = TryOwnerIs a v \<Longrightarrow> ow s a = PTHREAD_MUTEX_NOTRECOVERABLE \<Longrightarrow> rinv me l (goes Leave s)"
    and "rpc s = TryOwnerIs a me \<Longrightarrow> False"
    and "rpc s = TryOwnerIs a v \<Longrightarrow> died v \<Longrightarrow> rinv me l (goes (TryTest a v) s)"
    and "rpc s = TryOwnerIs a v \<Longrightarrow> \<not> died v \<Longrightarrow> rinv me l (goes (Enq 0 a False) s)"
proof -
  note ph = rinv_phase [OF inv] and intro = rinv_intro [OF inv]
  show "rinv me l (goes (Enq 0 a True) (s\<lparr>ow := (ow s)(a := PTHREAD_MUTEX_INCONSISTENT)\<rparr>))" if r: "rpc s = DeadOwner a"
  proof (rule intro)
    obtain xs where x: "listed me l s xs {a}" "a \<notin> set xs" "taken me l s a" using ph [OF r] by auto
    have "listed me l (s\<lparr>ow := (ow s)(a := PTHREAD_MUTEX_INCONSISTENT)\<rparr>) xs {a}" using listed_owner [OF x(1)] by simp
    then show "phase me l (goes (Enq 0 a True) (s\<lparr>ow := (ow s)(a := PTHREAD_MUTEX_INCONSISTENT)\<rparr>))
        (rpc (goes (Enq 0 a True) (s\<lparr>ow := (ow s)(a := PTHREAD_MUTEX_INCONSISTENT)\<rparr>)))"
      using x(2,3) by (auto simp: taken_def listed_def intro!: exI [of _ xs] exI [of _ "lnk s"])
  qed (use own_id_markers [OF me] in \<open>auto split: if_splits\<close>)
  show "rinv me l (goes Leave s)" if r: "rpc s = TryOwnerIs a v" and n: "ow s a = PTHREAD_MUTEX_NOTRECOVERABLE"
    by (rule intro) (use ph [OF r] n in \<open>auto simp: listed_def held_def split: if_splits\<close>)
  show "rpc s = TryOwnerIs a me \<Longrightarrow> False" using ph by auto
  show "rpc s = TryOwnerIs a v \<Longrightarrow> died v \<Longrightarrow> rinv me l (goes (TryTest a v) s)" by (rule intro) (use ph in auto)
  show "rinv me l (goes (Enq 0 a False) s)" if r: "rpc s = TryOwnerIs a v" and n: "\<not> died v"
  proof (rule intro)
    obtain xs where x: "listed me l s xs {a}" "a \<notin> set xs" "taken me l s a" using ph [OF r] n by (auto simp: taken_def)
    then show "phase me l (goes (Enq 0 a False) s) (rpc (goes (Enq 0 a False) s))"
      by (auto simp: taken_def listed_def intro!: exI [of _ xs] exI [of _ "lnk s"])
  qed auto
qed

lemma agree_subset: "agree B h h' \<Longrightarrow> A \<subseteq> B \<Longrightarrow> agree A h h'"
  by (auto simp: agree_def)

lemma enq_end:
  assumes "rlist h0 l xs" and "a \<notin> set xs" and "is_node l a" and "agree (set (l # a # xs)) h (enqs 4 a l h0)"
  shows "rlist h l (a # xs)"
proof (rule rlist_agree)
  show "rlist (enqs 4 a l h0) l (a # xs)"
    using assms(1-3) unfolding enqs_all ENQUEUE_MUTEX_def by (intro rlist_enqueue) (auto simp: is_node_def)
qed (use assms(4) in simp)

lemma rstep_enq:
  assumes inv: "rinv me l s" and r: "rpc s = Enq k a dead"
  shows "rinv me l (goes (if k < 3 then Enq (Suc k) a dead else EnqDone a dead) (s\<lparr>lnk := enq_store k a l (lnk s)\<rparr>))"
proof (rule rinv_intro [OF inv])
  obtain xs h0 where x: "rlist h0 l xs" "a \<notin> set xs" "agree (set (l # a # xs)) (lnk s) (enqs k a l h0)"
    "held me s xs {a}" "k \<le> 3" "taken me l s a" using rinv_phase [OF inv r] by auto
  have g: "agree (set (l # a # xs)) (enq_store k a l (lnk s)) (enqs (Suc k) a l h0)"
    using agree_enq_store [OF x(3)] by simp
  let ?t = "goes (if k < 3 then Enq (Suc k) a dead else EnqDone a dead) (s\<lparr>lnk := enq_store k a l (lnk s)\<rparr>)"
  show "phase me l ?t (rpc ?t)"
  proof (cases "k < 3")
    case True
    have "held me (s\<lparr>lnk := enq_store k a l (lnk s)\<rparr>) xs {a}" using x(4) by simp
    moreover have "taken me l (s\<lparr>lnk := enq_store k a l (lnk s)\<rparr>) a" using x(6) by (simp add: taken_def)
    ultimately show ?thesis using True x(1,2) g by auto
  next
    case False
    then have k: "k = 3" "Suc k = 4" using x(5) by simp_all
    have "rlist (enq_store k a l (lnk s)) l (a # xs)"
      using enq_end [OF x(1,2) _ g [unfolded k(2)]] x(6) by (simp add: taken_def)
    then have "listed me l (s\<lparr>lnk := enq_store k a l (lnk s)\<rparr>) (a # xs) {}"
      using x(4,6) by (auto simp: listed_def held_def taken_def)
    then show ?thesis using False x(6) by (auto simp: taken_def intro: exI [of _ "a # xs"])
  qed
qed auto

lemma deq_end:
  assumes "rlist h0 l (ys @ a # zs)" and "agree (set (l # ys @ a # zs)) h (deqs 4 a h0)"
  shows "rlist h l (ys @ zs)"
proof (rule rlist_agree [OF rlist_dequeue [OF assms(1)]])
  show "agree (set (l # ys @ zs)) h (DEQUEUE_MUTEX a h0)"
    using assms(2) unfolding deqs_all by (rule agree_subset) auto
qed

lemma rstep_deq:
  assumes inv: "rinv me l s" and r: "rpc s = Deq k a w"
  shows "rinv me l (goes (if k < 3 then Deq (Suc k) a w else UnlSetOwner a w) (s\<lparr>lnk := deq_store k a (lnk s)\<rparr>))"
proof (rule rinv_intro [OF inv])
  obtain ys zs h0 where x: "rlist h0 l (ys @ a # zs)" "agree (set (l # ys @ a # zs)) (lnk s) (deqs k a h0)"
    "held me s (ys @ zs) {a}" "k \<le> 3" "taken me l s a" "w \<noteq> me" using rinv_phase [OF inv r] by auto
  have g: "agree (set (l # ys @ a # zs)) (deq_store k a (lnk s)) (deqs (Suc k) a h0)"
    using agree_deq_store [OF x(2)] by simp
  let ?t = "goes (if k < 3 then Deq (Suc k) a w else UnlSetOwner a w) (s\<lparr>lnk := deq_store k a (lnk s)\<rparr>)"
  show "phase me l ?t (rpc ?t)"
  proof (cases "k < 3")
    case True
    have "held me (s\<lparr>lnk := deq_store k a (lnk s)\<rparr>) (ys @ zs) {a}" using x(3) by simp
    moreover have "taken me l (s\<lparr>lnk := deq_store k a (lnk s)\<rparr>) a" using x(5) by (simp add: taken_def)
    ultimately show ?thesis using True x(1,6) g by auto
  next
    case False
    then have k: "Suc k = 4" using x(4) by simp
    have "listed me l (s\<lparr>lnk := deq_store k a (lnk s)\<rparr>) (ys @ zs) {a}"
      using deq_end [OF x(1) g [unfolded k]] x(3) by (simp add: listed_def)
    moreover have "a \<notin> set (ys @ zs)" using x(1) by (auto simp: rlist_def ring_def)
    ultimately show ?thesis using False x(5,6) by (auto simp: taken_def)
  qed
qed auto

lemma rstep_ends:
  assumes inv: "rinv me l s" and me: "own_id me"
  shows "rpc s = EnqDone a dead \<Longrightarrow> rinv me l (goes (if dead then RReady else SetOwner a) (s\<lparr>pend := 0\<rparr>))"
    and "rpc s = SetOwner a \<Longrightarrow> rinv me l (goes RReady (s\<lparr>ow := (ow s)(a := me)\<rparr>))"
    and "rpc s = Leave \<Longrightarrow> rinv me l (goes RReady (s\<lparr>pend := 0\<rparr>))"
    and "rpc s = UnlWake a \<Longrightarrow> rinv me l (goes Leave (s\<lparr>wd := (wd s)(a := 0)\<rparr>))"
    and "rpc s = RReady \<Longrightarrow> carries me (wd s a) \<Longrightarrow> ow s a = PTHREAD_MUTEX_INCONSISTENT \<Longrightarrow>
      rinv me l (s\<lparr>ow := (ow s)(a := me)\<rparr>)"
proof -
  note ph = rinv_phase [OF inv] and intro = rinv_intro [OF inv]
  show "rinv me l (goes (if dead then RReady else SetOwner a) (s\<lparr>pend := 0\<rparr>))" if r: "rpc s = EnqDone a dead"
  proof (rule intro)
    obtain xs where "listed me l s xs {}" "a \<in> set xs" "taken me l s a" using ph [OF r] by auto
    then show "phase me l (goes (if dead then RReady else SetOwner a) (s\<lparr>pend := 0\<rparr>))
        (rpc (goes (if dead then RReady else SetOwner a) (s\<lparr>pend := 0\<rparr>)))"
      by (auto simp: taken_def)
  qed auto
  show "rinv me l (goes RReady (s\<lparr>ow := (ow s)(a := me)\<rparr>))" if r: "rpc s = SetOwner a"
  proof (rule intro)
    obtain xs where x: "listed me l s xs {}" "a \<in> set xs" "pend s = 0" "carries me (wd s a)" using ph [OF r] by auto
    then have "listed me l (s\<lparr>ow := (ow s)(a := me)\<rparr>) xs {}" by (intro listed_owner) auto
    then show "phase me l (goes RReady (s\<lparr>ow := (ow s)(a := me)\<rparr>)) (rpc (goes RReady (s\<lparr>ow := (ow s)(a := me)\<rparr>)))"
      using x(3) by auto
  qed (use ph [OF r] in \<open>auto split: if_splits\<close>)
  show "rpc s = Leave \<Longrightarrow> rinv me l (goes RReady (s\<lparr>pend := 0\<rparr>))" by (rule intro) (use ph in auto)
  show "rinv me l (goes Leave (s\<lparr>wd := (wd s)(a := 0)\<rparr>))" if r: "rpc s = UnlWake a"
  proof (rule intro)
    obtain xs where "listed me l s xs {}" "\<not> carries me (wd s a)" using ph [OF r] by auto
    then have "listed me l (s\<lparr>wd := (wd s)(a := 0)\<rparr>) xs {}" using listed_keep keeps_waiters(4) [OF me] by blast
    then show "phase me l (goes Leave (s\<lparr>wd := (wd s)(a := 0)\<rparr>)) (rpc (goes Leave (s\<lparr>wd := (wd s)(a := 0)\<rparr>)))" by auto
    show "ow (goes Leave (s\<lparr>wd := (wd s)(a := 0)\<rparr>)) b = me \<Longrightarrow> carries me (wd (goes Leave (s\<lparr>wd := (wd s)(a := 0)\<rparr>)) b)" for b
      using rinv_words(2) [OF inv, of b] ph [OF r] by auto
  qed (use keeps_waiters(4) [OF me] in \<open>auto split: if_splits\<close>)
  show "rinv me l (s\<lparr>ow := (ow s)(a := me)\<rparr>)"
    if r: "rpc s = RReady" and c: "carries me (wd s a)" and i: "ow s a = PTHREAD_MUTEX_INCONSISTENT"
  proof (rule intro)
    obtain xs where x: "listed me l s xs {}" "pend s = 0" using ph [OF r] by auto
    have "listed me l (s\<lparr>ow := (ow s)(a := me)\<rparr>) xs {}"
      using i by (intro listed_owner [OF x(1)]) (simp add: PTHREAD_MUTEX_INCONSISTENT_def PTHREAD_MUTEX_NOTRECOVERABLE_def)
    then show "phase me l (s\<lparr>ow := (ow s)(a := me)\<rparr>) (rpc (s\<lparr>ow := (ow s)(a := me)\<rparr>))" using r x(2) by auto
  qed (use c in \<open>auto split: if_splits\<close>)
qed

lemma rstep_unlock:
  assumes inv: "rinv me l s" and me: "own_id me"
  shows "rpc s = RReady \<Longrightarrow> is_node l a \<Longrightarrow> ow s a \<noteq> PTHREAD_MUTEX_NOTRECOVERABLE \<Longrightarrow> carries me (wd s a) \<Longrightarrow> w \<noteq> me \<Longrightarrow>
      rinv me l (goes (Deq 0 a w) (s\<lparr>pend := a\<rparr>))"
    and "rpc s = UnlSetOwner a w \<Longrightarrow> rinv me l (goes (UnlWord a) (s\<lparr>ow := (ow s)(a := w)\<rparr>))"
    and "rpc s = UnlWord a \<Longrightarrow> v = wd s a AND FUTEX_WAITERS \<Longrightarrow>
      rinv me l (goes (if v \<noteq> 0 then UnlWake a else Leave) (s\<lparr>wd := (wd s)(a := v)\<rparr>))"
proof -
  note ph = rinv_phase [OF inv] and intro = rinv_intro [OF inv]
  show "rinv me l (goes (Deq 0 a w) (s\<lparr>pend := a\<rparr>))"
    if r: "rpc s = RReady" and n: "is_node l a" "ow s a \<noteq> PTHREAD_MUTEX_NOTRECOVERABLE" "carries me (wd s a)" "w \<noteq> me"
  proof (rule intro)
    obtain xs where x: "rlist (lnk s) l xs" "held me s xs {}" using ph [OF r] by (auto simp: listed_def)
    then have "a \<in> set xs" using n(2,3) by (auto simp: held_def)
    then obtain ys zs where xs: "xs = ys @ a # zs" by (meson split_list)
    have "held me (s\<lparr>pend := a\<rparr>) (ys @ zs) {a}" using x(2) xs by (auto simp: held_def)
    then have "\<exists>ys zs h0. rlist h0 l (ys @ a # zs) \<and> agree (set (l # ys @ a # zs)) (lnk s) (deqs 0 a h0) \<and>
        held me (s\<lparr>pend := a\<rparr>) (ys @ zs) {a}"
      using x(1) xs by (intro exI [of _ ys] exI [of _ zs] exI [of _ "lnk s"]) simp
    then show "phase me l (goes (Deq 0 a w) (s\<lparr>pend := a\<rparr>)) (rpc (goes (Deq 0 a w) (s\<lparr>pend := a\<rparr>)))"
      using n by (simp add: taken_def)
  qed auto
  show "rinv me l (goes (UnlWord a) (s\<lparr>ow := (ow s)(a := w)\<rparr>))" if r: "rpc s = UnlSetOwner a w"
  proof (rule intro)
    obtain xs where x: "listed me l s xs {a}" "a \<notin> set xs" "taken me l s a" "w \<noteq> me" using ph [OF r] by auto
    have "listed me l (s\<lparr>ow := (ow s)(a := w)\<rparr>) xs {a}" using listed_owner [OF x(1)] by simp
    then show "phase me l (goes (UnlWord a) (s\<lparr>ow := (ow s)(a := w)\<rparr>)) (rpc (goes (UnlWord a) (s\<lparr>ow := (ow s)(a := w)\<rparr>)))"
      using x(2-4) by (auto simp: taken_def)
  qed (use ph [OF r] in \<open>auto simp: taken_def split: if_splits\<close>)
  show "rinv me l (goes (if v \<noteq> 0 then UnlWake a else Leave) (s\<lparr>wd := (wd s)(a := v)\<rparr>))"
    if r: "rpc s = UnlWord a" and v: "v = wd s a AND FUTEX_WAITERS"
  proof (rule intro)
    let ?t = "goes (if v \<noteq> 0 then UnlWake a else Leave) (s\<lparr>wd := (wd s)(a := v)\<rparr>)"
    have n: "\<not> carries me v" using keeps_waiters(3) [OF me] v by simp
    obtain xs where x: "listed me l s xs {a}" "a \<notin> set xs" "ow s a \<noteq> me" using ph [OF r] by auto
    then have "listed me l (s\<lparr>wd := (wd s)(a := v)\<rparr>) xs {}" using listed_release n by blast
    then show "phase me l ?t (rpc ?t)" using n by auto
    show "carries me (wd ?t b)" if "ow ?t b = me" for b
      using rinv_words(2) [OF inv, of b] that x(3) by auto
    show "\<not> died (wd ?t b)" if "wd ?t b \<noteq> wd s b" "carries me (wd ?t b)" for b
      using that n by (auto split: if_splits)
  qed
qed

lemma rstep_rinv:
  assumes "rstep me l ty s t" and inv: "rinv me l s" and me: "own_id me"
  shows "rinv me l t"
  using assms(1)
proof (cases rule: rstep.cases)
  case other then show ?thesis using others_rinv inv by blast
next
  case (consistent a) then show ?thesis using rstep_ends(5) [OF inv me] by simp
next
  case (try_begin a) then show ?thesis using rstep_try(1) [OF inv me] by simp
next
  case (try_load a) then show ?thesis using rstep_try(2) [OF inv me] by simp
next
  case (try_died a v) then show ?thesis using rstep_try(5) [OF inv me] by simp
next
  case (try_again a v) then show ?thesis using rstep_try(3) [OF inv me] by simp
next
  case (dead_owner a) then show ?thesis using rstep_owner(1) [OF inv me] by simp
next
  case (try_mine a v) then show ?thesis using rstep_try(4) [OF inv me] by simp
next
  case (try_free a v) then show ?thesis using rstep_try(6) [OF inv me] by simp
next
  case (try_taken a v) then show ?thesis using rstep_try(4,7) [OF inv me] by simp
next
  case (not_recoverable a v) then show ?thesis using rstep_owner(2) [OF inv me] by simp
next
  case (not_recoverable_free a v) then show ?thesis using rstep_owner(3) [OF inv me] by blast
next
  case (recoverable a v) then show ?thesis using rstep_owner(4,5) [OF inv me] by simp
next
  case (enq k a dead) then show ?thesis using rstep_enq [OF inv] by simp
next
  case (enq_done a dead) then show ?thesis using rstep_ends(1) [OF inv me] by simp
next
  case (set_owner a) then show ?thesis using rstep_ends(2) [OF inv me] by simp
next
  case (unl_begin a newowner)
  have "carries me (wd s a)" using unl_begin rinv_words(2) [OF inv, of a] by (auto split: if_splits)
  moreover have "newowner \<noteq> me" using unl_begin own_id_markers [OF me] me by (auto simp: own_id_def)
  ultimately show ?thesis using unl_begin rstep_unlock(1) [OF inv me] by simp
next
  case (deq k a newowner) then show ?thesis using rstep_deq [OF inv] by simp
next
  case (unl_owner a newowner) then show ?thesis using rstep_unlock(2) [OF inv me] by simp
next
  case (unl_word a w) then show ?thesis using rstep_unlock(3) [OF inv me] by simp
next
  case (unl_wake a) then show ?thesis using rstep_ends(4) [OF inv me] by simp
next
  case leave then show ?thesis using rstep_ends(3) [OF inv me] by simp
qed

lemma rreach_rinv: "rreach me l ty s \<Longrightarrow> own_id me \<Longrightarrow> rinv me l s"
  by (induction rule: rreach.induct) (auto intro: rinv_init rstep_rinv)

text \<open>
  C17 (a thread may die at any moment). However the steps of the thread and of the others interleave in calls that try to lock and
  unlock robust mutexes: at every moment, between any two accesses to memory, the kernel's walk along the thread's list ends,
  every mutex on it carries the thread's id, and every mutex that carries it, except those whose owner field says not
  recoverable, is on the list or is the pending one. So a list within the kernel's limit on its length (2048) leads it to
  every mutex the thread holds but the not recoverable ones, which \<open>trylock\<close> can leave carrying the id with nothing
  leading to them (\<open>unrecoverable_stays_locked\<close>). Between calls no mutex is pending.
\<close>
theorem robust_crash_safe:
  assumes "rreach me l ty s" and "own_id me"
  shows "(\<exists>n. kernel_finds n me l s) \<and> (rpc s = RReady \<longrightarrow> pend s = 0)"
  using rinv_found rinv_phase rreach_rinv [OF assms] by fastforce

text \<open>A thread with id 7 that has taken the mutex at 4096 and not yet put it on its list.\<close>

definition crash_init :: rsys where
  "crash_init = \<lparr>lnk = \<lparr>l_next = (\<lambda>a. a), l_prev = (\<lambda>a. a)\<rparr>, pend = 0, wd = (\<lambda>_. 0), ow = (\<lambda>_. 0), rpc = RReady\<rparr>"

definition crash_demo :: rsys where
  "crash_demo = crash_init\<lparr>pend := 4096, wd := (\<lambda>_. 0)(4096 := 7), rpc := TryOwnerIs 4096 0\<rparr>"

lemma crash_init_ok: "rsys_init 7 64 crash_init"
  by (simp add: rsys_init_def crash_init_def rlist_def ring_def untag_def aligned_def carries_def futex_masks)

lemma crash_demo_reached: "rreach 7 64 (\<lambda>_. 16) crash_demo"
proof -
  let ?s1 = "goes (TryLoad 4096) (crash_init\<lparr>pend := 4096\<rparr>)"
  let ?s2 = "goes (TryTest 4096 0) ?s1"
  have "rreach 7 64 (\<lambda>_. 16) ?s1"
    using rreach.step [OF rreach.start [OF crash_init_ok] rstep.try_begin [of crash_init 64 4096]]
    by (simp add: crash_init_def is_node_def aligned_def)
  then have "rreach 7 64 (\<lambda>_. 16) ?s2"
    using rreach.step [OF _ rstep.try_load [of ?s1 4096]] by (simp add: crash_init_def)
  then have "rreach 7 64 (\<lambda>_. 16) (goes (TryOwnerIs 4096 0) (?s2\<lparr>wd := (wd ?s2)(4096 := 7)\<rparr>))"
    using rreach.step [OF _ rstep.try_free [of ?s2 4096 0 7]] by (simp add: crash_init_def died_def carries_def)
  then show ?thesis by (simp add: crash_demo_def crash_init_def)
qed

theorem robust_crash_safe_witness: "\<exists>n. kernel_finds n 7 64 crash_demo \<and> carries 7 (wd crash_demo 4096)"
  using robust_crash_safe [OF crash_demo_reached] by (simp add: own_id_def carries_def futex_masks crash_demo_def)

end
