(* ===== verification/RobustMutex.thy ===== *)
theory RobustMutex
  imports MutexProps RobustCrash
begin

unbundle bit_operations_syntax

text \<open>
  The life of a robust mutex: taken by \<open>do_mutex_trylock\<close>, free or from an owner that died, and released by
  \<open>__pthread_mutex_unlock_full\<close>, with the list of the thread; and what becomes of one that is not recoverable.
\<close>

section \<open>Kinds\<close>

definition robust_kind :: "i32 \<Rightarrow> bool" where
  "robust_kind k \<longleftrightarrow> k \<in> kinds_robust \<or> k \<in> (\<lambda>k. k OR PTHREAD_MUTEX_PSHARED_BIT) ` kinds_robust"

lemma robust_kind_cases: "robust_kind k \<longleftrightarrow> k \<in> {16, 17, 18, 19, 144, 145, 146, 147}"
  by (auto simp: robust_kind_def mutex_kinds)

lemma robust_trylock:
  assumes "robust_kind (m_kind (mtx s i))"
  shows "do_mutex_trylock n E i s = trylock_robust n E i (p_tid (slf s)) s"
  using assms unfolding robust_kind_cases
  by (auto simp: do_mutex_trylock_def PTHREAD_MUTEX_TYPE_ELISION_def mutex_kinds Let_def)

lemma robust_unlock:
  assumes "robust_kind (m_kind (mtx s i))"
  shows "unlock_usercnt n E decr i s = unlock_full n E decr i s"
  using assms unfolding robust_kind_cases
  by (auto simp: unlock_usercnt_def PTHREAD_MUTEX_TYPE_ELISION_def mutex_kinds Let_def)

lemma robust_type: "robust_kind (m_kind m) \<Longrightarrow> PTHREAD_MUTEX_TYPE m \<in> {16, 17, 18, 19}"
  unfolding robust_kind_cases by (auto simp: PTHREAD_MUTEX_TYPE_def)

section \<open>Taking it\<close>

text \<open>The state after a trylock that takes the mutex with these fields.\<close>

definition robust_got :: "envr \<Rightarrow> nat \<Rightarrow> mutex \<Rightarrow> nptl \<Rightarrow> nptl \<Rightarrow> bool" where
  "robust_got E i m s t \<longleftrightarrow> mtx t i = m \<and> (\<forall>j. j \<noteq> i \<longrightarrow> mtx t j = mtx s j) \<and> slf t = (slf s)\<lparr>p_pending := 0\<rparr> \<and>
     rl t = ENQUEUE_MUTEX (e_list_at E i) (p_robust_head (slf s)) (rl s)"

lemma trylock_dead:
  assumes "quiet E" and "died (m_lock (mtx s i))"
  shows "\<exists>t. trylock_robust (Suc n) E i me s = Ret EOWNERDEAD t \<and>
     robust_got E i ((mtx s i)\<lparr>m_lock := me OR (m_lock (mtx s i) AND FUTEX_WAITERS), m_count := 1,
       m_owner := PTHREAD_MUTEX_INCONSISTENT\<rparr>) s t"
  using assms
  by (simp add: trylock_robust_def Let_def loadl_def mc.cmpxchg_cases quiet_ticks died_def got_inconsistent_def
      enqueue_def robust_got_def)

lemma not_carries_0: "own_id me \<Longrightarrow> (0 :: i32) AND FUTEX_TID_MASK \<noteq> me"
  by (auto simp: own_id_def)

lemma trylock_free:
  assumes "quiet E" and "m_lock (mtx s i) = 0" and "m_owner (mtx s i) \<noteq> PTHREAD_MUTEX_NOTRECOVERABLE" and "own_id me"
  shows "\<exists>t. trylock_robust (Suc n) E i me s = Ret 0 t \<and>
     robust_got E i ((mtx s i)\<lparr>m_lock := me, m_count := 1, m_owner := me, m_nusers := m_nusers (mtx s i) + 1\<rparr>) s t"
  using assms not_carries_0 [OF assms(4)]
  by (simp add: trylock_robust_def Let_def loadl_def mc.cmpxchg_cases quiet_ticks record_owner_def enqueue_def robust_got_def)

lemma trylock_unrecoverable:
  assumes "quiet E" and "m_lock (mtx s i) = 0" and "m_owner (mtx s i) = PTHREAD_MUTEX_NOTRECOVERABLE" and "own_id me"
  shows "\<exists>t. trylock_robust (Suc n) E i me s = Ret ENOTRECOVERABLE t \<and>
     mtx t i = (mtx s i)\<lparr>m_lock := me, m_count := 0\<rparr> \<and> rl t = rl s \<and> slf t = (slf s)\<lparr>p_pending := 0\<rparr>"
  using assms not_carries_0 [OF assms(4)]
  by (auto simp: trylock_robust_def Let_def loadl_def mc.cmpxchg_cases quiet_ticks own_id_def)

lemma trylock_busy:
  assumes "quiet E" and "m_lock (mtx s i) \<noteq> 0" and "\<not> died (m_lock (mtx s i))" and "\<not> carries me (m_lock (mtx s i))"
  shows "\<exists>t. trylock_robust (Suc n) E i me s = Ret EBUSY t \<and> mtx t i = mtx s i \<and> rl t = rl s \<and>
     slf t = (slf s)\<lparr>p_pending := 0\<rparr>"
  using assms
  by (simp add: trylock_robust_def Let_def loadl_def mc.cmpxchg_cases quiet_ticks died_def carries_def)

section \<open>Releasing it\<close>

definition robust_left :: "envr \<Rightarrow> nat \<Rightarrow> i32 \<Rightarrow> nptl \<Rightarrow> nptl \<Rightarrow> bool" where
  "robust_left E i newowner s t \<longleftrightarrow> m_lock (mtx t i) = 0 \<and> m_owner (mtx t i) = newowner \<and>
     m_nusers (mtx t i) = m_nusers (mtx s i) - 1 \<and> m_kind (mtx t i) = m_kind (mtx s i) \<and>
     (\<forall>j. j \<noteq> i \<longrightarrow> mtx t j = mtx s j) \<and> slf t = (slf s)\<lparr>p_pending := 0\<rparr> \<and>
     rl t = DEQUEUE_MUTEX (e_list_at E i) (rl s)"

lemma robust_wake:
  assumes "quiet E"
  shows "\<exists>f c. lll_robust_unlock (mutex_cell E i) p s = (set_lock i 0 s)\<lparr>calls := f, clk := c\<rparr>"
proof -
  have "lll_robust_unlock (mutex_cell E i) p s =
      (set_lock i 0 s)\<lparr>calls := calls (lll_robust_unlock (mutex_cell E i) p s), clk := clk (lll_robust_unlock (mutex_cell E i) p s)\<rparr>"
    using assms
    by (auto simp: lll_robust_unlock_def andl_def lll_unlock_wake_def storel_def quiet_ticks Let_def upd_mtx_def upd_entry_def)
  then show ?thesis by blast
qed

lemma unlock_robust_left:
  assumes "quiet E"
  shows "\<exists>t. unlock_robust E True newowner i s = Ret 0 t \<and> robust_left E i newowner s t"
proof -
  let ?s = "add_nusers i (- 1) (set_owner i newowner
      ((set_pending (e_list_at E i) s)\<lparr>rl := DEQUEUE_MUTEX (e_list_at E i) (rl s)\<rparr>))"
  obtain f c where "lll_robust_unlock (mutex_cell E i) (PTHREAD_ROBUST_MUTEX_PSHARED (mtx ?s i)) ?s
      = (set_lock i 0 ?s)\<lparr>calls := f, clk := c\<rparr>" using robust_wake [OF assms] by blast
  then show ?thesis by (simp add: unlock_robust_def Let_def robust_left_def)
qed

lemma robust_left_from:
  assumes "robust_left E i newowner s' t"
    and "\<And>j. j \<noteq> i \<Longrightarrow> mtx s' j = mtx s j" and "m_nusers (mtx s' i) = m_nusers (mtx s i)"
    and "m_kind (mtx s' i) = m_kind (mtx s i)" and "slf s' = slf s" and "rl s' = rl s"
  shows "robust_left E i newowner s t"
  using assms by (simp add: robust_left_def)

text \<open>The holder whose count is 1; \<open>dead\<close>: it got the mutex from an owner that died.\<close>

lemma unlock_holder:
  assumes q: "quiet E" and k: "robust_kind (m_kind (mtx s i))" and me: "own_id (p_tid (slf s))"
    and w: "carries (p_tid (slf s)) (m_lock (mtx s i))" and c: "m_count (mtx s i) = 1"
    and o: "m_owner (mtx s i) = (if dead then PTHREAD_MUTEX_INCONSISTENT else p_tid (slf s))"
  shows "\<exists>t. unlock_usercnt n E True i s = Ret 0 t \<and> robust_left E i (if dead then PTHREAD_MUTEX_NOTRECOVERABLE else 0) s t"
proof -
  let ?o = "if dead then PTHREAD_MUTEX_NOTRECOVERABLE else 0" and ?s = "s\<lparr>clk := Suc (clk s)\<rparr>"
  have nz: "m_lock (mtx s i) \<noteq> 0" using w me by (auto simp: carries_def own_id_def)
  have ne: "p_tid (slf s) \<noteq> PTHREAD_MUTEX_INCONSISTENT" using own_id_markers [OF me] by auto
  show ?thesis
  proof (cases "PTHREAD_MUTEX_TYPE (mtx s i) = PTHREAD_MUTEX_ROBUST_RECURSIVE_NP")
    case True
    let ?s' = "add_count i (-1) ?s"
    have "unlock_full n E True i s = unlock_robust E True ?o i ?s'"
      using True w c o ne q
      by (simp add: unlock_full_def Let_def loadl_def quiet_ticks carries_def)
    moreover obtain t where "unlock_robust E True ?o i ?s' = Ret 0 t" "robust_left E i ?o ?s' t"
      using unlock_robust_left [OF q] by blast
    moreover from this(2) have "robust_left E i ?o s t" by (rule robust_left_from) simp_all
    ultimately show ?thesis using robust_unlock [OF k] by auto
  next
    case False
    let ?s' = "s\<lparr>clk := Suc (Suc (clk s))\<rparr>"
    have "PTHREAD_MUTEX_TYPE (mtx s i) \<in> kinds_robust" using robust_type [OF k] by (auto simp: mutex_kinds)
    then have "unlock_full n E True i s = unlock_robust E True ?o i ?s'"
      using False w o ne q nz
      by (simp add: unlock_full_def Let_def loadl_def lll_islocked_def lll_init quiet_ticks carries_def)
    moreover obtain t where "unlock_robust E True ?o i ?s' = Ret 0 t" "robust_left E i ?o ?s' t"
      using unlock_robust_left [OF q] by blast
    moreover from this(2) have "robust_left E i ?o s t" by (rule robust_left_from) simp_all
    ultimately show ?thesis using robust_unlock [OF k] by auto
  qed
qed

section \<open>Properties\<close>

text \<open>
  C18 (a robust mutex is taken and given back). With nobody else acting, a thread takes a robust mutex of any kind that is free, or
  whose owner died, by one trylock, which returns 0 or \<open>EOWNERDEAD\<close>: the word carries its id, the mutex is at
  the head of its list and nothing is pending. One unlock returns 0, frees the word, takes the mutex from the
  list and leaves it without owner; a mutex from an owner that died, which was not made consistent, is marked
  as not recoverable and has one user less than before, that of the owner that died.
\<close>
theorem robust_round_trip:
  assumes "quiet E" and "robust_kind (m_kind (mtx s i))" and "own_id (p_tid (slf s))"
    and "rlist (rl s) (p_robust_head (slf s)) xs" and "aligned (e_list_at E i)"
    and "e_list_at E i \<notin> set (p_robust_head (slf s) # xs)"
    and "if dead then died (m_lock (mtx s i))
      else m_lock (mtx s i) = 0 \<and> m_owner (mtx s i) \<noteq> PTHREAD_MUTEX_NOTRECOVERABLE"
  shows "\<exists>t u. do_mutex_trylock (Suc n) E i s = Ret (if dead then EOWNERDEAD else 0) t \<and>
     carries (p_tid (slf s)) (m_lock (mtx t i)) \<and> p_pending (slf t) = 0 \<and>
     rlist (rl t) (p_robust_head (slf s)) (e_list_at E i # xs) \<and>
     unlock_usercnt n' E True i t = Ret 0 u \<and> m_lock (mtx u i) = 0 \<and> p_pending (slf u) = 0 \<and>
     m_owner (mtx u i) = (if dead then PTHREAD_MUTEX_NOTRECOVERABLE else 0) \<and>
     m_nusers (mtx u i) = (if dead then m_nusers (mtx s i) - 1 else m_nusers (mtx s i)) \<and>
     rlist (rl u) (p_robust_head (slf s)) xs \<and> (\<forall>j. j \<noteq> i \<longrightarrow> mtx u j = mtx s j)"
proof -
  let ?me = "p_tid (slf s)" and ?h = "p_robust_head (slf s)" and ?a = "e_list_at E i"
  obtain t m where t: "trylock_robust (Suc n) E i ?me s = Ret (if dead then EOWNERDEAD else 0) t"
    "robust_got E i m s t" "carries ?me (m_lock m)" "m_count m = 1" "m_kind m = m_kind (mtx s i)"
    "m_owner m = (if dead then PTHREAD_MUTEX_INCONSISTENT else ?me)"
    "m_nusers m = (if dead then m_nusers (mtx s i) else m_nusers (mtx s i) + 1)"
  proof (cases dead)
    case True
    then show thesis using that trylock_dead [OF assms(1), of s i n ?me] assms(7) keeps_waiters(1) [OF assms(3)] by auto
  next
    case False
    then show thesis using that trylock_free [OF assms(1) _ _ assms(3), of s i n] assms(3,7) by (auto simp: own_id_def)
  qed
  have m: "mtx t i = m" "slf t = (slf s)\<lparr>p_pending := 0\<rparr>" "rl t = ENQUEUE_MUTEX ?a ?h (rl s)"
    using t(2) by (simp_all add: robust_got_def)
  have l: "rlist (rl t) ?h (?a # xs)" unfolding m(3) ENQUEUE_MUTEX_def by (rule rlist_enqueue) (use assms(4-6) in simp_all)
  have tid: "p_tid (slf t) = ?me" by (simp add: m(2))
  have "\<exists>u. unlock_usercnt n' E True i t = Ret 0 u \<and> robust_left E i (if dead then PTHREAD_MUTEX_NOTRECOVERABLE else 0) t u"
    by (rule unlock_holder [OF assms(1)]) (simp_all only: tid m(1) t(3-6) assms(2,3))
  then obtain u where u: "unlock_usercnt n' E True i t = Ret 0 u"
    "robust_left E i (if dead then PTHREAD_MUTEX_NOTRECOVERABLE else 0) t u"
    by blast
  have "rlist (rl u) ?h xs" using rlist_dequeue [of "rl t" ?h "[]" ?a xs] l u(2) by (simp add: robust_left_def)
  moreover have "\<forall>j. j \<noteq> i \<longrightarrow> mtx u j = mtx s j" using t(2) u(2) by (simp add: robust_got_def robust_left_def)
  ultimately show ?thesis
    using t u l m robust_trylock [OF assms(2)] by (auto simp: robust_left_def)
qed

text \<open>
  C19 (a mutex that is not recoverable stays locked). A trylock of a free robust mutex that is marked as not recoverable returns
  \<open>ENOTRECOVERABLE\<close>, but leaves the word with the id of the caller, because it compares the word it
  replaced, 0, with the id before it unlocks; the mutex is not on the list of the thread and nothing is pending, so its
  death does not free it either. From then on any other thread is told \<open>EBUSY\<close>, and never that the mutex is not recoverable.
\<close>
theorem unrecoverable_stays_locked:
  assumes "quiet E" and "robust_kind (m_kind (mtx s i))" and "own_id (p_tid (slf s))"
    and "m_lock (mtx s i) = 0" and "m_owner (mtx s i) = PTHREAD_MUTEX_NOTRECOVERABLE"
  shows "\<exists>t. do_mutex_trylock (Suc n) E i s = Ret ENOTRECOVERABLE t \<and> carries (p_tid (slf s)) (m_lock (mtx t i)) \<and>
     rl t = rl s \<and> p_pending (slf t) = 0 \<and>
     (\<forall>other. p_tid other \<noteq> p_tid (slf s) \<longrightarrow>
       (\<exists>u. do_mutex_trylock (Suc n') E i (t\<lparr>slf := other\<rparr>) = Ret EBUSY u \<and> mtx u i = mtx t i))"
proof -
  obtain t where t: "do_mutex_trylock (Suc n) E i s = Ret ENOTRECOVERABLE t"
    "mtx t i = (mtx s i)\<lparr>m_lock := p_tid (slf s), m_count := 0\<rparr>" "rl t = rl s" "slf t = (slf s)\<lparr>p_pending := 0\<rparr>"
    using trylock_unrecoverable [OF assms(1,4,5,3), of n] robust_trylock [OF assms(2)] by auto
  have "\<exists>u. do_mutex_trylock (Suc n') E i (t\<lparr>slf := other\<rparr>) = Ret EBUSY u \<and> mtx u i = mtx t i"
    if o: "p_tid other \<noteq> p_tid (slf s)" for other
  proof -
    let ?t = "t\<lparr>slf := other\<rparr>"
    have "\<not> carries (p_tid other) (p_tid (slf s))" using o assms(3) by (auto simp: own_id_def carries_def)
    then have "\<exists>u. trylock_robust (Suc n') E i (p_tid other) ?t = Ret EBUSY u \<and> mtx u i = mtx ?t i"
      using trylock_busy [OF assms(1), of ?t i "p_tid other" n'] t(2) assms(3) own_id_not_died [OF assms(3)]
      by (auto simp: own_id_def)
    then show ?thesis using robust_trylock [of ?t i] t(2) assms(2) by simp
  qed
  then show ?thesis using t assms(3) by (auto simp: own_id_def)
qed

text \<open>Witnesses: the thread 7 with an empty list, and the mutex of entry 0.\<close>

definition robust_demo :: "i32 \<Rightarrow> i32 \<Rightarrow> nptl" where
  "robust_demo w owner = upd_mtx 0 (\<lambda>m. m\<lparr>m_kind := 16, m_lock := w, m_owner := owner\<rparr>) fresh"

lemma robust_demo_facts:
  "robust_kind (m_kind (mtx (robust_demo w owner) 0))" "m_lock (mtx (robust_demo w owner) 0) = w"
  "m_owner (mtx (robust_demo w owner) 0) = owner" "p_robust_head (slf (robust_demo w owner)) = 64"
  "own_id (p_tid (slf (robust_demo w owner)))" "e_list_at calm 0 = 4096"
  "rlist (rl (robust_demo w owner)) 64 []" "p_tid (slf (robust_demo w owner)) = 7"
  by (simp_all add: robust_demo_def robust_kind_cases fresh_def fresh_thread_def calm_def own_id_def carries_def futex_masks
      rlist_def ring_def untag_def aligned_def)

theorem robust_round_trip_witness:
  "\<exists>t u. do_mutex_trylock 1 calm 0 (robust_demo 0x40000000 0) = Ret EOWNERDEAD t \<and>
     unlock_usercnt 0 calm True 0 t = Ret 0 u \<and> m_owner (mtx u 0) = PTHREAD_MUTEX_NOTRECOVERABLE \<and> rlist (rl u) 64 []"
proof -
  let ?s = "robust_demo 0x40000000 0"
  have l: "rlist (rl ?s) (p_robust_head (slf ?s)) []" by (simp add: robust_demo_facts)
  have n: "e_list_at calm 0 \<notin> set (p_robust_head (slf ?s) # [])" "aligned (e_list_at calm 0)"
    by (simp_all add: robust_demo_facts aligned_def)
  have d: "if True then died (m_lock (mtx ?s 0))
      else m_lock (mtx ?s 0) = 0 \<and> m_owner (mtx ?s 0) \<noteq> PTHREAD_MUTEX_NOTRECOVERABLE"
    by (simp add: robust_demo_facts died_def futex_masks)
  show ?thesis
    using robust_round_trip [OF calm_quiet robust_demo_facts(1,5) l n(2,1) d, of 0 0] unfolding robust_demo_facts(4)
    by (simp only: if_True) auto
qed

theorem unrecoverable_stays_locked_witness:
  "\<exists>t. do_mutex_trylock 1 calm 0 (robust_demo 0 0x7ffffffe) = Ret ENOTRECOVERABLE t \<and> carries 7 (m_lock (mtx t 0))"
proof -
  have m: "m_owner (mtx (robust_demo 0 0x7ffffffe) 0) = PTHREAD_MUTEX_NOTRECOVERABLE"
    by (simp add: robust_demo_facts PTHREAD_MUTEX_NOTRECOVERABLE_def)
  show ?thesis
    using unrecoverable_stays_locked [OF calm_quiet robust_demo_facts(1,5,2) m, of 0 0] unfolding robust_demo_facts(8)
    by auto
qed

end
