(* ===== verification/PIMutex.thy ===== *)
theory PIMutex
  imports RobustMutex
begin

unbundle bit_operations_syntax

text \<open>
  The priority inheriting kinds: \<open>lock_pi\<close> and \<open>trylock_pi\<close> take a free mutex, but their part of
  \<open>__pthread_mutex_unlock_full\<close> is switched off and goes on into the code of the priority protected kinds. Shown: what an unlock
  does to each of them.
\<close>

section \<open>Kinds\<close>

definition pi_kind :: "i32 \<Rightarrow> bool" where
  "pi_kind k \<longleftrightarrow> k \<in> kinds_pi \<or> k \<in> (\<lambda>k. k OR PTHREAD_MUTEX_PSHARED_BIT) ` kinds_pi"

lemma pi_kind_cases:
  "pi_kind k \<longleftrightarrow> k \<in> {32, 33, 34, 35, 48, 49, 50, 51, 160, 161, 162, 163, 176, 177, 178, 179}"
  by (auto simp: pi_kind_def mutex_kinds)

lemma pi_trylock:
  assumes "pi_kind (m_kind (mtx s i))"
  shows "do_mutex_trylock n E i s = trylock_pi E i (p_tid (slf s)) s"
  using assms unfolding pi_kind_cases
  by (auto simp: do_mutex_trylock_def PTHREAD_MUTEX_TYPE_ELISION_def mutex_kinds Let_def)

lemma pi_unlock:
  assumes "pi_kind (m_kind (mtx s i))"
  shows "unlock_usercnt n E decr i s = unlock_full n E decr i s"
  using assms unfolding pi_kind_cases
  by (auto simp: unlock_usercnt_def PTHREAD_MUTEX_TYPE_ELISION_def mutex_kinds Let_def)

lemma pi_unlock_full:
  assumes "pi_kind (m_kind (mtx s i))" and "m_owner (mtx s i) = p_tid (slf s)"
  shows "unlock_full n E decr i s =
     (if PTHREAD_MUTEX_TYPE (mtx s i) = PTHREAD_MUTEX_PI_RECURSIVE_NP
      then if m_count (mtx s i) \<noteq> 1 then Ret 0 (add_count i (-1) s) else unlock_pp_recursive n E decr i (add_count i (-1) s)
      else unlock_pp_recursive n E decr i s)"
proof -
  have "PTHREAD_MUTEX_TYPE (mtx s i) \<in> {32, 33, 34, 35, 48, 49, 50, 51}"
    using assms(1) unfolding pi_kind_cases PTHREAD_MUTEX_TYPE_def by auto
  moreover have "m_count (mtx s i) - 1 \<noteq> 0 \<longleftrightarrow> m_count (mtx s i) \<noteq> 1" by (simp add: right_minus_eq)
  ultimately show ?thesis using assms(2) by (auto simp: unlock_full_def mutex_kinds Let_def)
qed

section \<open>Taking it\<close>

definition pi_taken :: "nat \<Rightarrow> nptl \<Rightarrow> nptl \<Rightarrow> bool" where
  "pi_taken i s t \<longleftrightarrow> p_tid (slf t) = p_tid (slf s) \<and> p_tpp (slf t) = p_tpp (slf s) \<and>
     fifo_min_prio t = fifo_min_prio s \<and> fifo_max_prio t = fifo_max_prio s \<and>
     mtx t i = (mtx s i)\<lparr>m_lock := p_tid (slf s), m_count := 1, m_owner := p_tid (slf s), m_nusers := m_nusers (mtx s i) + 1\<rparr>"

lemma trylock_pi_free:
  assumes "quiet E" and "m_lock (mtx s i) = 0" and "m_owner (mtx s i) \<noteq> PTHREAD_MUTEX_NOTRECOVERABLE"
    and "own_id (p_tid (slf s))"
  shows "\<exists>t. trylock_pi E i (p_tid (slf s)) s = Ret 0 t \<and> pi_taken i s t"
  using assms not_carries_0 [OF assms(4)]
  by (simp add: trylock_pi_def trylock_pi_word_def trylock_pi_finish_def enqueue_pi_def Let_def loadl_def mc.cmpxchg_cases
      quiet_ticks record_owner_def pi_taken_def)

lemma lock_pi_free:
  assumes "quiet E" and "m_lock (mtx s i) = 0" and "m_owner (mtx s i) \<noteq> PTHREAD_MUTEX_NOTRECOVERABLE"
    and "own_id (p_tid (slf s))" and "m_kind (mtx s i) \<in> kinds_pi"
  shows "\<exists>t. lock_real n E False i mi thd s = Ret 0 t \<and> pi_taken i s t"
proof -
  have "lock_switch n E False i mi thd (p_tid (slf s)) s = lock_pi E False i (p_tid (slf s)) s"
    using assms(5) by (auto simp: lock_switch_def mutex_kinds Let_def)
  then show ?thesis
    using assms not_carries_0 [OF assms(4)]
    by (simp add: lock_real_def lock_pi_def pi_finish_def enqueue_pi_def Let_def loadl_def mc.cmpxchg_cases
        quiet_ticks pi_taken_def)
qed

section \<open>Giving it back\<close>

text \<open>The range of priorities is known, or will be asked for.\<close>

definition prio_known :: "nptl \<Rightarrow> bool" where
  "prio_known s \<longleftrightarrow> 0 < fifo_min_prio s \<or> fifo_min_prio s = -1 \<and> p_tpp (slf s) = None"

lemma tpp_zero_aborts:
  assumes "prio_known s" and "0 < e_prio_min E" and "\<And>k. e_calloc E k"
  shows "tpp_change_priority n E 0 (-1) s = Abort"
  using assms
  by (auto simp: tpp_change_priority_def tpp_alloc_def init_sched_fifo_prio_def prio_known_def prio_ok_def assrt_def Let_def
      split: option.split)

lemma unlock_pp_aborts:
  assumes "quiet E" and "m_lock (mtx s i) AND PTHREAD_MUTEX_PRIO_CEILING_MASK = 0"
    and "prio_known s" and "0 < e_prio_min E" and "\<And>k. e_calloc E k"
  shows "unlock_pp (Suc n) E True i s = Abort"
proof -
  have k: "prio_known t" if "fifo_min_prio t = fifo_min_prio s" "p_tpp (slf t) = p_tpp (slf s)" for t
    using assms(3) that by (simp add: prio_known_def)
  show ?thesis
    using assms(1,2)
    by (auto simp: unlock_pp_def Let_def loadl_def mc.cmpxchg_cases quiet_ticks lll_futex_wake_def
        intro!: tpp_zero_aborts [OF k assms(4,5)])
qed

section \<open>The property\<close>

text \<open>
  C21 (priority inheriting mutexes are not given back). With nobody else acting, a thread takes a free mutex of any of these kinds
  by lock or trylock; the word carries its id. The unlock of a recursive one returns 0 and
  takes 1 from the count twice, so the count wraps to its largest value and the mutex stays locked: the owner cannot lock
  it again, the others find it busy. The unlock of any other aborts the process, because the ceiling it reads from the word is
  no priority.
\<close>
theorem pi_never_given_back:
  assumes "quiet E" and "pi_kind (m_kind (mtx s i))" and "own_id (p_tid (slf s))"
    and "p_tid (slf s) AND PTHREAD_MUTEX_PRIO_CEILING_MASK = 0"
    and "m_lock (mtx s i) = 0" and "m_owner (mtx s i) \<noteq> PTHREAD_MUTEX_NOTRECOVERABLE"
    and "prio_known s" and "0 < e_prio_min E" and "\<forall>k. e_calloc E k"
    and "taking = do_mutex_trylock n E i s \<or> m_kind (mtx s i) \<in> kinds_pi \<and> taking = lock_real n E False i mi thd s"
  shows "\<exists>t. taking = Ret 0 t \<and> m_lock (mtx t i) = p_tid (slf s) \<and>
     (if PTHREAD_MUTEX_TYPE (mtx s i) = PTHREAD_MUTEX_PI_RECURSIVE_NP
      then \<exists>u. unlock_usercnt n' E True i t = Ret 0 u \<and> mtx u i = (mtx t i)\<lparr>m_count := -1\<rparr> \<and>
        (\<exists>v. do_mutex_trylock n' E i u = Ret EAGAIN v \<and> mtx v i = mtx u i) \<and>
        (\<forall>other. p_tid other \<noteq> p_tid (slf s) \<longrightarrow>
          (\<exists>v. do_mutex_trylock n' E i (u\<lparr>slf := other\<rparr>) = Ret EBUSY v \<and> mtx v i = mtx u i))
      else unlock_usercnt (Suc n') E True i t = Abort)"
proof -
  let ?me = "p_tid (slf s)"
  obtain t where t: "taking = Ret 0 t" "pi_taken i s t"
    using assms(10) pi_trylock [OF assms(2)] trylock_pi_free [OF assms(1,5,6,3)] lock_pi_free [OF assms(1,5,6,3)] by metis
  note h = t(2) [unfolded pi_taken_def]
  have k: "pi_kind (m_kind (mtx t i))" "m_owner (mtx t i) = p_tid (slf t)" "m_count (mtx t i) = 1"
    "PTHREAD_MUTEX_TYPE (mtx t i) = PTHREAD_MUTEX_TYPE (mtx s i)" "m_lock (mtx t i) = ?me"
    using h assms(2) by (simp_all add: PTHREAD_MUTEX_TYPE_def)
  show ?thesis
  proof (cases "PTHREAD_MUTEX_TYPE (mtx s i) = PTHREAD_MUTEX_PI_RECURSIVE_NP")
    case True
    let ?u = "add_count i (-1) (add_count i (-1) t)"
    have u: "unlock_usercnt n' E True i t = Ret 0 ?u" "mtx ?u i = (mtx t i)\<lparr>m_count := -1\<rparr>"
      using k True unfolding pi_unlock [OF k(1)] pi_unlock_full [OF k(1,2)] by (simp_all add: unlock_pp_recursive_def)
    have r: "m_kind (mtx t i) AND PTHREAD_MUTEX_KIND_MASK_NP = PTHREAD_MUTEX_RECURSIVE_NP"
      "m_kind (mtx t i) AND PTHREAD_MUTEX_ROBUST_NORMAL_NP = 0"
      using k(1,4) True unfolding pi_kind_cases by (auto simp: PTHREAD_MUTEX_TYPE_def mutex_kinds)
    have "\<exists>v. do_mutex_trylock n' E i ?u = Ret EAGAIN v \<and> mtx v i = mtx ?u i"
      using assms(1,3) k h r
      by (simp add: pi_trylock trylock_pi_def Let_def loadl_def quiet_ticks pi_already_def own_id_def carries_def mutex_kinds)
    moreover have "\<exists>v. do_mutex_trylock n' E i (?u\<lparr>slf := other\<rparr>) = Ret EBUSY v \<and> mtx v i = mtx ?u i"
      if "p_tid other \<noteq> ?me" for other
      using that assms(1,3) own_id_not_died [OF assms(3)] k h r
      by (simp add: pi_trylock trylock_pi_def trylock_pi_word_def Let_def loadl_def mc.cmpxchg_cases quiet_ticks own_id_def
          carries_def died_def)
    ultimately show ?thesis using t(1) k(5) True u by auto
  next
    case False
    have "unlock_usercnt (Suc n') E True i t = unlock_pp (Suc n') E True i (add_count i (-1) t)"
      using k False unfolding pi_unlock [OF k(1)] pi_unlock_full [OF k(1,2)] by (simp add: unlock_pp_recursive_def)
    also have "\<dots> = Abort"
      by (rule unlock_pp_aborts) (use assms(1,4,7,8,9) h in \<open>simp_all add: prio_known_def\<close>)
    finally show ?thesis using t(1) k(5) False by auto
  qed
qed

definition pi_demo :: "i32 \<Rightarrow> nptl" where
  "pi_demo k = upd_mtx 0 (\<lambda>m. m\<lparr>m_kind := k\<rparr>) fresh"

lemma pi_demo_facts:
  "m_kind (mtx (pi_demo k) 0) = k" "p_tid (slf (pi_demo k)) = 7" "own_id (p_tid (slf (pi_demo k)))"
  "p_tid (slf (pi_demo k)) AND PTHREAD_MUTEX_PRIO_CEILING_MASK = 0" "m_lock (mtx (pi_demo k) 0) = 0"
  "m_owner (mtx (pi_demo k) 0) \<noteq> PTHREAD_MUTEX_NOTRECOVERABLE" "prio_known (pi_demo k)" "0 < e_prio_min calm"
  "\<forall>k. e_calloc calm k"
  by (simp_all add: pi_demo_def fresh_def fresh_thread_def calm_def own_id_def carries_def futex_masks prio_known_def zero_mutex_def
      PTHREAD_MUTEX_PRIO_CEILING_MASK_def PTHREAD_MUTEX_NOTRECOVERABLE_def)

theorem pi_never_given_back_witness:
  "(\<exists>t u. do_mutex_trylock 1 calm 0 (pi_demo 33) = Ret 0 t \<and> unlock_usercnt 1 calm True 0 t = Ret 0 u \<and>
      m_lock (mtx u 0) = 7 \<and> m_count (mtx u 0) = -1) \<and>
   (\<exists>t. lock_real 1 calm False 0 0 1 (pi_demo 32) = Ret 0 t \<and> unlock_usercnt 1 calm True 0 t = Abort)"
proof -
  note f = pi_demo_facts
  have k: "pi_kind (m_kind (mtx (pi_demo 33) 0))" "pi_kind (m_kind (mtx (pi_demo 32) 0))" "m_kind (mtx (pi_demo 32) 0) \<in> kinds_pi"
    by (simp_all add: f(1) pi_kind_cases) (simp add: mutex_kinds)
  have r: "PTHREAD_MUTEX_TYPE (mtx (pi_demo 33) 0) = PTHREAD_MUTEX_PI_RECURSIVE_NP"
    "PTHREAD_MUTEX_TYPE (mtx (pi_demo 32) 0) \<noteq> PTHREAD_MUTEX_PI_RECURSIVE_NP"
    by (simp_all add: PTHREAD_MUTEX_TYPE_def f(1) mutex_kinds)
  from pi_never_given_back [OF calm_quiet k(1) f(3,4,5,6,7,8,9) disjI1 [OF refl], of 1 1] r(1)
  have "\<exists>t u. do_mutex_trylock 1 calm 0 (pi_demo 33) = Ret 0 t \<and> unlock_usercnt 1 calm True 0 t = Ret 0 u \<and>
      m_lock (mtx u 0) = 7 \<and> m_count (mtx u 0) = -1"
    unfolding f(2) by (simp only: if_True) auto
  moreover from pi_never_given_back [OF calm_quiet k(2) f(3,4,5,6,7,8,9) disjI2 [OF conjI [OF k(3) refl]], of 1 0 1 0] r(2)
  have "\<exists>t. lock_real 1 calm False 0 0 1 (pi_demo 32) = Ret 0 t \<and> unlock_usercnt 1 calm True 0 t = Abort"
    by (simp only: if_False One_nat_def) blast
  ultimately show ?thesis by blast
qed

end
