(* ===== verification/SingleList.thy ===== *)
theory SingleList
  imports RobustList
begin

unbundle bit_operations_syntax

text \<open>
  The other version of the queue macros of \<open>source/descr.h\<close>, for machines without \<open>__PTHREAD_MUTEX_HAVE_PREV\<close>: a singly linked
  list, so that \<open>DEQUEUE_MUTEX\<close> searches for the mutex. A node is the address of \<open>__list\<close>, bit 0 of a link the mark of a priority
  inheriting mutex. Shown: the search ends, and both macros do to the list what those of \<open>RobustList\<close> do.
\<close>

section \<open>The macros\<close>

type_synonym slinks = "u64 \<Rightarrow> u64"

definition S_ENQUEUE_MUTEX_BOTH :: "u64 \<Rightarrow> u64 \<Rightarrow> u64 \<Rightarrow> slinks \<Rightarrow> slinks" where
  "S_ENQUEUE_MUTEX_BOTH val mx l h =
     (let h = h(mx := h l)
      in h(l := mx OR val))"

text \<open>The \<open>while\<close> loop, with fuel; the value is \<open>runp\<close> at its end.\<close>

fun s_search :: "nat \<Rightarrow> u64 \<Rightarrow> u64 \<Rightarrow> u64 \<Rightarrow> slinks \<Rightarrow> (u64, slinks) out" where
  "s_search 0 mx runp nx h = Stuck"
| "s_search (Suc n) mx runp nx h =
     (if nx \<noteq> mx then s_search n mx nx (untag (h nx)) h else Ret runp h)"

definition S_DEQUEUE_MUTEX :: "nat \<Rightarrow> u64 \<Rightarrow> u64 \<Rightarrow> slinks \<Rightarrow> (unit, slinks) out" where
  "S_DEQUEUE_MUTEX n mx l h =
     (let runp = untag (h l) in
      if runp = mx then Ret () (h(l := h runp))
      else
        let nx = untag (h runp) in
        bnd (s_search n mx runp nx h) (\<lambda>runp h.
          let h = h(runp := h mx)
          in Ret () (h(mx := 0))))"

section \<open>The list\<close>

fun spath :: "slinks \<Rightarrow> u64 \<Rightarrow> u64 list \<Rightarrow> u64 \<Rightarrow> bool" where
  "spath h p [] e \<longleftrightarrow> untag (h p) = e"
| "spath h p (x # xs) e \<longleftrightarrow> untag (h p) = x \<and> spath h x xs e"

definition slist :: "slinks \<Rightarrow> u64 \<Rightarrow> u64 list \<Rightarrow> bool" where
  "slist h l xs \<longleftrightarrow> spath h l xs l \<and> distinct (l # xs) \<and> (\<forall>a \<in> set (l # xs). aligned a)"

lemma spath_append: "spath h p (xs @ x # ys) e \<longleftrightarrow> spath h p xs x \<and> spath h x ys e"
  by (induction xs arbitrary: p) auto

lemma spath_cong: "\<forall>a \<in> set (p # xs). h a = h' a \<Longrightarrow> spath h p xs e \<longleftrightarrow> spath h' p xs e"
  by (induction xs arbitrary: p) auto

lemma spath_redirect:
  "spath h p xs e \<Longrightarrow> distinct (p # xs) \<Longrightarrow> untag w = e' \<Longrightarrow> spath (h(last (p # xs) := w)) p xs e'"
proof (induction xs arbitrary: p)
  case (Cons x xs)
  then have "last (x # xs) \<noteq> p" by (metis distinct.simps(2) last_in_set list.distinct(1))
  with Cons show ?case by simp
qed simp

text \<open>An insertion at the front.\<close>

lemma slist_enqueue:
  assumes "slist h l xs" and "m \<notin> set (l # xs)" and "aligned m" and "b = 0 \<or> b = 1"
  shows "slist (S_ENQUEUE_MUTEX_BOTH b m l h) l (m # xs)"
proof -
  let ?h = "S_ENQUEUE_MUTEX_BOTH b m l h"
  have "spath h l xs l" "distinct (l # xs)" using assms(1) by (simp_all add: slist_def)
  then have "spath ?h m xs l"
  proof (cases xs)
    case (Cons x ys)
    then have "spath h x ys l" using \<open>spath h l xs l\<close> by simp
    moreover have "\<forall>a \<in> set (x # ys). h a = ?h a" using Cons assms(1,2) by (auto simp: S_ENQUEUE_MUTEX_BOTH_def slist_def)
    ultimately have "spath ?h x ys l" using spath_cong by blast
    then show ?thesis using Cons \<open>spath h l xs l\<close> assms(2) by (simp add: S_ENQUEUE_MUTEX_BOTH_def)
  qed (use assms(2) in \<open>simp add: S_ENQUEUE_MUTEX_BOTH_def\<close>)
  then show ?thesis
    using assms untag_tagged [OF assms(3,4)] by (auto simp: slist_def S_ENQUEUE_MUTEX_BOTH_def)
qed

text \<open>The search runs through the nodes before the mutex and stops at the last of them.\<close>

lemma s_search_stops:
  assumes "spath h p xs m" and "m \<notin> set xs" and "length xs < n"
  shows "s_search n m p (untag (h p)) h = Ret (last (p # xs)) h"
  using assms
proof (induction xs arbitrary: p n)
  case Nil
  then show ?case by (cases n) simp_all
next
  case (Cons x xs)
  then obtain k where n: "n = Suc k" by (cases n) simp_all
  then show ?case using Cons by auto
qed

text \<open>With as much fuel as there are nodes \<open>DEQUEUE_MUTEX\<close> removes the mutex wherever it is.\<close>

lemma slist_dequeue:
  assumes "slist h l (xs @ m # ys)" and "length xs \<le> n"
  shows "\<exists>h'. S_DEQUEUE_MUTEX n m l h = Ret () h' \<and> slist h' l (xs @ ys)"
proof -
  have p: "spath h l xs m" "spath h m ys l" and dis: "distinct (l # xs @ m # ys)" and al: "\<forall>a \<in> set (l # xs @ m # ys). aligned a"
    using assms(1) by (simp_all add: slist_def spath_append)
  have d: "distinct (l # xs)" using dis by simp
  let ?z = "last (l # xs)"
  have z: "?z \<in> set (l # xs)" by (rule last_in_set) simp
  let ?g = "\<lambda>w. h(?z := h m, m := w)"
  have left: "spath (?g w) l xs e" if "untag (h m) = e" for w e
  proof -
    have "spath (h(?z := h m)) l xs e" by (rule spath_redirect [OF p(1) d that])
    moreover have "\<forall>a \<in> set (l # xs). (h(?z := h m)) a = ?g w a" using dis by (simp add: fun_upd_def)
    ultimately show ?thesis using spath_cong [of l xs "h(?z := h m)" "?g w" e] by blast
  qed
  have cut: "spath (?g w) l (xs @ ys) l" for w
  proof (cases ys)
    case Nil
    then show ?thesis using left [of l w] p(2) by simp
  next
    case (Cons y zs)
    then have y: "untag (h m) = y" "spath h y zs l" using p(2) by simp_all
    have "set (y # zs) \<inter> set (l # xs) = {}" "m \<notin> set (y # zs)" using dis Cons by auto
    then have "\<forall>a \<in> set (y # zs). h a = ?g w a" using z by (auto simp: fun_upd_def)
    then have "spath (?g w) y zs l" using y(2) spath_cong [of y zs h "?g w" l] by blast
    then show ?thesis using left [OF y(1), of w] Cons by (simp add: spath_append)
  qed
  have ok: "slist h' l (xs @ ys)" if "spath h' l (xs @ ys) l" for h' using that dis al by (auto simp: slist_def)
  show ?thesis
  proof (cases xs)
    case Nil
    have "h(?z := h m, m := h m) = h(l := h m)" using Nil dis by (auto simp: fun_eq_iff)
    then have "S_DEQUEUE_MUTEX n m l h = Ret () (h(?z := h m, m := h m))" using Nil p(1) by (simp add: S_DEQUEUE_MUTEX_def)
    then show ?thesis using ok cut by blast
  next
    case (Cons x us)
    then have x: "untag (h l) = x" "x \<noteq> m" "spath h x us m" "m \<notin> set us" "length us < n" "?z = last (x # us)"
      using p(1) dis assms(2) by auto
    have "S_DEQUEUE_MUTEX n m l h = Ret () (h(?z := h m, m := 0))"
      using x(1,2) s_search_stops [OF x(3-5)] x(6) by (simp add: S_DEQUEUE_MUTEX_def Let_def)
    then show ?thesis using ok cut by blast
  qed
qed

section \<open>Both versions agree\<close>

text \<open>From lists of the same mutexes the macros of both versions make lists of the same mutexes.\<close>

lemma versions_agree:
  assumes "slist h l xs" and "rlist g l xs"
  shows "m \<notin> set (l # xs) \<Longrightarrow> aligned m \<Longrightarrow> b = 0 \<or> b = 1 \<Longrightarrow>
      slist (S_ENQUEUE_MUTEX_BOTH b m l h) l (m # xs) \<and> rlist (ENQUEUE_MUTEX_BOTH b m l g) l (m # xs)"
    and "m \<in> set xs \<Longrightarrow> length xs \<le> n \<Longrightarrow>
      \<exists>h'. S_DEQUEUE_MUTEX n m l h = Ret () h' \<and> slist h' l (remove1 m xs) \<and> rlist (DEQUEUE_MUTEX m g) l (remove1 m xs)"
proof -
  show "slist (S_ENQUEUE_MUTEX_BOTH b m l h) l (m # xs) \<and> rlist (ENQUEUE_MUTEX_BOTH b m l g) l (m # xs)"
    if "m \<notin> set (l # xs)" "aligned m" "b = 0 \<or> b = 1"
    using slist_enqueue [OF assms(1) that] rlist_enqueue [OF assms(2) that] by blast
  show "\<exists>h'. S_DEQUEUE_MUTEX n m l h = Ret () h' \<and> slist h' l (remove1 m xs) \<and> rlist (DEQUEUE_MUTEX m g) l (remove1 m xs)"
    if m: "m \<in> set xs" "length xs \<le> n"
  proof -
    obtain us vs where s: "xs = us @ m # vs" "m \<notin> set us" using split_list_first [OF m(1)] by blast
    then have "remove1 m xs = us @ vs" by (simp add: remove1_append)
    moreover have "length us \<le> n" using s(1) m(2) by simp
    ultimately show ?thesis
      using slist_dequeue [of h l us m vs n] rlist_dequeue [of g l us m vs] assms s(1) by auto
  qed
qed

end
